(* ===== verification/Keith_Prelude.thy ===== *)
theory Keith_Prelude
  imports Main "HOL-Library.Word" "HOL-Library.Char_ord" "HOL-Library.List_Lexorder"
    "HOL-Library.Product_Lexorder"
begin

text \<open>
  Shared vocabulary of the development: the machine integers of the Rust sources, UTF-8 strings
  (a Rust \<open>str\<close> is its byte sequence, here the HOL type \<open>string\<close>), the result type
  \<open>'e + 'a\<close> of fallible operations (\<open>Inl\<close> is \<open>Err\<close>), and the lemmas on them that
  the component theories use.
\<close>

named_theorems keith_defs \<open>definitions that component proofs unfold\<close>
named_theorems result_splits \<open>splits for results, options and conditionals\<close>

type_synonym u8 = "8 word"
type_synonym u16 = "16 word"
type_synonym u32 = "32 word"
type_synonym u64 = "64 word"
type_synonym timestamp = int

declare sum.splits [result_splits] option.splits [result_splits] if_splits [result_splits]
  prod.splits [result_splits]

section \<open>Machine integers\<close>

text \<open>\<open>checked_add(1)\<close> on \<open>u64\<close>: \<open>None\<close> exactly at \<open>u64::MAX\<close>.\<close>

definition checked_succ :: "u64 \<Rightarrow> u64 option" where
  "checked_succ r = (if unat r + 1 < 2 ^ 64 then Some (r + 1) else None)"

lemma unat_succ_u64: "unat r + 1 < 2 ^ 64 \<Longrightarrow> unat (r + 1 :: u64) = unat r + 1"
  by (simp add: unat_word_ariths)

lemma checked_succ_unat: "checked_succ r = Some r' \<Longrightarrow> unat r' = unat r + 1"
  by (auto simp: checked_succ_def unat_word_ariths split: if_splits)

lemma checked_succ_less: "checked_succ r = Some r' \<Longrightarrow> r < r'"
  by (auto dest: checked_succ_unat simp: word_less_nat_alt)

lemma checked_succ_not_zero: "checked_succ r = Some r' \<Longrightarrow> r' \<noteq> 0"
  by (auto dest: checked_succ_unat)

text \<open>\<open>saturating_add(1)\<close> on \<open>u32\<close>.\<close>

definition saturating_succ_u32 :: "u32 \<Rightarrow> u32" where
  "saturating_succ_u32 n = (if unat n + 1 < 2 ^ 32 then n + 1 else n)"

lemma unat_saturating_succ_u32: "unat (saturating_succ_u32 n) = min (unat n + 1) (2 ^ 32 - 1)"
proof -
  have "unat n < 2 ^ 32" using unsigned_less [of n] by simp
  then show ?thesis
    by (auto simp: saturating_succ_u32_def unat_word_ariths)
qed

text \<open>\<open>i64\<close> values are integers in range; the saturating operations clamp to it.\<close>

definition i64_min :: int where "i64_min = - (2 ^ 63)"
definition i64_max :: int where "i64_max = 2 ^ 63 - 1"

definition is_i64 :: "int \<Rightarrow> bool" where
  "is_i64 x \<longleftrightarrow> i64_min \<le> x \<and> x \<le> i64_max"

definition sat_i64 :: "int \<Rightarrow> int" where
  "sat_i64 x = max i64_min (min i64_max x)"

definition i64_saturating_add :: "int \<Rightarrow> int \<Rightarrow> int" where
  "i64_saturating_add a b = sat_i64 (a + b)"

definition i64_saturating_sub :: "int \<Rightarrow> int \<Rightarrow> int" where
  "i64_saturating_sub a b = sat_i64 (a - b)"

definition i64_saturating_mul :: "int \<Rightarrow> int \<Rightarrow> int" where
  "i64_saturating_mul a b = sat_i64 (a * b)"

lemma sat_i64_range [simp]: "is_i64 (sat_i64 x)"
  by (simp add: sat_i64_def is_i64_def i64_min_def i64_max_def)

lemma sat_i64_id: "is_i64 x \<Longrightarrow> sat_i64 x = x"
  by (simp add: sat_i64_def is_i64_def)

lemma sat_i64_mono: "x \<le> y \<Longrightarrow> sat_i64 x \<le> sat_i64 y"
  by (auto simp: sat_i64_def)

lemma i64_saturating_add_ge: "is_i64 a \<Longrightarrow> 0 \<le> b \<Longrightarrow> a \<le> i64_saturating_add a b"
  by (auto simp: i64_saturating_add_def sat_i64_def is_i64_def)

text \<open>The checked operations fail out of range.\<close>

definition i64_checked :: "int \<Rightarrow> int option" where
  "i64_checked x = (if is_i64 x then Some x else None)"

definition i64_checked_add :: "int \<Rightarrow> int \<Rightarrow> int option" where
  "i64_checked_add a b = i64_checked (a + b)"

definition i64_checked_sub :: "int \<Rightarrow> int \<Rightarrow> int option" where
  "i64_checked_sub a b = i64_checked (a - b)"

definition i64_checked_mul :: "int \<Rightarrow> int \<Rightarrow> int option" where
  "i64_checked_mul a b = i64_checked (a * b)"

text \<open>Division truncates towards zero; it fails for a zero divisor and for the one quotient that
  does not fit.\<close>

definition i64_checked_div :: "int \<Rightarrow> int \<Rightarrow> int option" where
  "i64_checked_div a b =
     (if b = 0 then None
      else i64_checked (if (a < 0) = (b < 0) then \<bar>a\<bar> div \<bar>b\<bar> else - (\<bar>a\<bar> div \<bar>b\<bar>)))"

definition i64_try_from :: "u64 \<Rightarrow> int option" where
  "i64_try_from n = i64_checked (uint n)"

definition checked_succ_u32 :: "u32 \<Rightarrow> u32 option" where
  "checked_succ_u32 n = (if unat n + 1 < 2 ^ 32 then Some (n + 1) else None)"

definition saturating_succ_u16 :: "u16 \<Rightarrow> u16" where
  "saturating_succ_u16 n = (if unat n + 1 < 2 ^ 16 then n + 1 else n)"

lemma i64_checked_Some: "i64_checked x = Some y \<longleftrightarrow> y = x \<and> is_i64 x"
  by (auto simp: i64_checked_def)

lemmas i64_checked_defs = i64_checked_add_def i64_checked_sub_def i64_checked_mul_def
  i64_try_from_def i64_checked_Some

lemma checked_succ_u32_Some:
  assumes "checked_succ_u32 n = Some m"
  shows "m = n + 1" and "unat m = unat n + 1"
  using assms by (auto simp: checked_succ_u32_def unat_word_ariths split: if_splits)

lemma saturating_succ_u16_le: "(x :: u16) < m \<Longrightarrow> saturating_succ_u16 x \<le> m"
proof -
  assume "x < m"
  moreover have "unat m < 2 ^ 16" using unsigned_less [of m] by simp
  ultimately have "unat (x + 1) = unat x + 1" by (simp add: word_less_nat_alt unat_word_ariths)
  then show ?thesis using \<open>x < m\<close> by (simp add: saturating_succ_u16_def word_le_nat_alt word_less_nat_alt)
qed

text \<open>\<open>checked_add\<close>, \<open>checked_sub\<close>, \<open>saturating_add\<close> and \<open>saturating_sub\<close> of the unsigned types.\<close>

definition checked_add_u64 :: "u64 \<Rightarrow> u64 \<Rightarrow> u64 option" where
  "checked_add_u64 a b = (if unat a + unat b < 2 ^ 64 then Some (a + b) else None)"

definition checked_sub_u64 :: "u64 \<Rightarrow> u64 \<Rightarrow> u64 option" where
  "checked_sub_u64 a b = (if b \<le> a then Some (a - b) else None)"

lemma checked_add_u64_Some: "checked_add_u64 a b = Some c \<Longrightarrow> unat c = unat a + unat b"
  by (auto simp: checked_add_u64_def unat_word_ariths split: if_splits)

lemma checked_sub_u64_Some: "checked_sub_u64 a b = Some c \<Longrightarrow> unat a = unat c + unat b"
  by (auto simp: checked_sub_u64_def unat_sub word_le_nat_alt split: if_splits)

definition saturating_add :: "'a::len word \<Rightarrow> 'a word \<Rightarrow> 'a word" where
  "saturating_add a b = (if unat a + unat b < 2 ^ LENGTH('a) then a + b else - 1)"

definition saturating_sub :: "'a::len word \<Rightarrow> 'a word \<Rightarrow> 'a word" where
  "saturating_sub a b = (if b \<le> a then a - b else 0)"

lemma unat_saturating_add:
  "unat (saturating_add a b :: 'a::len word) = min (unat a + unat b) (2 ^ LENGTH('a) - 1)"
  by (auto simp: saturating_add_def unat_word_ariths unsigned_minus_1_eq_mask mask_eq_exp_minus_1)

lemma saturating_add_ge: "a \<le> saturating_add a (b :: 'a::len word)"
proof -
  have "unat a < 2 ^ LENGTH('a)" by (rule unsigned_less)
  then have "unat a \<le> 2 ^ LENGTH('a) - 1" by linarith
  then show ?thesis by (simp add: word_le_nat_alt unat_saturating_add)
qed

section \<open>Results\<close>

text \<open>Collecting an iterator of results stops at its first error.\<close>

fun collect_results :: "('e + 'a) list \<Rightarrow> 'e + 'a list" where
  "collect_results [] = Inr []"
| "collect_results (Inl e # rs) = Inl e"
| "collect_results (Inr x # rs) =
     (case collect_results rs of Inl e \<Rightarrow> Inl e | Inr xs \<Rightarrow> Inr (x # xs))"

lemma collect_results_Inr_iff: "collect_results rs = Inr xs \<longleftrightarrow> rs = map Inr xs"
proof (induction rs arbitrary: xs rule: collect_results.induct)
  case (3 x rs)
  show ?case
  proof (cases "collect_results rs")
    case (Inl e)
    then have "\<nexists>ys. rs = map Inr ys" using 3 by (metis Inl_Inr_False)
    with Inl show ?thesis by (auto simp: map_eq_Cons_conv Cons_eq_map_conv)
  next
    case (Inr ys)
    then have "rs = map Inr ys" using 3 by blast
    with Inr show ?thesis by (auto simp: map_eq_Cons_conv Cons_eq_map_conv inj_map_eq_map inj_def)
  qed
qed auto

lemma collect_results_map_Inr [simp]: "collect_results (map Inr xs) = Inr xs"
  by (simp add: collect_results_Inr_iff)

lemma collect_results_mapD:
  assumes "collect_results (map f rs) = Inr xs"
  shows "length xs = length rs" and "\<And>i. i < length rs \<Longrightarrow> f (rs ! i) = Inr (xs ! i)"
    and "x \<in> set xs \<Longrightarrow> \<exists>r \<in> set rs. f r = Inr x"
    and "r \<in> set rs \<Longrightarrow> \<exists>x \<in> set xs. f r = Inr x"
proof -
  have eq: "map f rs = map Inr xs" using assms by (simp add: collect_results_Inr_iff)
  show len: "length xs = length rs" using eq by (metis length_map)
  show nth: "f (rs ! i) = Inr (xs ! i)" if "i < length rs" for i
    using eq that len by (metis nth_map)
  show "\<exists>r \<in> set rs. f r = Inr x" if "x \<in> set xs"
    using that nth len by (metis in_set_conv_nth)
  show "\<exists>x \<in> set xs. f r = Inr x" if "r \<in> set rs"
    using that nth len by (metis in_set_conv_nth)
qed

section \<open>Strings\<close>

text \<open>Decimal rendering of an unsigned integer (\<open>Display\<close>).\<close>

fun show_nat :: "nat \<Rightarrow> string" where
  "show_nat n =
     (if n < 10 then [char_of (48 + n)] else show_nat (n div 10) @ [char_of (48 + n mod 10)])"

declare show_nat.simps [simp del]

text \<open>
  \<open>char::is_whitespace\<close> on UTF-8: the number of bytes of a white-space character at the head
  of a byte sequence, \<open>0\<close> when there is none.
\<close>

fun whitespace_len :: "string \<Rightarrow> nat" where
  "whitespace_len [] = 0"
| "whitespace_len (c # cs) =
     (let a = of_char c :: nat in
      if (9 \<le> a \<and> a \<le> 13) \<or> a = 32 then 1
      else (case cs of
          [] \<Rightarrow> 0
        | d # ds \<Rightarrow>
            (let b = of_char d :: nat in
             if a = 194 \<and> (b = 133 \<or> b = 160) then 2
             else (case ds of
                 [] \<Rightarrow> 0
               | e # _ \<Rightarrow>
                   (let z = of_char e :: nat in
                    if (a = 225 \<and> b = 154 \<and> z = 128)
                      \<or> (a = 226 \<and> b = 128 \<and> ((128 \<le> z \<and> z \<le> 138) \<or> z = 168 \<or> z = 169 \<or> z = 175))
                      \<or> (a = 226 \<and> b = 129 \<and> z = 159)
                      \<or> (a = 227 \<and> b = 128 \<and> z = 128)
                    then 3 else 0)))))"

lemma whitespace_len_le: "whitespace_len s \<le> length s"
  by (cases s) (auto simp: Let_def split: list.splits)

declare whitespace_len.simps [simp del]

function trim_start :: "string \<Rightarrow> string" where
  "trim_start s =
     (if whitespace_len s = 0 then s else trim_start (drop (whitespace_len s) s))"
  by pat_completeness auto
termination
proof (relation "measure length", goal_cases)
  case 1
  show ?case by simp
next
  case (2 s)
  then have "s \<noteq> []" by (auto simp: whitespace_len.simps)
  with 2 show ?case by simp
qed

declare trim_start.simps [simp del]

text \<open>The white-space character that ends a byte sequence, by its length.\<close>

definition whitespace_suffix :: "string \<Rightarrow> nat" where
  "whitespace_suffix s =
     (let tail = (\<lambda>k. k \<le> length s \<and> whitespace_len (drop (length s - k) s) = k) in
      if tail 1 then 1 else if tail 2 then 2 else if tail 3 then 3 else 0)"

lemma whitespace_suffix_le: "whitespace_suffix s \<le> length s"
  by (auto simp: whitespace_suffix_def Let_def)

function trim_end :: "string \<Rightarrow> string" where
  "trim_end s =
     (if whitespace_suffix s = 0 then s
      else trim_end (take (length s - whitespace_suffix s) s))"
  by pat_completeness auto
termination
proof (relation "measure length", goal_cases)
  case 1
  show ?case by simp
next
  case (2 s)
  then have "0 < length s" using whitespace_suffix_le [of s] by linarith
  with 2 show ?case by simp
qed

declare trim_end.simps [simp del]

definition trim :: "string \<Rightarrow> string" where
  "trim s = trim_end (trim_start s)"

text \<open>\<open>s.trim().is_empty()\<close>, the blankness test the services apply to user text.\<close>

definition is_blank :: "string \<Rightarrow> bool" where
  "is_blank s \<longleftrightarrow> trim s = []"

lemma length_trim_start: "length (trim_start s) \<le> length s"
proof (induction s rule: trim_start.induct)
  case (1 s)
  then show ?case
    by (subst trim_start.simps) (fastforce intro: order_trans)
qed

lemma trim_start_suffix: "\<exists>p. s = p @ trim_start s"
proof (induction s rule: trim_start.induct)
  case (1 s)
  show ?case
  proof (cases "whitespace_len s = 0")
    case True
    then show ?thesis by (subst trim_start.simps) simp
  next
    case False
    with 1 obtain p where p: "drop (whitespace_len s) s = p @ trim_start (drop (whitespace_len s) s)"
      by blast
    have "s = take (whitespace_len s) s @ drop (whitespace_len s) s" by simp
    also have "\<dots> = (take (whitespace_len s) s @ p) @ trim_start (drop (whitespace_len s) s)"
      using p by simp
    finally have "\<exists>p. s = p @ trim_start (drop (whitespace_len s) s)" by blast
    then show ?thesis using False by (metis trim_start.simps)
  qed
qed

lemma trim_end_prefix: "\<exists>q. s = trim_end s @ q"
proof (induction s rule: trim_end.induct)
  case (1 s)
  let ?k = "length s - whitespace_suffix s"
  show ?case
  proof (cases "whitespace_suffix s = 0")
    case True
    then show ?thesis by (subst trim_end.simps) simp
  next
    case False
    with 1 obtain q where q: "take ?k s = trim_end (take ?k s) @ q" by blast
    have "s = take ?k s @ drop ?k s" by simp
    then have "s = trim_end (take ?k s) @ q @ drop ?k s" using q by (metis append.assoc)
    then show ?thesis using False by (metis trim_end.simps)
  qed
qed

lemma trim_infix: "\<exists>p q. s = p @ trim s @ q"
  unfolding trim_def using trim_start_suffix [of s] trim_end_prefix [of "trim_start s"] by metis

lemma is_blank_Nil [simp]: "is_blank []"
  by (simp add: is_blank_def trim_def trim_start.simps trim_end.simps whitespace_len.simps
      whitespace_suffix_def)

lemma trim_end_visible:
  assumes "whitespace_len s = 0" and "s \<noteq> []" and "\<And>n. 0 < n \<Longrightarrow> whitespace_len (take n s) = 0"
  shows "trim_end s \<noteq> []"
  using assms
proof (induction s rule: trim_end.induct)
  case (1 s)
  let ?k = "length s - whitespace_suffix s"
  show ?case
  proof (cases "whitespace_suffix s = 0")
    case True
    then show ?thesis using 1(3) by (subst trim_end.simps) simp
  next
    case False
    have "?k \<noteq> 0"
    proof
      assume "?k = 0"
      then have "whitespace_suffix s = length s" using whitespace_suffix_le [of s] by simp
      then show False using 1(2,3) by (auto simp: whitespace_suffix_def Let_def split: if_splits)
    qed
    then have "trim_end (take ?k s) \<noteq> []" using 1(1) [OF False] 1(3,4) by (simp add: min_def)
    then show ?thesis using False by (subst trim_end.simps) simp
  qed
qed

text \<open>Text that starts with a visible ASCII character is not blank.\<close>

lemma is_blank_visible:
  assumes "33 \<le> (of_char c :: nat)" and "(of_char c :: nat) < 128"
  shows "\<not> is_blank (c # cs)"
proof -
  have ws: "whitespace_len (c # ds) = 0" for ds
    using assms by (cases ds) (auto simp: whitespace_len.simps Let_def split: list.splits)
  have "trim_start (c # cs) = c # cs" by (subst trim_start.simps) (simp add: ws)
  moreover have "trim_end (c # cs) \<noteq> []"
    by (rule trim_end_visible) (auto simp: ws take_Cons split: nat.splits)
  ultimately show ?thesis by (simp add: is_blank_def trim_def)
qed

text \<open>UTF-8 continuation bytes, \<open>str::is_char_boundary\<close> and \<open>chars().take(n)\<close>.\<close>

definition is_continuation :: "char \<Rightarrow> bool" where
  "is_continuation c \<longleftrightarrow> 128 \<le> (of_char c :: nat) \<and> (of_char c :: nat) < 192"

definition is_char_boundary :: "string \<Rightarrow> nat \<Rightarrow> bool" where
  "is_char_boundary s k \<longleftrightarrow>
     k = 0 \<or> k = length s \<or> (k < length s \<and> \<not> is_continuation (s ! k))"

lemma is_char_boundary_0 [simp]: "is_char_boundary s 0"
  by (simp add: is_char_boundary_def)

fun take_chars :: "nat \<Rightarrow> string \<Rightarrow> string" where
  "take_chars 0 s = []"
| "take_chars (Suc n) [] = []"
| "take_chars (Suc n) (c # cs) =
     c # takeWhile is_continuation cs @ take_chars n (dropWhile is_continuation cs)"

lemma take_chars_prefix: "\<exists>q. s = take_chars n s @ q"
proof (induction n s rule: take_chars.induct)
  case (3 n c cs)
  then obtain q where "dropWhile is_continuation cs = take_chars n (dropWhile is_continuation cs) @ q"
    by blast
  then have "cs = takeWhile is_continuation cs @ take_chars n (dropWhile is_continuation cs) @ q"
    by (metis takeWhile_dropWhile_id)
  then show ?case by auto
qed auto

text \<open>Substring search: \<open>str::find\<close>, \<open>starts_with\<close>, \<open>ends_with\<close>, \<open>contains\<close>.\<close>

definition starts_with :: "string \<Rightarrow> string \<Rightarrow> bool" where
  "starts_with p s \<longleftrightarrow> take (length p) s = p"

definition ends_with :: "string \<Rightarrow> string \<Rightarrow> bool" where
  "ends_with p s \<longleftrightarrow> length p \<le> length s \<and> drop (length s - length p) s = p"

fun str_find :: "string \<Rightarrow> string \<Rightarrow> nat option" where
  "str_find p [] = (if p = [] then Some 0 else None)"
| "str_find p (c # cs) =
     (if starts_with p (c # cs) then Some 0 else map_option Suc (str_find p cs))"

definition str_contains :: "string \<Rightarrow> string \<Rightarrow> bool" where
  "str_contains p s \<longleftrightarrow> str_find p s \<noteq> None"

lemma starts_with_append [simp]: "starts_with p (p @ s)"
  by (simp add: starts_with_def)

lemma starts_withD: "starts_with p s \<Longrightarrow> s = p @ drop (length p) s"
  by (metis append_take_drop_id starts_with_def)

lemma ends_with_append [simp]: "ends_with p (s @ p)"
  by (simp add: ends_with_def)

lemma ends_withD: "ends_with p s \<Longrightarrow> s = take (length s - length p) s @ p"
  by (metis append_take_drop_id ends_with_def)

text \<open>\<open>str_find\<close> returns the leftmost occurrence.\<close>

lemma str_find_Some:
  "str_find p s = Some n \<Longrightarrow> n \<le> length s \<and> starts_with p (drop n s)"
proof (induction p s arbitrary: n rule: str_find.induct)
  case (1 p)
  then show ?case by (auto simp: starts_with_def split: if_splits)
next
  case (2 p c cs)
  then show ?case by (cases "starts_with p (c # cs)") auto
qed

lemma str_find_le:
  "s = a @ p @ b \<Longrightarrow> \<exists>n \<le> length a. str_find p s = Some n"
proof (induction a arbitrary: s)
  case Nil
  then have "starts_with p s" by simp
  then show ?case by (cases s) (auto simp: starts_with_def)
next
  case (Cons x a)
  then show ?case
    by (cases "starts_with p s") (fastforce simp: Cons.prems)+
qed

lemma str_find_None: "str_find p s = None \<longleftrightarrow> (\<nexists>a b. s = a @ p @ b)"
proof
  assume "str_find p s = None"
  then show "\<nexists>a b. s = a @ p @ b" using str_find_le by (metis option.distinct(1))
next
  assume none: "\<nexists>a b. s = a @ p @ b"
  show "str_find p s = None"
  proof (rule ccontr)
    assume "str_find p s \<noteq> None"
    then obtain n where n: "str_find p s = Some n" by auto
    then have "drop n s = p @ drop (length p) (drop n s)"
      using str_find_Some starts_withD by blast
    then have "s = take n s @ p @ drop (length p) (drop n s)"
      by (metis append_take_drop_id)
    with none show False by blast
  qed
qed

section \<open>Ordered maps\<close>

text \<open>A \<open>BTreeMap\<close> is the list of its entries, ascending in the keys.\<close>

fun bt_insert :: "'k::linorder \<Rightarrow> 'v \<Rightarrow> ('k \<times> 'v) list \<Rightarrow> ('k \<times> 'v) list" where
  "bt_insert k v [] = [(k, v)]"
| "bt_insert k v ((l, w) # m) =
     (if k < l then (k, v) # (l, w) # m
      else if k = l then (k, v) # m else (l, w) # bt_insert k v m)"

definition bt_remove :: "'k \<Rightarrow> ('k \<times> 'v) list \<Rightarrow> ('k \<times> 'v) list" where
  "bt_remove k m = filter (\<lambda>e. fst e \<noteq> k) m"

definition bt_values :: "('k \<times> 'v) list \<Rightarrow> 'v list" where
  "bt_values m = map snd m"

definition bt_ok :: "('k::linorder \<times> 'v) list \<Rightarrow> bool" where
  "bt_ok m \<longleftrightarrow> sorted_wrt (<) (map fst m)"

lemma map_of_bt_insert [simp]: "map_of (bt_insert k v m) = (map_of m)(k \<mapsto> v)"
  by (induction k v m rule: bt_insert.induct) (auto simp: fun_eq_iff)

lemma map_of_bt_remove [simp]: "map_of (bt_remove k m) = (map_of m)(k := None)"
  by (induction m) (auto simp: bt_remove_def fun_eq_iff)

lemma bt_insert_keys [simp]: "fst ` set (bt_insert k v m) = insert k (fst ` set m)"
  by (induction k v m rule: bt_insert.induct) auto

lemma bt_ok_Nil [simp]: "bt_ok []"
  by (simp add: bt_ok_def)

lemma bt_ok_insert [simp]: "bt_ok m \<Longrightarrow> bt_ok (bt_insert k v m)"
proof (induction k v m rule: bt_insert.induct)
  case (2 k v l w m)
  have "\<forall>j \<in> fst ` set (bt_insert k v m). l < j" if "k > l"
    using 2(2) that by (auto simp: bt_ok_def)
  then show ?case using 2 by (auto simp: bt_ok_def)
qed (simp add: bt_ok_def)

lemma bt_ok_remove [simp]: "bt_ok m \<Longrightarrow> bt_ok (bt_remove k m)"
  by (auto simp: bt_ok_def bt_remove_def intro: sorted_wrt_filter simp: sorted_wrt_map)

lemma bt_ok_distinct: "bt_ok m \<Longrightarrow> distinct (map fst m)"
  unfolding bt_ok_def by (metis strict_sorted_iff)

lemma bt_values_iff: "bt_ok m \<Longrightarrow> v \<in> set (bt_values m) \<longleftrightarrow> (\<exists>k. map_of m k = Some v)"
  using bt_ok_distinct [of m] by (auto simp: bt_values_def map_of_eq_Some_iff image_iff) force+

lemma bt_values_keys:
  "(\<And>k v. map_of m k = Some v \<Longrightarrow> f v = k) \<Longrightarrow> bt_ok m \<Longrightarrow> map f (bt_values m) = map fst m"
  using bt_ok_distinct [of m] by (auto simp: bt_values_def map_of_eq_Some_iff)

section \<open>Counting and selecting\<close>

lemma length_filter_card:
  assumes "distinct (map k xs)" and "\<And>x. x \<in> set xs \<Longrightarrow> P x \<longleftrightarrow> k x \<in> S" and "S \<subseteq> k ` set xs"
  shows "length (filter P xs) = card S"
proof -
  have "S = k ` set (filter P xs)" using assms(2,3) by auto
  moreover have "inj_on k (set (filter P xs))"
    using assms(1) by (auto simp: distinct_map intro: inj_on_subset)
  moreover have "distinct (filter P xs)" using assms(1) by (simp add: distinct_map)
  ultimately show ?thesis by (metis card_image distinct_card)
qed

lemma sort_key_head:
  assumes "sort_key f xs = x # ys"
  shows "x \<in> set xs" and "y \<in> set xs \<Longrightarrow> f x \<le> f y"
proof -
  have s: "set xs = insert x (set ys)" using assms by (metis list.simps(15) set_sort)
  show "x \<in> set xs" using s by simp
  have "sorted (map f (x # ys))" using assms by (metis sorted_sort_key)
  then show "y \<in> set xs \<Longrightarrow> f x \<le> f y" using s by auto
qed

lemma sort_key_Nil: "sort_key f xs = [] \<longleftrightarrow> xs = []"
  by (metis set_empty set_sort)

lemma find_filter: "find P xs = (case filter P xs of [] \<Rightarrow> None | x # _ \<Rightarrow> Some x)"
  by (induction xs) auto

lemma find_sort_key_Some:
  assumes "find P (sort_key f xs) = Some x"
  shows "x \<in> set xs" and "P x" and "y \<in> set xs \<Longrightarrow> P y \<Longrightarrow> f x \<le> f y"
proof -
  obtain ys where "sort_key f (filter P xs) = x # ys"
    using assms by (auto simp: find_filter filter_sort split: list.splits)
  note h = sort_key_head [OF this]
  show "x \<in> set xs" "P x" "y \<in> set xs \<Longrightarrow> P y \<Longrightarrow> f x \<le> f y" using h by auto
qed

lemma find_sort_key_None: "find P (sort_key f xs) = None \<longleftrightarrow> (\<forall>x \<in> set xs. \<not> P x)"
  by (auto simp: find_None_iff)

end
