(* ===== verification/Agent_Types.thy ===== *)
theory Agent_Types
  imports Keith_Prelude "HOL-Library.Multiset"
begin

text \<open>
  \<open>crates/agent-types/src/lib.rs\<close>: schema and protocol versions, entity identifiers, monotonic
  counters, timestamps, time-zone names and canonical JSON.

  An \<open>EntityId\<close> is a canonical 26-character ULID string, and the canonical strings are the
  renderings of the 128-bit values, in the same order; the model keeps the value. Rendering and
  parsing are the \<open>ulid\<close> crate's, which is not part of the repository, so they are the
  parameter \<open>ulid_codec\<close>, with \<open>ulid_ok\<close> the round trip the code relies on.
\<close>

section \<open>Versions\<close>

record version_pair =
  major :: u16
  minor :: u16

lemma version_pair_eta: "\<lparr>major = major v, minor = minor v\<rparr> = (v :: version_pair)"
  by simp

type_synonym protocol_version = version_pair
type_synonym schema_version = version_pair

definition CURRENT_PROTOCOL_VERSION :: protocol_version where
  "CURRENT_PROTOCOL_VERSION = \<lparr>major = 1, minor = 1\<rparr>"

definition CURRENT_SCHEMA_VERSION :: schema_version where
  "CURRENT_SCHEMA_VERSION = \<lparr>major = 1, minor = 0\<rparr>"

definition is_major_compatible_with :: "protocol_version \<Rightarrow> protocol_version \<Rightarrow> bool" where
  "is_major_compatible_with a b \<longleftrightarrow> major a = major b"

definition common_minor :: "protocol_version \<Rightarrow> protocol_version \<Rightarrow> protocol_version option" where
  "common_minor a b =
     (if is_major_compatible_with a b
      then Some \<lparr>major = major a, minor = (if minor a < minor b then minor a else minor b)\<rparr>
      else None)"

definition version_display :: "version_pair \<Rightarrow> string" where
  "version_display v = show_nat (unat (major v)) @ ''.'' @ show_nat (unat (minor v))"

section \<open>Entity identifiers\<close>

datatype entity_id = EntityId (id_bits: "128 word")

instantiation entity_id :: linorder
begin

definition less_eq_entity_id :: "entity_id \<Rightarrow> entity_id \<Rightarrow> bool" where
  "i \<le> j \<longleftrightarrow> id_bits i \<le> id_bits j"

definition less_entity_id :: "entity_id \<Rightarrow> entity_id \<Rightarrow> bool" where
  "i < j \<longleftrightarrow> id_bits i < id_bits j"

instance
  by standard (auto simp: less_eq_entity_id_def less_entity_id_def entity_id.expand)

end

text \<open>The typed identifiers are transparent wrappers of an entity identifier.\<close>

type_synonym action_id = entity_id
type_synonym artifact_id = entity_id
type_synonym child_id = entity_id
type_synonym client_id = entity_id
type_synonym commitment_id = entity_id
type_synonym delivery_id = entity_id
type_synonym entry_id = entity_id
type_synonym goal_id = entity_id
type_synonym job_id = entity_id
type_synonym message_id = entity_id
type_synonym profile_id = entity_id
type_synonym session_id = entity_id
type_synonym turn_id = entity_id
type_synonym workspace_id = entity_id

record ulid_codec =
  ulid_to_string :: "128 word \<Rightarrow> string"
  ulid_from_string :: "string \<Rightarrow> 128 word option"

definition ulid_ok :: "ulid_codec \<Rightarrow> bool" where
  "ulid_ok U \<longleftrightarrow> (\<forall>w. ulid_from_string U (ulid_to_string U w) = Some w)"

datatype entity_id_error = EntityIdInvalid

definition entity_id_from_u128 :: "128 word \<Rightarrow> entity_id" where
  "entity_id_from_u128 w = EntityId w"

fun entity_id_as_str :: "ulid_codec \<Rightarrow> entity_id \<Rightarrow> string" where
  "entity_id_as_str U (EntityId w) = ulid_to_string U w"

definition entity_id_parse :: "ulid_codec \<Rightarrow> string \<Rightarrow> entity_id_error + entity_id" where
  "entity_id_parse U value =
     (case ulid_from_string U value of
        None \<Rightarrow> Inl EntityIdInvalid
      | Some parsed \<Rightarrow>
          if value = ulid_to_string U parsed then Inr (EntityId parsed)
          else Inl EntityIdInvalid)"

lemma entity_id_parse_as_str: "ulid_ok U \<Longrightarrow> entity_id_parse U (entity_id_as_str U i) = Inr i"
  by (cases i) (simp add: ulid_ok_def entity_id_parse_def)

lemma entity_id_parse_Inr: "entity_id_parse U s = Inr i \<Longrightarrow> entity_id_as_str U i = s"
  by (auto simp: entity_id_parse_def split: option.splits if_splits)

lemma entity_id_as_str_inject:
  "ulid_ok U \<Longrightarrow> entity_id_as_str U i = entity_id_as_str U j \<longleftrightarrow> i = j"
  using entity_id_parse_as_str by (metis sum.inject(2))

section \<open>Counters and timestamps\<close>

type_synonym revision = u64

definition revision_zero :: revision where "revision_zero = 0"

text \<open>\<open>Revision::checked_next\<close> of the \<open>monotonic_counter\<close> macro.\<close>

definition checked_next :: "revision \<Rightarrow> revision option" where
  "checked_next r = checked_succ r"

lemma checked_next_eq: "checked_next n = Some m \<Longrightarrow> m = n + 1"
  by (simp add: checked_next_def checked_succ_def split: if_splits)

lemma checked_next_less: "checked_next r = Some r' \<Longrightarrow> r < r'"
  by (simp add: checked_next_def checked_succ_less)

lemma checked_next_unat: "checked_next r = Some r' \<Longrightarrow> unat r' = unat r + 1"
  by (simp add: checked_next_def checked_succ_unat)

datatype timestamp_error = TimestampOutOfRange

text \<open>
  A \<open>SystemTime\<close> is its signed distance from the epoch in nanoseconds;
  \<open>Duration::as_millis\<close> rounds down.
\<close>

definition from_system_time :: "int \<Rightarrow> timestamp_error + timestamp" where
  "from_system_time t =
     (if 0 \<le> t
      then (let ms = t div 1000000 in if ms \<le> i64_max then Inr ms else Inl TimestampOutOfRange)
      else (let ms = (- t) div 1000000 in
            if ms \<le> i64_max then Inr (- ms) else Inl TimestampOutOfRange))"

section \<open>Time-zone names\<close>

fun split_on :: "char \<Rightarrow> string \<Rightarrow> string list" where
  "split_on d [] = [[]]"
| "split_on d (c # cs) =
     (if c = d then [] # split_on d cs
      else (case split_on d cs of [] \<Rightarrow> [[c]] | p # ps \<Rightarrow> (c # p) # ps))"

lemma split_on_not_Nil [simp]: "split_on d s \<noteq> []"
  by (induction s) (auto split: list.splits)

text \<open>Joining the parts with the separator gives the string back.\<close>

fun join_with :: "char \<Rightarrow> string list \<Rightarrow> string" where
  "join_with d [] = []"
| "join_with d [p] = p"
| "join_with d (p # q # ps) = p @ d # join_with d (q # ps)"

lemma join_with_Cons: "ps \<noteq> [] \<Longrightarrow> join_with d (p # ps) = p @ d # join_with d ps"
  by (cases ps) auto

lemma join_split: "join_with d (split_on d s) = s"
proof (induction s)
  case (Cons c cs)
  obtain p ps where sp: "split_on d cs = p # ps" by (meson list.exhaust split_on_not_Nil)
  show ?case
  proof (cases "c = d")
    case True
    with Cons sp show ?thesis by simp
  next
    case False
    with Cons sp show ?thesis by (cases ps) auto
  qed
qed simp

lemma split_on_no_sep: "p \<in> set (split_on d s) \<Longrightarrow> d \<notin> set p"
proof (induction s arbitrary: p)
  case (Cons c cs)
  obtain q ps where sp: "split_on d cs = q # ps" by (meson list.exhaust split_on_not_Nil)
  with Cons show ?case by (fastforce split: if_splits)
qed simp

datatype time_zone_name = TimeZoneName string
datatype time_zone_name_error = TimeZoneNameInvalid

definition is_ascii_alphanumeric :: "char \<Rightarrow> bool" where
  "is_ascii_alphanumeric c \<longleftrightarrow>
     (let a = of_char c :: nat in
      (48 \<le> a \<and> a \<le> 57) \<or> (65 \<le> a \<and> a \<le> 90) \<or> (97 \<le> a \<and> a \<le> 122))"

definition zone_character :: "char \<Rightarrow> bool" where
  "zone_character c \<longleftrightarrow> is_ascii_alphanumeric c \<or> c \<in> {CHR ''_'', CHR ''-'', CHR ''+''}"

definition time_zone_parse :: "string \<Rightarrow> time_zone_name_error + time_zone_name" where
  "time_zone_parse value =
     (if value = ''UTC''
        \<or> (CHR ''/'' \<in> set value
           \<and> list_all (\<lambda>part. part \<noteq> [] \<and> list_all zone_character part)
               (split_on (CHR ''/'') value))
      then Inr (TimeZoneName value)
      else Inl TimeZoneNameInvalid)"

section \<open>Canonical JSON\<close>

text \<open>
  \<open>serde_json::Value\<close> with insertion-ordered objects (the workspace enables that feature);
  numbers are the crate's own type.
\<close>

datatype 'n json =
    JNull
  | JBool bool
  | JNumber 'n
  | JString string
  | JArray "'n json list"
  | JObject "(string \<times> 'n json) list"

lemma size_json_entry:
  "(k, v) \<in> set kvs \<Longrightarrow> size v < Suc (size_list (size_prod (\<lambda>_. 0) size) kvs)"
  by (induction kvs) auto

function sort_json_value :: "'n json \<Rightarrow> 'n json" where
  "sort_json_value (JArray vs) = JArray (map sort_json_value vs)"
| "sort_json_value (JObject kvs) =
     JObject (map (\<lambda>(k, v). (k, sort_json_value v)) (sort_key fst kvs))"
| "sort_json_value JNull = JNull"
| "sort_json_value (JBool b) = JBool b"
| "sort_json_value (JNumber n) = JNumber n"
| "sort_json_value (JString s) = JString s"
  by pat_completeness auto
termination
proof (relation "measure size", goal_cases)
  case 1
  show ?case by simp
next
  case (2 vs v)
  then show ?case by (induction vs) auto
next
  case (3 kvs p k v)
  then have "(k, v) \<in> set kvs" by simp
  then show ?case using size_json_entry by simp
qed

definition canonical_json_bytes ::
  "('a \<Rightarrow> 'e + 'n json) \<Rightarrow> ('n json \<Rightarrow> 'e + 'b) \<Rightarrow> 'a \<Rightarrow> 'e + 'b" where
  "canonical_json_bytes to_value to_vec x =
     (case to_value x of Inl e \<Rightarrow> Inl e | Inr v \<Rightarrow> to_vec (sort_json_value v))"

text \<open>
  Two values are the same JSON document when they agree up to the order of object entries. Keys of
  an object are distinct.
\<close>

inductive json_same :: "'n json \<Rightarrow> 'n json \<Rightarrow> bool" where
  "json_same JNull JNull"
| "json_same (JBool b) (JBool b)"
| "json_same (JNumber n) (JNumber n)"
| "json_same (JString s) (JString s)"
| "list_all2 json_same vs ws \<Longrightarrow> json_same (JArray vs) (JArray ws)"
| "distinct (map fst kvs) \<Longrightarrow> mset kvs = mset kvs' \<Longrightarrow>
   list_all2 (\<lambda>x y. fst x = fst y \<and> json_same (snd x) (snd y)) kvs' lvs \<Longrightarrow>
   json_same (JObject kvs) (JObject lvs)"
monos list_all2_mono

lemma sort_entries_by_map:
  assumes "distinct (map fst kvs)"
  shows "sort_key fst kvs = map (\<lambda>k. (k, the (map_of kvs k))) (sort (map fst kvs))"
proof (rule sort_key_inj_key_eq)
  have "map (\<lambda>k. (k, the (map_of kvs k))) (map fst kvs) = kvs"
    using assms by (auto intro!: map_idI simp: comp_def split_beta)
  then show "mset kvs = mset (map (\<lambda>k. (k, the (map_of kvs k))) (sort (map fst kvs)))"
    by (metis mset_map mset_sort)
  show "inj_on fst (set kvs)" using assms by (simp add: distinct_map)
  show "sorted (map fst (map (\<lambda>k. (k, the (map_of kvs k))) (sort (map fst kvs))))"
    by (simp add: comp_def)
qed

lemma list_all2_entries_map_of:
  assumes "list_all2 (\<lambda>x y. fst x = fst y \<and> P (snd x) (snd y)) kvs lvs" and "distinct (map fst kvs)"
  shows "map fst kvs = map fst lvs"
    and "k \<in> fst ` set kvs \<Longrightarrow> P (the (map_of kvs k)) (the (map_of lvs k))"
  using assms
  by (induction rule: list_all2_induct) (auto simp: image_iff)

lemma sort_json_object_cong:
  assumes "distinct (map fst kvs)" and "distinct (map fst lvs)"
    and "mset (map fst kvs) = mset (map fst lvs)"
    and "\<And>k. k \<in> fst ` set kvs \<Longrightarrow>
      sort_json_value (the (map_of kvs k)) = sort_json_value (the (map_of lvs k))"
  shows "sort_json_value (JObject kvs) = sort_json_value (JObject lvs)"
proof -
  have keys: "sort (map fst kvs) = sort (map fst lvs)"
    using assms(3) by (metis properties_for_sort mset_sort sorted_sort)
  show ?thesis
    using assms(4)
    by (simp add: sort_entries_by_map assms(1,2) keys [symmetric])
qed

text \<open>C40. Canonical JSON identifies documents that differ only in the order of object entries:
  the byte encoding that the store writes and digests depends on the document alone.\<close>

theorem sort_json_value_canonical:
  "json_same v w \<Longrightarrow> sort_json_value v = sort_json_value w"
proof (induction rule: json_same.induct)
  case (5 vs ws)
  then show ?case by (auto simp: list_all2_conv_all_nth intro: nth_equalityI)
next
  case (6 kvs kvs' lvs)
  let ?P = "\<lambda>v w. json_same v w \<and> sort_json_value v = sort_json_value w"
  have d': "distinct (map fst kvs')"
    using 6(1,2) by (metis distinct_map mset_eq_imp_distinct_iff mset_eq_setD)
  have la: "list_all2 (\<lambda>x y. fst x = fst y \<and> ?P (snd x) (snd y)) kvs' lvs"
    using 6(3) by (simp add: conj_assoc)
  note keys = list_all2_entries_map_of(1) [OF la d']
  have dl: "distinct (map fst lvs)" using d' keys by simp
  have same: "map_of kvs = map_of kvs'"
    using 6(1,2) d' by (metis map_of_eqI map_of_inject_set mset_eq_setD)
  show ?case
  proof (rule sort_json_object_cong)
    show "distinct (map fst kvs)" by (rule 6(1))
    show "distinct (map fst lvs)" by (rule dl)
    show "mset (map fst kvs) = mset (map fst lvs)" using 6(2) keys by (metis mset_map)
    fix k
    assume "k \<in> fst ` set kvs"
    then have "k \<in> fst ` set kvs'" using 6(2) by (metis mset_eq_setD)
    then show "sort_json_value (the (map_of kvs k)) = sort_json_value (the (map_of lvs k))"
      using list_all2_entries_map_of(2) [OF la d'] same by simp
  qed
qed simp_all

theorem sort_json_value_canonical_witness:
  "sort_json_value (JObject [(''b'', JNumber (1::nat)), (''a'', JArray [JNull])])
   = sort_json_value (JObject [(''a'', JArray [JNull]), (''b'', JNumber 1)])"
proof (rule sort_json_value_canonical)
  show "json_same (JObject [(''b'', JNumber (1::nat)), (''a'', JArray [JNull])])
     (JObject [(''a'', JArray [JNull]), (''b'', JNumber 1)])"
    by (rule json_same.intros(6) [where kvs' = "[(''a'', JArray [JNull]), (''b'', JNumber 1)]"])
      (auto intro: json_same.intros)
qed

end
