(* ===== verification/State_Store_Core.thy ===== *)
theory State_Store_Core
  imports Agent_Types
begin

text \<open>
  \<open>crates/state-store-core/src/lib.rs\<close>: collections, versioned records, write preconditions,
  mutations, and the repository traits. A trait is a dictionary of operations over a store state
  (\<open>repository\<close>), as every service is generic in it; the locale \<open>repository_laws\<close> states what
  the services rely on, over a \<^emph>\<open>view\<close> of the state as a finite map from identifiers to records.
  Payloads are \<open>serde_json\<close> values of an arbitrary type \<open>'j\<close>; the typed encodings
  (\<open>serde_json::to_value\<close> and \<open>from_value\<close>) are the parameter \<open>serde\<close> with the
  round trip \<open>serde_ok\<close>.
\<close>

section \<open>Data\<close>

datatype collection =
    WorkerLeases | WorkerGenerations | SessionCatalog | PromptIngress | Profiles | PendingActions
  | Children | ChildMessages | Goals | Plans | Commitments | WaitingConditions | ScheduledJobs
  | JobAttempts | RoutingRules | ResourceGovernance | ChannelAccounts | ChannelOffsets | Deliveries
  | AcpSessions | PluginRegistry | ConnectedApps | ComputerSessions | ControlLeases
  | Demonstrations | TaskRecipes | HarnessRepairs | IntegrationOperations | IntegrationAudit
  | AttentionCandidates | InitiativeHistory | EvolutionTransactions | EvolutionLedger
  | EvolutionLedgerHead | ToolExperience | KernelMetadata | ActiveOperations | SchemaMigrations

fun as_str :: "collection \<Rightarrow> string" where
  "as_str WorkerLeases = ''worker_leases''"
| "as_str WorkerGenerations = ''worker_generations''"
| "as_str SessionCatalog = ''session_catalog''"
| "as_str PromptIngress = ''prompt_ingress''"
| "as_str Profiles = ''profiles''"
| "as_str PendingActions = ''pending_actions''"
| "as_str Children = ''children''"
| "as_str ChildMessages = ''child_messages''"
| "as_str Goals = ''goals''"
| "as_str Plans = ''plans''"
| "as_str Commitments = ''commitments''"
| "as_str WaitingConditions = ''waiting_conditions''"
| "as_str ScheduledJobs = ''scheduled_jobs''"
| "as_str JobAttempts = ''job_attempts''"
| "as_str RoutingRules = ''routing_rules''"
| "as_str ResourceGovernance = ''resource_governance''"
| "as_str ChannelAccounts = ''channel_accounts''"
| "as_str ChannelOffsets = ''channel_offsets''"
| "as_str Deliveries = ''deliveries''"
| "as_str AcpSessions = ''acp_sessions''"
| "as_str PluginRegistry = ''plugin_registry''"
| "as_str ConnectedApps = ''connected_apps''"
| "as_str ComputerSessions = ''computer_sessions''"
| "as_str ControlLeases = ''control_leases''"
| "as_str Demonstrations = ''demonstrations''"
| "as_str TaskRecipes = ''task_recipes''"
| "as_str HarnessRepairs = ''harness_repairs''"
| "as_str IntegrationOperations = ''integration_operations''"
| "as_str IntegrationAudit = ''integration_audit''"
| "as_str AttentionCandidates = ''attention_candidates''"
| "as_str InitiativeHistory = ''initiative_history''"
| "as_str EvolutionTransactions = ''evolution_transactions''"
| "as_str EvolutionLedger = ''evolution_ledger''"
| "as_str EvolutionLedgerHead = ''evolution_ledger_head''"
| "as_str ToolExperience = ''tool_experience''"
| "as_str KernelMetadata = ''kernel_metadata''"
| "as_str ActiveOperations = ''active_operations''"
| "as_str SchemaMigrations = ''schema_migrations''"

definition all_collections :: "collection list" where
  "all_collections =
     [WorkerLeases, WorkerGenerations, SessionCatalog, PromptIngress, Profiles, PendingActions,
      Children, ChildMessages, Goals, Plans, Commitments, WaitingConditions, ScheduledJobs,
      JobAttempts, RoutingRules, ResourceGovernance, ChannelAccounts, ChannelOffsets, Deliveries,
      AcpSessions, PluginRegistry, ConnectedApps, ComputerSessions, ControlLeases,
      Demonstrations, TaskRecipes, HarnessRepairs, IntegrationOperations, IntegrationAudit,
      AttentionCandidates, InitiativeHistory, EvolutionTransactions, EvolutionLedger,
      EvolutionLedgerHead, ToolExperience, KernelMetadata, ActiveOperations, SchemaMigrations]"

lemma set_all_collections: "c \<in> set all_collections"
  by (cases c) (simp_all add: all_collections_def)

lemma distinct_as_str: "distinct (map as_str all_collections)"
  unfolding all_collections_def by code_simp

text \<open>Distinct collections never share a table key.\<close>

lemma as_str_inject [simp]: "as_str c = as_str d \<longleftrightarrow> c = d"
  using distinct_as_str set_all_collections [of c] set_all_collections [of d]
  by (auto simp: distinct_map inj_on_def)

declare as_str.simps [simp del]

record 'j versioned_record =
  vr_version :: schema_version
  vr_id :: entity_id
  vr_revision :: revision
  vr_updated_at :: timestamp
  vr_payload :: 'j

lemma versioned_record_eta:
  "\<lparr>vr_version = vr_version r, vr_id = vr_id r, vr_revision = vr_revision r,
    vr_updated_at = vr_updated_at r, vr_payload = vr_payload r\<rparr> = r"
  by simp

datatype write_precondition = AnyRevision | Missing | Exact revision

datatype 'j record_mutation =
    Put collection "'j versioned_record" write_precondition
  | Delete collection entity_id write_precondition

record commit_receipt =
  applied_mutations :: nat

record evolution_ledger_erasure_report =
  deleted_records :: nat
  deleted_heads :: nat
  remaining_records :: nat
  remaining_heads :: nat

text \<open>\<open>check_precondition\<close>'s test, on the revision currently stored.\<close>

fun precondition_accepts :: "write_precondition \<Rightarrow> revision option \<Rightarrow> bool" where
  "precondition_accepts AnyRevision current = True"
| "precondition_accepts Missing current = (current = None)"
| "precondition_accepts (Exact expected) current = (current = Some expected)"

section \<open>The repository interface\<close>

record ('s, 'j, 'e) repository =
  repo_get :: "'s \<Rightarrow> entity_id \<Rightarrow> 'e + 'j versioned_record option"
  repo_list :: "'s \<Rightarrow> 'e + 'j versioned_record list"
  repo_put :: "'s \<Rightarrow> 'j versioned_record \<Rightarrow> write_precondition \<Rightarrow> ('e + commit_receipt) \<times> 's"
  repo_delete :: "'s \<Rightarrow> entity_id \<Rightarrow> write_precondition \<Rightarrow> ('e + commit_receipt) \<times> 's"
  repo_display :: "'e \<Rightarrow> string"

type_synonym 'j view = "entity_id \<Rightarrow> 'j versioned_record option"

text \<open>What a write does to a view when it takes effect.\<close>

definition put_effect ::
  "'j view \<Rightarrow> 'j versioned_record \<Rightarrow> write_precondition \<Rightarrow> 'j view \<Rightarrow> bool" where
  "put_effect v r p v' \<longleftrightarrow>
     v' = v(vr_id r \<mapsto> r)
     \<and> precondition_accepts p (map_option vr_revision (v (vr_id r)))
     \<and> (\<forall>old. v (vr_id r) = Some old \<longrightarrow> vr_revision old < vr_revision r)"

definition delete_effect ::
  "'j view \<Rightarrow> entity_id \<Rightarrow> write_precondition \<Rightarrow> 'j view \<Rightarrow> bool" where
  "delete_effect v i p v' \<longleftrightarrow>
     v' = v(i := None) \<and> precondition_accepts p (map_option vr_revision (v i))"

text \<open>
  The contract of a repository: reads report the view; a write that is acknowledged took effect;
  a write that failed either had no effect or took effect without being acknowledged
  (\<open>StoreError::UnknownOutcome\<close>).
\<close>

locale repository_laws =
  fixes R :: "('s, 'j, 'e) repository"
    and view :: "'s \<Rightarrow> 'j view"
    and wf :: "'s \<Rightarrow> bool"
  assumes view_key: "wf s \<Longrightarrow> view s i = Some r \<Longrightarrow> vr_id r = i"
    and get_view: "wf s \<Longrightarrow> repo_get R s i = Inr found \<Longrightarrow> found = view s i"
    and list_view: "wf s \<Longrightarrow> repo_list R s = Inr rs \<Longrightarrow>
      distinct (map vr_id rs) \<and> (\<forall>r. r \<in> set rs \<longleftrightarrow> view s (vr_id r) = Some r)"
    and put_wf: "wf s \<Longrightarrow> repo_put R s r p = (res, s') \<Longrightarrow> wf s'"
    and put_ok: "wf s \<Longrightarrow> repo_put R s r p = (Inr c, s') \<Longrightarrow> put_effect (view s) r p (view s')"
    and put_err: "wf s \<Longrightarrow> repo_put R s r p = (Inl e, s') \<Longrightarrow>
      view s' = view s \<or> put_effect (view s) r p (view s')"
    and delete_wf: "wf s \<Longrightarrow> repo_delete R s i p = (res, s') \<Longrightarrow> wf s'"
    and delete_ok: "wf s \<Longrightarrow> repo_delete R s i p = (Inr c, s') \<Longrightarrow>
      delete_effect (view s) i p (view s')"
    and delete_err: "wf s \<Longrightarrow> repo_delete R s i p = (Inl e, s') \<Longrightarrow>
      view s' = view s \<or> delete_effect (view s) i p (view s')"
begin

lemma put_cases:
  assumes "wf s" and "repo_put R s r p = (res, s')"
  obtains (kept) e where "res = Inl e" "view s' = view s" "wf s'"
    | (written) "put_effect (view s) r p (view s')" "wf s'"
  using assms put_ok put_err put_wf by (cases res) blast+

lemma list_mem: "wf s \<Longrightarrow> repo_list R s = Inr rs \<Longrightarrow> r \<in> set rs \<longleftrightarrow> view s (vr_id r) = Some r"
  using list_view by blast

lemma list_complete:
  "wf s \<Longrightarrow> repo_list R s = Inr rs \<Longrightarrow> view s i = Some r \<Longrightarrow> r \<in> set rs"
  using list_mem view_key by blast

end

section \<open>Transactions over several collections\<close>

text \<open>The sequential meaning of a batch of mutations on the views of all collections.\<close>

fun mutation_effect ::
  "'j record_mutation \<Rightarrow> (collection \<Rightarrow> 'j view) \<Rightarrow> (collection \<Rightarrow> 'j view) \<Rightarrow> bool" where
  "mutation_effect (Put c r p) V V' \<longleftrightarrow>
     put_effect (V c) r p (V' c) \<and> (\<forall>d. d \<noteq> c \<longrightarrow> V' d = V d)"
| "mutation_effect (Delete c i p) V V' \<longleftrightarrow>
     delete_effect (V c) i p (V' c) \<and> (\<forall>d. d \<noteq> c \<longrightarrow> V' d = V d)"

fun mutations_effect ::
  "'j record_mutation list \<Rightarrow> (collection \<Rightarrow> 'j view) \<Rightarrow> (collection \<Rightarrow> 'j view) \<Rightarrow> bool" where
  "mutations_effect [] V V' \<longleftrightarrow> V' = V"
| "mutations_effect (m # ms) V V' \<longleftrightarrow>
     (\<exists>W. mutation_effect m V W \<and> mutations_effect ms W V')"

fun mutation_collection :: "'j record_mutation \<Rightarrow> collection" where
  "mutation_collection (Put c r p) = c"
| "mutation_collection (Delete c i p) = c"

lemma mutations_effect_frame:
  "mutations_effect ms V V' \<Longrightarrow> (\<And>m. m \<in> set ms \<Longrightarrow> mutation_collection m \<noteq> c) \<Longrightarrow> V' c = V c"
proof (induction ms arbitrary: V)
  case (Cons m ms)
  then obtain W where W: "mutation_effect m V W" "mutations_effect ms W V'" by auto
  have "W c = V c" using W(1) Cons.prems(2) [of m] by (cases m) auto
  moreover have "V' c = W c" using Cons.IH [OF W(2)] Cons.prems(2) by simp
  ultimately show ?case by simp
qed simp

text \<open>
  \<open>AtomicStateRepository\<close> next to the repositories of the single collections. A transaction that
  fails changes no collection or took effect as a whole without being acknowledged.
\<close>

record ('s, 'j, 'e) state_repository =
  collection_repository :: "collection \<Rightarrow> ('s, 'j, 'e) repository"
  transact :: "'s \<Rightarrow> 'j record_mutation list \<Rightarrow> ('e + commit_receipt) \<times> 's"

locale state_repository_laws =
  fixes S :: "('s, 'j, 'e) state_repository"
    and views :: "'s \<Rightarrow> collection \<Rightarrow> 'j view"
    and wf :: "'s \<Rightarrow> bool"
  assumes collection_laws: "repository_laws (collection_repository S c) (\<lambda>s. views s c) wf"
    and put_frame: "wf s \<Longrightarrow> repo_put (collection_repository S c) s r p = (res, s') \<Longrightarrow> d \<noteq> c \<Longrightarrow>
      views s' d = views s d"
    and transact_effect: "wf s \<Longrightarrow> transact S s ms = (res, s') \<Longrightarrow>
      wf s' \<and> ((\<exists>e. res = Inl e) \<and> views s' = views s \<or> mutations_effect ms (views s) (views s'))"

section \<open>Typed collections\<close>

record ('a, 'j) serde =
  to_value :: "'a \<Rightarrow> string + 'j"
  from_value :: "'j \<Rightarrow> string + 'a"

definition serde_ok :: "('a, 'j) serde \<Rightarrow> bool" where
  "serde_ok C \<longleftrightarrow> (\<forall>x j. to_value C x = Inr j \<longrightarrow> from_value C j = Inr x)"

lemma serde_okD: "serde_ok C \<Longrightarrow> to_value C x = Inr j \<Longrightarrow> from_value C j = Inr x"
  by (simp add: serde_ok_def)

text \<open>The typed records a view holds, as a service's decoder reads them.\<close>

definition typed :: "('j versioned_record \<Rightarrow> 'err + 'x) \<Rightarrow> 'j view \<Rightarrow> entity_id \<Rightarrow> 'x option" where
  "typed dec v i =
     (case v i of None \<Rightarrow> None | Some r \<Rightarrow> (case dec r of Inl _ \<Rightarrow> None | Inr x \<Rightarrow> Some x))"

lemma typed_Some: "typed dec v i = Some x \<longleftrightarrow> (\<exists>r. v i = Some r \<and> dec r = Inr x)"
  by (auto simp: typed_def split: option.splits sum.splits)

lemma typed_put:
  "put_effect v r p v' \<Longrightarrow> dec r = Inr x \<Longrightarrow> typed dec v' = (typed dec v)(vr_id r \<mapsto> x)"
  by (auto simp: put_effect_def typed_def fun_eq_iff)

lemma put_effect_missing: "put_effect v r Missing v' \<Longrightarrow> v (vr_id r) = None"
  by (auto simp: put_effect_def)

lemma put_effect_exact:
  "put_effect v r (Exact n) v' \<Longrightarrow> \<exists>old. v (vr_id r) = Some old \<and> vr_revision old = n \<and> n < vr_revision r"
  by (auto simp: put_effect_def)

lemma typed_missing: "v i = None \<Longrightarrow> typed dec v i = None"
  by (simp add: typed_def)

end
