(* ===== verification/State_Store.thy ===== *)
theory State_Store
  imports State_Store_Core "HOL-Library.AList"
begin

text \<open>
  \<open>crates/state-store/src/lib.rs\<close>: the embedded SQLite store. The table \<open>records\<close> with
  primary key \<open>(collection, id)\<close> is an association list from key texts to raw rows; each SQL
  statement of the source is the corresponding list operation. SQLite itself is outside the
  repository: whether a statement fails, and with which message, is the parameter \<open>es_sql\<close>,
  consulted per transaction (\<open>es_epoch\<close>) and statement, so every theorem holds for every
  pattern of failures. Dropping an uncommitted transaction leaves the table as it was.

  JSON bytes, ULID text and the rendering of errors are the parameters of \<open>store_env\<close>;
  \<open>env_ok\<close> states the round trips they are relied on for.
\<close>

section \<open>State\<close>

datatype fault_point = BeforeTransaction | BeforeCommit | AfterCommit

datatype store_error =
    Sqlite string
  | Backup string
  | BackupRequired u32
  | UnsupportedSchema u32
  | StoreLockPoisoned
  | Conflict collection entity_id
  | CorruptRecord collection string string
  | NumericRange
  | Injected fault_point
  | UnknownOutcome
  | AppendOnlyViolation collection
  | EvolutionLedgerErasureIncomplete nat nat

fun is_conflict :: "store_error \<Rightarrow> bool" where
  "is_conflict (Conflict _ _) = True"
| "is_conflict _ = False"

datatype sql_call =
    SqlBegin | SqlCommit | SqlSelectRow | SqlSelectAll
  | SqlSelectRevision nat | SqlWrite nat | SqlDeleteAll nat | SqlCount nat
  | SqlUserVersion | SqlMaster | SqlCheckpoint | SqlCreate | SqlSetVersion

record 'b raw_record =
  raw_id :: string
  raw_schema_major :: int
  raw_schema_minor :: int
  raw_revision :: int
  raw_updated_at :: int
  raw_payload :: 'b

type_synonym table_key = "string \<times> string"
type_synonym 'b table = "(table_key \<times> 'b raw_record) list"

record 'b embedded_store =
  es_user_version :: u32
  es_has_tables :: bool
  es_records :: "'b table"
  es_fault_once :: "fault_point option"
  es_poisoned :: bool
  es_sql :: "nat \<Rightarrow> sql_call \<Rightarrow> string option"
  es_epoch :: nat

record ('j, 'b) store_env =
  env_ulid :: ulid_codec
  env_json_bytes :: "'j \<Rightarrow> string + 'b"
  env_json_parse :: "'b \<Rightarrow> string + 'j"
  env_display :: "store_error \<Rightarrow> string"

definition env_ok :: "('j, 'b) store_env \<Rightarrow> bool" where
  "env_ok E \<longleftrightarrow> ulid_ok (env_ulid E)
     \<and> (\<forall>j b. env_json_bytes E j = Inr b \<longrightarrow> env_json_parse E b = Inr j)"

definition STORE_SCHEMA_VERSION :: u32 where "STORE_SCHEMA_VERSION = 1"

abbreviation id_text :: "('j, 'b) store_env \<Rightarrow> entity_id \<Rightarrow> string" where
  "id_text E i \<equiv> entity_id_as_str (env_ulid E) i"

definition table_key :: "('j, 'b) store_env \<Rightarrow> collection \<Rightarrow> entity_id \<Rightarrow> table_key" where
  "table_key E c i = (as_str c, id_text E i)"

definition sql_error :: "'b embedded_store \<Rightarrow> sql_call \<Rightarrow> string option" where
  "sql_error s call = es_sql s (es_epoch s) call"

definition next_epoch :: "'b embedded_store \<Rightarrow> 'b embedded_store" where
  "next_epoch s = s\<lparr>es_epoch := Suc (es_epoch s)\<rparr>"

section \<open>Faults\<close>

definition inject_fault_once :: "fault_point \<Rightarrow> 'b embedded_store \<Rightarrow> 'b embedded_store" where
  "inject_fault_once p s = s\<lparr>es_fault_once := Some p\<rparr>"

text \<open>\<open>compare_exchange\<close>: the fault is taken, and cleared, exactly when it is the one asked for.\<close>

definition take_fault :: "fault_point \<Rightarrow> 'b embedded_store \<Rightarrow> bool \<times> 'b embedded_store" where
  "take_fault p s =
     (if es_fault_once s = Some p then (True, s\<lparr>es_fault_once := None\<rparr>) else (False, s))"

section \<open>Rows\<close>

definition corrupt :: "collection \<Rightarrow> string \<Rightarrow> string \<Rightarrow> store_error" where
  "corrupt c i reason = CorruptRecord c i reason"

definition validate_record ::
  "('j, 'b) store_env \<Rightarrow> collection \<Rightarrow> 'j versioned_record \<Rightarrow> store_error + unit" where
  "validate_record E c r =
     (if major (vr_version r) \<noteq> major CURRENT_SCHEMA_VERSION
         \<or> minor (vr_version r) > minor CURRENT_SCHEMA_VERSION
      then Inl (corrupt c (id_text E (vr_id r))
             (''unsupported record schema '' @ version_display (vr_version r)))
      else Inr ())"

definition current_revision ::
  "('j, 'b) store_env \<Rightarrow> 'b embedded_store \<Rightarrow> nat \<Rightarrow> 'b table \<Rightarrow> collection \<Rightarrow> entity_id \<Rightarrow>
   store_error + revision option" where
  "current_revision E s k t c i =
     (case sql_error s (SqlSelectRevision k) of
        Some e \<Rightarrow> Inl (Sqlite e)
      | None \<Rightarrow>
          (case map_of t (table_key E c i) of
             None \<Rightarrow> Inr None
           | Some raw \<Rightarrow>
               if raw_revision raw < 0
               then Inl (corrupt c (id_text E i) ''negative revision'')
               else Inr (Some (word_of_int (raw_revision raw)))))"

definition check_precondition ::
  "collection \<Rightarrow> entity_id \<Rightarrow> revision option \<Rightarrow> write_precondition \<Rightarrow> store_error + unit" where
  "check_precondition c i current p =
     (if precondition_accepts p current then Inr () else Inl (Conflict c i))"

definition decode_record ::
  "('j, 'b) store_env \<Rightarrow> collection \<Rightarrow> 'b raw_record \<Rightarrow> store_error + 'j versioned_record" where
  "decode_record E c raw =
     (case entity_id_parse (env_ulid E) (raw_id raw) of
        Inl _ \<Rightarrow> Inl (corrupt c (raw_id raw) ''entity ID must be a canonical 26-character ULID'')
      | Inr i \<Rightarrow>
          if raw_schema_major raw < 0 \<or> 2 ^ 16 \<le> raw_schema_major raw
          then Inl (corrupt c (raw_id raw) ''invalid schema major'')
          else if raw_schema_minor raw < 0 \<or> 2 ^ 16 \<le> raw_schema_minor raw
          then Inl (corrupt c (raw_id raw) ''invalid schema minor'')
          else if raw_revision raw < 0
          then Inl (corrupt c (raw_id raw) ''invalid revision'')
          else (case env_json_parse E (raw_payload raw) of
              Inl e \<Rightarrow> Inl (corrupt c (raw_id raw) e)
            | Inr payload \<Rightarrow>
                (let r = \<lparr>vr_version = \<lparr>major = word_of_int (raw_schema_major raw),
                                        minor = word_of_int (raw_schema_minor raw)\<rparr>,
                          vr_id = i,
                          vr_revision = word_of_int (raw_revision raw),
                          vr_updated_at = raw_updated_at raw,
                          vr_payload = payload\<rparr>
                 in (case validate_record E c r of Inl e \<Rightarrow> Inl e | Inr _ \<Rightarrow> Inr r))))"

text \<open>The row that \<open>INSERT ... ON CONFLICT DO UPDATE\<close> stores.\<close>

definition encode_row :: "('j, 'b) store_env \<Rightarrow> 'j versioned_record \<Rightarrow> 'b \<Rightarrow> 'b raw_record" where
  "encode_row E r bytes =
     \<lparr>raw_id = id_text E (vr_id r),
      raw_schema_major = uint (major (vr_version r)),
      raw_schema_minor = uint (minor (vr_version r)),
      raw_revision = uint (vr_revision r),
      raw_updated_at = vr_updated_at r,
      raw_payload = bytes\<rparr>"

section \<open>Reads\<close>

definition read_record ::
  "('j, 'b) store_env \<Rightarrow> 'b embedded_store \<Rightarrow> collection \<Rightarrow> entity_id \<Rightarrow>
   store_error + 'j versioned_record option" where
  "read_record E s c i =
     (case sql_error s SqlSelectRow of
        Some e \<Rightarrow> Inl (Sqlite e)
      | None \<Rightarrow>
          (case map_of (es_records s) (table_key E c i) of
             None \<Rightarrow> Inr None
           | Some raw \<Rightarrow>
               (case decode_record E c raw of Inl e \<Rightarrow> Inl e | Inr r \<Rightarrow> Inr (Some r))))"

definition get_record ::
  "('j, 'b) store_env \<Rightarrow> 'b embedded_store \<Rightarrow> collection \<Rightarrow> entity_id \<Rightarrow>
   store_error + 'j versioned_record option" where
  "get_record E s c i = (if es_poisoned s then Inl StoreLockPoisoned else read_record E s c i)"

definition list_records ::
  "('j, 'b) store_env \<Rightarrow> 'b embedded_store \<Rightarrow> collection \<Rightarrow>
   store_error + 'j versioned_record list" where
  "list_records E s c =
     (if es_poisoned s then Inl StoreLockPoisoned
      else case sql_error s SqlSelectAll of
          Some e \<Rightarrow> Inl (Sqlite e)
        | None \<Rightarrow>
            collect_results
              (map (\<lambda>row. decode_record E c (snd row))
                (sort_key (\<lambda>row. snd (fst row))
                  (filter (\<lambda>row. fst (fst row) = as_str c) (es_records s)))))"

section \<open>Transactions\<close>

text \<open>The first \<open>match\<close> of \<open>apply_mutation_inner\<close>: the ledger collections are append-only.\<close>

definition append_only_violation :: "'j record_mutation \<Rightarrow> bool \<Rightarrow> bool" where
  "append_only_violation m evolution_append =
     (case m of
        Put c r p \<Rightarrow>
          if evolution_append \<and> c = EvolutionLedger \<and> p = Missing then False
          else if evolution_append \<and> c = EvolutionLedgerHead \<and> p \<noteq> AnyRevision then False
          else c = EvolutionLedger \<or> c = EvolutionLedgerHead
      | Delete c i p \<Rightarrow> c = EvolutionLedger \<or> c = EvolutionLedgerHead)"

definition apply_put ::
  "('j, 'b) store_env \<Rightarrow> 'b embedded_store \<Rightarrow> nat \<Rightarrow> 'b table \<Rightarrow> collection \<Rightarrow>
   'j versioned_record \<Rightarrow> write_precondition \<Rightarrow> store_error + 'b table" where
  "apply_put E s k t c r p =
     (case validate_record E c r of Inl e \<Rightarrow> Inl e | Inr _ \<Rightarrow>
      (case current_revision E s k t c (vr_id r) of Inl e \<Rightarrow> Inl e | Inr current \<Rightarrow>
      (case check_precondition c (vr_id r) current p of Inl e \<Rightarrow> Inl e | Inr _ \<Rightarrow>
       if (case current of None \<Rightarrow> False | Some n \<Rightarrow> vr_revision r \<le> n)
       then Inl (Conflict c (vr_id r))
       else if 2 ^ 63 \<le> unat (vr_revision r) then Inl NumericRange
       else (case env_json_bytes E (vr_payload r) of
           Inl e \<Rightarrow> Inl (corrupt c (id_text E (vr_id r)) e)
         | Inr payload \<Rightarrow>
             (case sql_error s (SqlWrite k) of
                Some e \<Rightarrow> Inl (Sqlite e)
              | None \<Rightarrow> Inr (AList.update (table_key E c (vr_id r)) (encode_row E r payload) t))))))"

definition apply_delete ::
  "('j, 'b) store_env \<Rightarrow> 'b embedded_store \<Rightarrow> nat \<Rightarrow> 'b table \<Rightarrow> collection \<Rightarrow>
   entity_id \<Rightarrow> write_precondition \<Rightarrow> store_error + 'b table" where
  "apply_delete E s k t c i p =
     (case current_revision E s k t c i of Inl e \<Rightarrow> Inl e | Inr current \<Rightarrow>
      (case check_precondition c i current p of Inl e \<Rightarrow> Inl e | Inr _ \<Rightarrow>
       (case sql_error s (SqlWrite k) of
          Some e \<Rightarrow> Inl (Sqlite e)
        | None \<Rightarrow> Inr (AList.delete (table_key E c i) t))))"

definition apply_mutation_inner ::
  "('j, 'b) store_env \<Rightarrow> 'b embedded_store \<Rightarrow> nat \<Rightarrow> bool \<Rightarrow> 'b table \<Rightarrow> 'j record_mutation \<Rightarrow>
   store_error + 'b table" where
  "apply_mutation_inner E s k evolution_append t m =
     (if append_only_violation m evolution_append then Inl (AppendOnlyViolation EvolutionLedger)
      else case m of
          Put c r p \<Rightarrow> apply_put E s k t c r p
        | Delete c i p \<Rightarrow> apply_delete E s k t c i p)"

fun apply_mutations ::
  "('j, 'b) store_env \<Rightarrow> 'b embedded_store \<Rightarrow> nat \<Rightarrow> bool \<Rightarrow> 'b table \<Rightarrow> 'j record_mutation list \<Rightarrow>
   store_error + 'b table" where
  "apply_mutations E s k evolution_append t [] = Inr t"
| "apply_mutations E s k evolution_append t (m # ms) =
     (case apply_mutation_inner E s k evolution_append t m of
        Inl e \<Rightarrow> Inl e
      | Inr t' \<Rightarrow> apply_mutations E s (Suc k) evolution_append t' ms)"

text \<open>
  The frame that every write transaction shares: the injected faults, the lock, \<open>BEGIN
  IMMEDIATE\<close>, the body on the table, and the commit. An error before the commit drops the
  transaction.
\<close>

definition run_transaction ::
  "('b embedded_store \<Rightarrow> 'b table \<Rightarrow> store_error + 'b table \<times> 'a) \<Rightarrow> 'b embedded_store \<Rightarrow>
   (store_error + 'a) \<times> 'b embedded_store" where
  "run_transaction body s =
     (case take_fault BeforeTransaction s of
        (True, s1) \<Rightarrow> (Inl (Injected BeforeTransaction), s1)
      | (False, s1) \<Rightarrow>
          if es_poisoned s1 then (Inl StoreLockPoisoned, s1)
          else (case sql_error s1 SqlBegin of
              Some e \<Rightarrow> (Inl (Sqlite e), next_epoch s1)
            | None \<Rightarrow>
                (case body s1 (es_records s1) of
                   Inl e \<Rightarrow> (Inl e, next_epoch s1)
                 | Inr (t', result) \<Rightarrow>
                     (case take_fault BeforeCommit s1 of
                        (True, s2) \<Rightarrow> (Inl (Injected BeforeCommit), next_epoch s2)
                      | (False, s2) \<Rightarrow>
                          (case sql_error s2 SqlCommit of
                             Some e \<Rightarrow> (Inl (Sqlite e), next_epoch s2)
                           | None \<Rightarrow>
                               (case take_fault AfterCommit (s2\<lparr>es_records := t'\<rparr>) of
                                  (True, s3) \<Rightarrow> (Inl UnknownOutcome, next_epoch s3)
                                | (False, s3) \<Rightarrow> (Inr result, next_epoch s3)))))))"

definition transact_records ::
  "('j, 'b) store_env \<Rightarrow> 'b embedded_store \<Rightarrow> 'j record_mutation list \<Rightarrow>
   (store_error + commit_receipt) \<times> 'b embedded_store" where
  "transact_records E s ms =
     run_transaction
       (\<lambda>s1 t. case apply_mutations E s1 0 False t ms of
           Inl e \<Rightarrow> Inl e
         | Inr t' \<Rightarrow> Inr (t', \<lparr>applied_mutations = length ms\<rparr>)) s"

definition put_record ::
  "('j, 'b) store_env \<Rightarrow> 'b embedded_store \<Rightarrow> collection \<Rightarrow> 'j versioned_record \<Rightarrow>
   write_precondition \<Rightarrow> (store_error + commit_receipt) \<times> 'b embedded_store" where
  "put_record E s c r p = transact_records E s [Put c r p]"

definition delete_record ::
  "('j, 'b) store_env \<Rightarrow> 'b embedded_store \<Rightarrow> collection \<Rightarrow> entity_id \<Rightarrow>
   write_precondition \<Rightarrow> (store_error + commit_receipt) \<times> 'b embedded_store" where
  "delete_record E s c i p = transact_records E s [Delete c i p]"

section \<open>The evolution ledger\<close>

definition transact_evolution_append ::
  "('j, 'b) store_env \<Rightarrow> 'b embedded_store \<Rightarrow> 'j versioned_record \<Rightarrow> 'j versioned_record \<Rightarrow>
   write_precondition \<Rightarrow> (store_error + commit_receipt) \<times> 'b embedded_store" where
  "transact_evolution_append E s r head head_precondition =
     (if vr_id head \<noteq> entity_id_from_u128 0
      then (Inl (AppendOnlyViolation EvolutionLedgerHead), s)
      else run_transaction
        (\<lambda>s1 t. case apply_mutations E s1 0 True t
                   [Put EvolutionLedger r Missing,
                    Put EvolutionLedgerHead head head_precondition] of
            Inl e \<Rightarrow> Inl e
          | Inr t' \<Rightarrow> Inr (t', \<lparr>applied_mutations = 2\<rparr>)) s)"

definition collection_rows :: "collection \<Rightarrow> 'b table \<Rightarrow> 'b table" where
  "collection_rows c t = filter (\<lambda>row. fst (fst row) = as_str c) t"

definition delete_collection :: "collection \<Rightarrow> 'b table \<Rightarrow> 'b table" where
  "delete_collection c t = filter (\<lambda>row. fst (fst row) \<noteq> as_str c) t"

definition collection_record_count ::
  "'b embedded_store \<Rightarrow> nat \<Rightarrow> 'b table \<Rightarrow> collection \<Rightarrow> store_error + nat" where
  "collection_record_count s k t c =
     (case sql_error s (SqlCount k) of
        Some e \<Rightarrow> Inl (Sqlite e)
      | None \<Rightarrow> Inr (length (collection_rows c t)))"

definition erase_ledger_body ::
  "'b embedded_store \<Rightarrow> 'b table \<Rightarrow> store_error + 'b table \<times> evolution_ledger_erasure_report" where
  "erase_ledger_body s t =
     (case sql_error s (SqlDeleteAll 0) of Some e \<Rightarrow> Inl (Sqlite e) | None \<Rightarrow>
      (let t1 = delete_collection EvolutionLedger t in
       (case sql_error s (SqlDeleteAll 1) of Some e \<Rightarrow> Inl (Sqlite e) | None \<Rightarrow>
        (let t2 = delete_collection EvolutionLedgerHead t1 in
         (case collection_record_count s 0 t2 EvolutionLedger of Inl e \<Rightarrow> Inl e | Inr left_records \<Rightarrow>
          (case collection_record_count s 1 t2 EvolutionLedgerHead of Inl e \<Rightarrow> Inl e | Inr left_heads \<Rightarrow>
           if left_records \<noteq> 0 \<or> left_heads \<noteq> 0
           then Inl (EvolutionLedgerErasureIncomplete left_records left_heads)
           else Inr (t2, \<lparr>deleted_records = length (collection_rows EvolutionLedger t),
                          deleted_heads = length (collection_rows EvolutionLedgerHead t1),
                          remaining_records = left_records,
                          remaining_heads = left_heads\<rparr>)))))))"

definition transact_evolution_ledger_erasure ::
  "'b embedded_store \<Rightarrow> (store_error + evolution_ledger_erasure_report) \<times> 'b embedded_store" where
  "transact_evolution_ledger_erasure s = run_transaction erase_ledger_body s"

section \<open>Opening and migration\<close>

definition user_version :: "'b embedded_store \<Rightarrow> store_error + u32" where
  "user_version s =
     (case sql_error s SqlUserVersion of Some e \<Rightarrow> Inl (Sqlite e) | None \<Rightarrow> Inr (es_user_version s))"

text \<open>
  The backup hook is called with the two versions and returns an I/O error or none; a path is
  there for a database on disk. The \<open>CREATE ... IF NOT EXISTS\<close> batch leaves existing rows alone.
\<close>

definition migrate_tables :: "'b embedded_store \<Rightarrow> (store_error + unit) \<times> 'b embedded_store" where
  "migrate_tables s =
     (case sql_error s SqlBegin of Some e \<Rightarrow> (Inl (Sqlite e), next_epoch s) | None \<Rightarrow>
      (case sql_error s SqlCreate of Some e \<Rightarrow> (Inl (Sqlite e), next_epoch s) | None \<Rightarrow>
       (case sql_error s SqlSetVersion of Some e \<Rightarrow> (Inl (Sqlite e), next_epoch s) | None \<Rightarrow>
        (case sql_error s SqlCommit of Some e \<Rightarrow> (Inl (Sqlite e), next_epoch s) | None \<Rightarrow>
         (Inr (), next_epoch
            (s\<lparr>es_has_tables := True, es_user_version := STORE_SCHEMA_VERSION\<rparr>))))))"

definition migrate ::
  "'b embedded_store \<Rightarrow> string option \<Rightarrow> (u32 \<Rightarrow> u32 \<Rightarrow> string option) option \<Rightarrow>
   (store_error + unit) \<times> 'b embedded_store" where
  "migrate s path backup_hook =
     (case user_version s of Inl e \<Rightarrow> (Inl e, s) | Inr from_version \<Rightarrow>
      if from_version > STORE_SCHEMA_VERSION then (Inl (UnsupportedSchema from_version), s)
      else if from_version = STORE_SCHEMA_VERSION then (Inr (), s)
      else (case sql_error s SqlMaster of Some e \<Rightarrow> (Inl (Sqlite e), s) | None \<Rightarrow>
        if es_has_tables s
        then (case path of None \<Rightarrow> (Inl (BackupRequired from_version), s) | Some source \<Rightarrow>
              (case backup_hook of None \<Rightarrow> (Inl (BackupRequired from_version), s) | Some hook \<Rightarrow>
               (case sql_error s SqlCheckpoint of Some e \<Rightarrow> (Inl (Sqlite e), s) | None \<Rightarrow>
                (case hook from_version STORE_SCHEMA_VERSION of
                   Some e \<Rightarrow> (Inl (Backup e), s)
                 | None \<Rightarrow> migrate_tables s))))
        else migrate_tables s))"

section \<open>The repository that a service sees\<close>

definition embedded_repository ::
  "('j, 'b) store_env \<Rightarrow> collection \<Rightarrow> ('b embedded_store, 'j, store_error) repository" where
  "embedded_repository E c =
     \<lparr>repo_get = (\<lambda>s i. get_record E s c i),
      repo_list = (\<lambda>s. list_records E s c),
      repo_put = (\<lambda>s r p. put_record E s c r p),
      repo_delete = (\<lambda>s i p. delete_record E s c i p),
      repo_display = env_display E\<rparr>"

section \<open>Views and well-formedness\<close>

definition table_view :: "('j, 'b) store_env \<Rightarrow> 'b table \<Rightarrow> collection \<Rightarrow> 'j view" where
  "table_view E t c i =
     (case map_of t (table_key E c i) of
        None \<Rightarrow> None
      | Some raw \<Rightarrow> (case decode_record E c raw of Inl _ \<Rightarrow> None | Inr r \<Rightarrow> Some r))"

text \<open>Every row was written for a collection and an identifier, and decodes.\<close>

definition row_ok :: "('j, 'b) store_env \<Rightarrow> table_key \<Rightarrow> 'b raw_record \<Rightarrow> bool" where
  "row_ok E k raw \<longleftrightarrow>
     (\<exists>c r. decode_record E c raw = Inr r \<and> k = table_key E c (vr_id r))"

definition table_ok :: "('j, 'b) store_env \<Rightarrow> 'b table \<Rightarrow> bool" where
  "table_ok E t \<longleftrightarrow> distinct (map fst t) \<and> (\<forall>(k, raw) \<in> set t. row_ok E k raw)"

definition embedded_wf :: "('j, 'b) store_env \<Rightarrow> 'b embedded_store \<Rightarrow> bool" where
  "embedded_wf E s \<longleftrightarrow> env_ok E \<and> table_ok E (es_records s)"

definition embedded_view ::
  "('j, 'b) store_env \<Rightarrow> collection \<Rightarrow> 'b embedded_store \<Rightarrow> 'j view" where
  "embedded_view E c s = table_view E (es_records s) c"

lemma table_key_inject:
  "env_ok E \<Longrightarrow> table_key E c i = table_key E d j \<longleftrightarrow> c = d \<and> i = j"
  by (simp add: table_key_def env_ok_def entity_id_as_str_inject)

lemma decode_record_id: "decode_record E c raw = Inr r \<Longrightarrow> raw_id raw = id_text E (vr_id r)"
  by (auto simp: decode_record_def Let_def entity_id_parse_Inr split: sum.splits if_splits)

lemma decode_record_revision:
  "decode_record E c raw = Inr r \<Longrightarrow>
    0 \<le> raw_revision raw \<and> vr_revision r = word_of_int (raw_revision raw)"
  by (auto simp: decode_record_def Let_def split: sum.splits if_splits)

lemma decode_encode_row:
  assumes "env_ok E" and "validate_record E c r = Inr ()"
    and "unat (vr_revision r) < 2 ^ 63" and "env_json_bytes E (vr_payload r) = Inr b"
  shows "decode_record E c (encode_row E r b) = Inr r"
proof -
  have parse: "entity_id_parse (env_ulid E) (id_text E (vr_id r)) = Inr (vr_id r)"
    using assms(1) by (simp add: env_ok_def entity_id_parse_as_str)
  have json: "env_json_parse E b = Inr (vr_payload r)"
    using assms(1,4) by (simp add: env_ok_def)
  have bounds: "uint (major (vr_version r)) < 2 ^ 16" "uint (minor (vr_version r)) < 2 ^ 16"
    using unsigned_less [of "major (vr_version r)"] unsigned_less [of "minor (vr_version r)"]
    by simp_all
  show ?thesis
    using parse json bounds assms(2)
    by (simp add: decode_record_def encode_row_def Let_def not_less [symmetric] version_pair_eta
        versioned_record_eta)
qed

lemma table_ok_map_of:
  "table_ok E t \<Longrightarrow> map_of t k = Some raw \<Longrightarrow> row_ok E k raw"
  by (auto simp: table_ok_def dest: map_of_SomeD)

lemma table_ok_decode:
  assumes "env_ok E" and "table_ok E t" and "map_of t (table_key E c i) = Some raw"
  shows "\<exists>r. decode_record E c raw = Inr r \<and> vr_id r = i"
  using table_ok_map_of [OF assms(2,3)] by (auto simp: row_ok_def table_key_inject [OF assms(1)])

lemma table_view_None:
  "env_ok E \<Longrightarrow> table_ok E t \<Longrightarrow> table_view E t c i = None \<longleftrightarrow> map_of t (table_key E c i) = None"
  using table_ok_decode by (fastforce simp: table_view_def split: option.splits sum.splits)

lemma table_view_Some:
  "table_view E t c i = Some r \<longleftrightarrow>
    (\<exists>raw. map_of t (table_key E c i) = Some raw \<and> decode_record E c raw = Inr r)"
  by (auto simp: table_view_def split: option.splits sum.splits)

lemma table_view_key:
  "env_ok E \<Longrightarrow> table_ok E t \<Longrightarrow> table_view E t c i = Some r \<Longrightarrow> vr_id r = i"
  using table_ok_decode by (fastforce simp: table_view_Some)

lemma current_revision_view:
  assumes "env_ok E" and "table_ok E t" and "current_revision E s k t c i = Inr n"
  shows "n = map_option vr_revision (table_view E t c i)"
proof (cases "map_of t (table_key E c i)")
  case None
  with assms(3) show ?thesis
    by (simp add: current_revision_def table_view_def split: option.splits)
next
  case (Some raw)
  then obtain r where "decode_record E c raw = Inr r"
    using table_ok_decode [OF assms(1,2)] by blast
  with Some assms(3) show ?thesis
    by (auto simp: current_revision_def table_view_def decode_record_revision
        split: option.splits if_splits)
qed

lemma table_view_update:
  assumes "env_ok E" and "decode_record E c raw = Inr r"
  shows "table_view E (AList.update (table_key E c (vr_id r)) raw t) =
    (table_view E t)(c := (table_view E t c)(vr_id r \<mapsto> r))"
  using assms(2)
  by (auto simp: table_view_def update_conv' fun_eq_iff table_key_inject [OF assms(1)])

lemma table_view_delete:
  assumes "env_ok E"
  shows "table_view E (AList.delete (table_key E c i) t) =
    (table_view E t)(c := (table_view E t c)(i := None))"
  by (auto simp: table_view_def delete_conv' fun_eq_iff table_key_inject [OF assms])

lemma table_ok_update:
  assumes "table_ok E t" and "row_ok E k raw"
  shows "table_ok E (AList.update k raw t)"
proof -
  have d: "distinct (map fst (AList.update k raw t))"
    using assms(1) by (simp add: table_ok_def distinct_update)
  have "row_ok E k' raw'" if "(k', raw') \<in> set (AList.update k raw t)" for k' raw'
  proof -
    have "map_of (AList.update k raw t) k' = Some raw'"
      using d that by simp
    then have "(if k' = k then Some raw else map_of t k') = Some raw'"
      by (simp add: update_conv' fun_upd_apply)
    then show ?thesis
      using assms table_ok_map_of [OF assms(1)] by (auto split: if_splits)
  qed
  with d show ?thesis by (auto simp: table_ok_def)
qed

lemma table_ok_delete: "table_ok E t \<Longrightarrow> table_ok E (AList.delete k t)"
  by (auto simp: table_ok_def AList.delete_eq distinct_map_filter)

section \<open>Transactions against their specification\<close>

lemma check_precondition_Inr [simp]:
  "check_precondition c i n p = Inr u \<longleftrightarrow> precondition_accepts p n"
  by (simp add: check_precondition_def)

lemma apply_put_effect:
  assumes ok: "env_ok E" "table_ok E t" and res: "apply_put E s k t c r p = Inr t'"
  shows "table_ok E t'" and "mutation_effect (Put c r p) (table_view E t) (table_view E t')"
proof -
  from res obtain n b where v: "validate_record E c r = Inr ()"
    and n: "current_revision E s k t c (vr_id r) = Inr n" "precondition_accepts p n"
      "case n of None \<Rightarrow> True | Some m \<Rightarrow> m < vr_revision r"
    and b: "unat (vr_revision r) < 2 ^ 63" "env_json_bytes E (vr_payload r) = Inr b"
    and t': "t' = AList.update (table_key E c (vr_id r)) (encode_row E r b) t"
    by (auto simp: apply_put_def split: sum.splits option.splits if_splits)
  have dec: "decode_record E c (encode_row E r b) = Inr r"
    by (rule decode_encode_row) (use ok v b in simp_all)
  show "table_ok E t'"
    unfolding t' using ok(2) dec by (intro table_ok_update) (auto simp: row_ok_def)
  note rev = current_revision_view [OF ok n(1)]
  have "table_view E t' = (table_view E t)(c := (table_view E t c)(vr_id r \<mapsto> r))"
    unfolding t' by (rule table_view_update [OF ok(1) dec])
  then show "mutation_effect (Put c r p) (table_view E t) (table_view E t')"
    using n(2,3) rev by (auto simp: put_effect_def)
qed

lemma apply_delete_effect:
  assumes ok: "env_ok E" "table_ok E t" and res: "apply_delete E s k t c i p = Inr t'"
  shows "table_ok E t'" and "mutation_effect (Delete c i p) (table_view E t) (table_view E t')"
proof -
  from res obtain n where n: "current_revision E s k t c i = Inr n" "precondition_accepts p n"
    and t': "t' = AList.delete (table_key E c i) t"
    by (auto simp: apply_delete_def split: sum.splits option.splits)
  show "table_ok E t'" unfolding t' using ok(2) by (rule table_ok_delete)
  show "mutation_effect (Delete c i p) (table_view E t) (table_view E t')"
    unfolding t' using n(2) current_revision_view [OF ok n(1)]
    by (auto simp: table_view_delete [OF ok(1)] delete_effect_def)
qed

lemma apply_mutation_inner_effect:
  assumes "env_ok E" and "table_ok E t" and "apply_mutation_inner E s k evo t m = Inr t'"
  shows "table_ok E t' \<and> mutation_effect m (table_view E t) (table_view E t')"
  using assms apply_put_effect apply_delete_effect
  by (cases m) (auto simp: apply_mutation_inner_def simp del: mutation_effect.simps split: if_splits)

lemma apply_mutations_effect:
  assumes "env_ok E" and "table_ok E t" and "apply_mutations E s k evo t ms = Inr t'"
  shows "table_ok E t' \<and> mutations_effect ms (table_view E t) (table_view E t')"
  using assms
proof (induction ms arbitrary: k t)
  case (Cons m ms)
  from Cons.prems(3) obtain t1 where t1: "apply_mutation_inner E s k evo t m = Inr t1"
    and rest: "apply_mutations E s (Suc k) evo t1 ms = Inr t'"
    by (auto split: sum.splits)
  note step = apply_mutation_inner_effect [OF Cons.prems(1,2) t1]
  show ?case using Cons.IH [OF Cons.prems(1) _ rest] step by auto
qed simp

lemma run_transaction_cases:
  assumes "run_transaction body s = (res, s')"
  obtains (aborted) e where "res = Inl e" "es_records s' = es_records s"
    | (committed) t' x where "body s (es_records s) = Inr (t', x)" "es_records s' = t'"
      "res = Inr x \<or> res = Inl UnknownOutcome"
  using assms
  by (auto simp: run_transaction_def take_fault_def next_epoch_def split: result_splits)

lemma run_transaction_committed:
  assumes "run_transaction body s = (Inr x, s')"
  shows "body s (es_records s) = Inr (es_records s', x)"
  using assms by (rule run_transaction_cases) auto

lemma transact_records_effect:
  assumes "embedded_wf E s" and "transact_records E s ms = (res, s')"
  shows "embedded_wf E s' \<and> ((\<exists>e. res = Inl e \<and> es_records s' = es_records s)
      \<or> (mutations_effect ms (\<lambda>c. embedded_view E c s) (\<lambda>c. embedded_view E c s')
         \<and> (res = Inr \<lparr>applied_mutations = length ms\<rparr> \<or> res = Inl UnknownOutcome)))"
proof -
  have ok: "env_ok E" "table_ok E (es_records s)" using assms(1) by (simp_all add: embedded_wf_def)
  from assms(2) show ?thesis unfolding transact_records_def
  proof (cases rule: run_transaction_cases)
    case (aborted e)
    with ok show ?thesis by (simp add: embedded_wf_def)
  next
    case (committed t' x)
    then have "apply_mutations E s 0 False (es_records s) ms = Inr t'"
      and "x = \<lparr>applied_mutations = length ms\<rparr>"
      by (auto split: sum.splits)
    with apply_mutations_effect [OF ok] committed ok(1) show ?thesis
      by (auto simp: embedded_wf_def embedded_view_def)
  qed
qed

lemma put_record_effect:
  assumes "embedded_wf E s" and "put_record E s c r p = (res, s')"
  shows "embedded_wf E s'"
    and "(\<exists>e. res = Inl e \<and> es_records s' = es_records s)
      \<or> (put_effect (embedded_view E c s) r p (embedded_view E c s')
         \<and> (\<forall>d. d \<noteq> c \<longrightarrow> embedded_view E d s' = embedded_view E d s)
         \<and> (res = Inr \<lparr>applied_mutations = 1\<rparr> \<or> res = Inl UnknownOutcome))"
  using transact_records_effect [OF assms(1), of "[Put c r p]" res s'] assms(2)
  by (auto simp: put_record_def)

lemma delete_record_effect:
  assumes "embedded_wf E s" and "delete_record E s c i p = (res, s')"
  shows "embedded_wf E s'"
    and "(\<exists>e. res = Inl e \<and> es_records s' = es_records s)
      \<or> (delete_effect (embedded_view E c s) i p (embedded_view E c s')
         \<and> (\<forall>d. d \<noteq> c \<longrightarrow> embedded_view E d s' = embedded_view E d s)
         \<and> (res = Inr \<lparr>applied_mutations = 1\<rparr> \<or> res = Inl UnknownOutcome))"
  using transact_records_effect [OF assms(1), of "[Delete c i p]" res s'] assms(2)
  by (auto simp: delete_record_def)

lemma embedded_view_cong: "es_records s' = es_records s \<Longrightarrow> embedded_view E c s' = embedded_view E c s"
  by (simp add: embedded_view_def)

section \<open>Reads against the view\<close>

lemma get_record_view:
  "get_record E s c i = Inr found \<Longrightarrow> found = embedded_view E c s i"
  by (auto simp: get_record_def read_record_def embedded_view_def table_view_def split: result_splits)

lemma list_records_view:
  assumes wf: "embedded_wf E s" and res: "list_records E s c = Inr rs"
  shows "distinct (map vr_id rs) \<and> (\<forall>r. r \<in> set rs \<longleftrightarrow> embedded_view E c s (vr_id r) = Some r)"
proof -
  let ?t = "es_records s"
  let ?rows = "sort_key (\<lambda>row. snd (fst row)) (filter (\<lambda>row. fst (fst row) = as_str c) ?t)"
  let ?dec = "\<lambda>row. decode_record E c (snd row)"
  have E: "env_ok E" and t: "table_ok E ?t" using wf by (simp_all add: embedded_wf_def)
  have dt: "distinct (map fst ?t)" using t by (simp add: table_ok_def)
  have col: "collect_results (map ?dec ?rows) = Inr rs"
    using res by (auto simp: list_records_def split: result_splits)
  note rows = collect_results_mapD [OF col]
  have key: "fst row = table_key E c (vr_id r)" if r1: "row \<in> set ?rows" and r2: "?dec row = Inr r"
    for row r
  proof -
    obtain k raw where kr: "row = (k, raw)" by fastforce
    with r1 have row: "row = (k, raw)" "(k, raw) \<in> set ?t" "fst k = as_str c" by simp_all
    then have "row_ok E k raw" using t by (auto simp: table_ok_def)
    then show ?thesis
      using row r2 decode_record_id [of E c raw r]
      by (auto simp: row_ok_def table_key_def dest: decode_record_id)
  qed
  have mem: "r \<in> set rs \<longleftrightarrow> embedded_view E c s (vr_id r) = Some r" for r
  proof
    assume "r \<in> set rs"
    then obtain row where row: "row \<in> set ?rows" "?dec row = Inr r" using rows(3) by blast
    then have "(table_key E c (vr_id r), snd row) \<in> set ?t"
      using key [OF row] by (metis filter_is_subset prod.collapse set_sort subset_eq)
    then have "map_of ?t (table_key E c (vr_id r)) = Some (snd row)"
      using dt by simp
    with row(2) show "embedded_view E c s (vr_id r) = Some r"
      by (simp add: embedded_view_def table_view_Some)
  next
    assume "embedded_view E c s (vr_id r) = Some r"
    then obtain raw where raw: "map_of ?t (table_key E c (vr_id r)) = Some raw"
      and d: "decode_record E c raw = Inr r"
      by (auto simp: embedded_view_def table_view_Some)
    then have "(table_key E c (vr_id r), raw) \<in> set ?rows"
      using map_of_SomeD [OF raw] by (simp add: table_key_def)
    with rows(4) d show "r \<in> set rs" by fastforce
  qed
  have "distinct (map fst ?rows)"
  proof -
    have "distinct (map fst (filter (\<lambda>row. fst (fst row) = as_str c) ?t))"
      using dt by (rule distinct_map_filter)
    then show ?thesis by (simp add: distinct_map)
  qed
  moreover have "map fst ?rows = map (\<lambda>r. table_key E c (vr_id r)) rs"
  proof (rule nth_equalityI)
    show "length (map fst ?rows) = length (map (\<lambda>r. table_key E c (vr_id r)) rs)"
      using rows(1) by (simp only: length_map)
    fix n
    assume "n < length (map fst ?rows)"
    then have n: "n < length ?rows" by (simp only: length_map)
    have "fst (?rows ! n) = table_key E c (vr_id (rs ! n))"
      using key [OF nth_mem [OF n] rows(2) [OF n]] .
    then show "map fst ?rows ! n = map (\<lambda>r. table_key E c (vr_id r)) rs ! n"
      using n rows(1) by (simp only: nth_map)
  qed
  ultimately have "distinct (map vr_id rs)"
    by (auto simp: distinct_map inj_on_def table_key_inject [OF E])
  with mem show ?thesis by blast
qed

text \<open>The embedded store implements the repository contract in every collection.\<close>

interpretation embedded: repository_laws
  "embedded_repository E c" "embedded_view E c" "embedded_wf E" for E c
proof (unfold_locales, goal_cases)
  case (1 s i r)
  then show ?case by (auto simp: embedded_wf_def embedded_view_def dest: table_view_key)
next
  case (2 s i found)
  then show ?case by (simp add: embedded_repository_def get_record_view)
next
  case (3 s rs)
  then show ?case using list_records_view by (simp add: embedded_repository_def)
next
  case (4 s r p res s')
  then show ?case using put_record_effect(1) by (fastforce simp: embedded_repository_def)
next
  case (5 s r p c' s')
  then show ?case
    using put_record_effect(2) [of E s c r p "Inr c'" s'] by (simp add: embedded_repository_def)
next
  case (6 s r p e s')
  then show ?case
    using put_record_effect(2) [of E s c r p "Inl e" s'] embedded_view_cong [of s' s E c]
    by (auto simp: embedded_repository_def)
next
  case (7 s i p res s')
  then show ?case using delete_record_effect(1) by (fastforce simp: embedded_repository_def)
next
  case (8 s i p c' s')
  then show ?case
    using delete_record_effect(2) [of E s c i p "Inr c'" s'] by (simp add: embedded_repository_def)
next
  case (9 s i p e s')
  then show ?case
    using delete_record_effect(2) [of E s c i p "Inl e" s'] embedded_view_cong [of s' s E c]
    by (auto simp: embedded_repository_def)
qed

text \<open>All collections of one store, with the transactions over them.\<close>

definition embedded_state ::
  "('j, 'b) store_env \<Rightarrow> ('b embedded_store, 'j, store_error) state_repository" where
  "embedded_state E = \<lparr>collection_repository = embedded_repository E, transact = transact_records E\<rparr>"

lemma embedded_put_frame:
  assumes "embedded_wf E s" and "repo_put (embedded_repository E c) s r p = (res, s')" and "d \<noteq> c"
  shows "embedded_view E d s' = embedded_view E d s"
proof -
  have put: "put_record E s c r p = (res, s')" using assms(2) by (simp add: embedded_repository_def)
  show ?thesis
    using put_record_effect(2) [OF assms(1) put] assms(3) by (auto simp: embedded_view_def)
qed

interpretation embedded_all: state_repository_laws "embedded_state E" "\<lambda>s c. embedded_view E c s"
  "embedded_wf E" for E
proof (rule state_repository_laws.intro, goal_cases)
  case (1 c)
  show ?case using embedded.repository_laws_axioms by (simp add: embedded_state_def)
next
  case (2 s c r p res s' d)
  then show ?case using embedded_put_frame by (simp add: embedded_state_def)
next
  case (3 s ms res s')
  then show ?case
    using transact_records_effect [of E s ms res s'] embedded_view_cong [of s' s E]
    by (auto simp: embedded_state_def)
qed

section \<open>Ledger lemmas\<close>

text \<open>The steps of the store that the services can take; the erasure of the ledger is a separate,
  privileged capability.\<close>

inductive store_step ::
  "('j, 'b) store_env \<Rightarrow> 'b embedded_store \<Rightarrow> 'b embedded_store \<Rightarrow> bool" for E where
  step_transact: "transact_records E s ms = (res, s') \<Longrightarrow> store_step E s s'"
| step_append: "transact_evolution_append E s r head p = (res, s') \<Longrightarrow> store_step E s s'"
| step_fault: "store_step E s (inject_fault_once point s)"

lemma current_revision_None:
  "current_revision E s k t c i = Inr None \<Longrightarrow> map_of t (table_key E c i) = None"
  by (auto simp: current_revision_def split: result_splits)

lemma apply_mutation_inner_ledger:
  assumes "apply_mutation_inner E s k evo t m = Inr t'"
    and "map_of t (as_str EvolutionLedger, x) = Some raw"
  shows "map_of t' (as_str EvolutionLedger, x) = Some raw"
proof (cases m)
  case (Put c r p)
  with assms(1) obtain n b where ap: "\<not> append_only_violation m evo"
    and n: "current_revision E s k t c (vr_id r) = Inr n" "precondition_accepts p n"
    and t': "t' = AList.update (table_key E c (vr_id r)) (encode_row E r b) t"
    by (auto simp: apply_mutation_inner_def apply_put_def split: result_splits)
  show ?thesis
  proof (cases "c = EvolutionLedger")
    case True
    with ap Put have "p = Missing" by (auto simp: append_only_violation_def split: if_splits)
    with n have "map_of t (table_key E c (vr_id r)) = None"
      using current_revision_None by auto
    with assms(2) True show ?thesis by (auto simp: t' update_conv' table_key_def)
  next
    case False
    with assms(2) show ?thesis by (auto simp: t' update_conv' table_key_def)
  qed
next
  case (Delete c i p)
  with assms(1) have "c \<noteq> EvolutionLedger" and "t' = AList.delete (table_key E c i) t"
    by (auto simp: apply_mutation_inner_def append_only_violation_def apply_delete_def
        split: result_splits)
  with assms(2) show ?thesis by (auto simp: delete_conv' table_key_def)
qed

lemma apply_mutations_ledger:
  "apply_mutations E s k evo t ms = Inr t' \<Longrightarrow>
   map_of t (as_str EvolutionLedger, x) = Some raw \<Longrightarrow>
   map_of t' (as_str EvolutionLedger, x) = Some raw"
proof (induction ms arbitrary: k t)
  case (Cons m ms)
  then show ?case using apply_mutation_inner_ledger by (fastforce split: sum.splits)
qed simp

lemma store_step_ledger:
  assumes "store_step E s s'" and "map_of (es_records s) (as_str EvolutionLedger, x) = Some raw"
  shows "map_of (es_records s') (as_str EvolutionLedger, x) = Some raw"
  using assms
proof (induction rule: store_step.induct)
  case (step_transact s ms res s')
  from step_transact(1) show ?case unfolding transact_records_def
    by (cases rule: run_transaction_cases)
      (use step_transact(2) in \<open>auto split: sum.splits dest: apply_mutations_ledger\<close>)
next
  case (step_append s r head p res s')
  show ?case
  proof (cases "vr_id head = entity_id_from_u128 0")
    case True
    with step_append(1) have "run_transaction (\<lambda>s1 t. case apply_mutations E s1 0 True t
          [Put EvolutionLedger r Missing, Put EvolutionLedgerHead head p] of
            Inl e \<Rightarrow> Inl e | Inr t' \<Rightarrow> Inr (t', \<lparr>applied_mutations = 2\<rparr>)) s = (res, s')"
      by (simp add: transact_evolution_append_def)
    then show ?thesis
      by (cases rule: run_transaction_cases)
        (use step_append(2) in
          \<open>auto split: sum.splits dest: apply_mutations_ledger simp del: apply_mutations.simps\<close>)
  next
    case False
    with step_append show ?thesis by (simp add: transact_evolution_append_def)
  qed
next
  case (step_fault s point)
  then show ?case by (simp add: inject_fault_once_def)
qed

lemma erase_ledger_body_Inr:
  "erase_ledger_body s t = Inr (t', rep) \<Longrightarrow>
    t' = filter (\<lambda>row. fst (fst row) \<notin> {as_str EvolutionLedger, as_str EvolutionLedgerHead}) t
    \<and> rep = \<lparr>deleted_records = length (collection_rows EvolutionLedger t),
             deleted_heads = length (collection_rows EvolutionLedgerHead t),
             remaining_records = 0, remaining_heads = 0\<rparr>"
  by (auto simp: erase_ledger_body_def collection_record_count_def Let_def collection_rows_def
      delete_collection_def conj_commute split: result_splits intro: filter_cong
      intro!: arg_cong [where f = length])

lemma collection_rows_erased [simp]:
  "collection_rows EvolutionLedger
     (delete_collection EvolutionLedgerHead (delete_collection EvolutionLedger t)) = []"
  "collection_rows EvolutionLedgerHead
     (delete_collection EvolutionLedgerHead (delete_collection EvolutionLedger t)) = []"
  by (auto simp: collection_rows_def delete_collection_def filter_empty_conv)

lemma erase_ledger_body_complete:
  "erase_ledger_body s t \<noteq> Inl (EvolutionLedgerErasureIncomplete a b)"
  by (auto simp: erase_ledger_body_def collection_record_count_def Let_def split: result_splits)

section \<open>Properties\<close>

text \<open>A concrete environment and store, used to instantiate the hypotheses.\<close>

definition unary_ulid :: ulid_codec where
  "unary_ulid =
     \<lparr>ulid_to_string = (\<lambda>w. replicate (unat w) CHR ''0''),
      ulid_from_string = (\<lambda>s. Some (of_nat (length s)))\<rparr>"

definition plain_env :: "('j, 'j) store_env" where
  "plain_env =
     \<lparr>env_ulid = unary_ulid, env_json_bytes = Inr, env_json_parse = Inr, env_display = (\<lambda>_. [])\<rparr>"

definition empty_store :: "'b embedded_store" where
  "empty_store =
     \<lparr>es_user_version = 1, es_has_tables = True, es_records = [], es_fault_once = None,
      es_poisoned = False, es_sql = (\<lambda>_ _. None), es_epoch = 0\<rparr>"

lemma plain_env_ok [simp]: "env_ok plain_env"
  by (simp add: env_ok_def plain_env_def ulid_ok_def unary_ulid_def)

lemma empty_store_wf [simp]: "embedded_wf plain_env empty_store"
  by (simp add: embedded_wf_def empty_store_def table_ok_def)

definition sample_record :: "nat \<Rightarrow> nat \<Rightarrow> 'j \<Rightarrow> 'j versioned_record" where
  "sample_record i n j =
     \<lparr>vr_version = CURRENT_SCHEMA_VERSION, vr_id = EntityId (of_nat i), vr_revision = of_nat n,
      vr_updated_at = 0, vr_payload = j\<rparr>"

lemmas store_eval = transact_records_def put_record_def get_record_def read_record_def
  run_transaction_def take_fault_def next_epoch_def apply_mutation_inner_def apply_put_def
  append_only_violation_def validate_record_def current_revision_def check_precondition_def
  sql_error_def encode_row_def table_key_def decode_record_def entity_id_parse_def
  plain_env_def unary_ulid_def empty_store_def sample_record_def CURRENT_SCHEMA_VERSION_def

text \<open>C36. A transaction is all or nothing: whatever fails, either an error is returned and the table
  is as before, or the views of all collections change exactly as the whole batch prescribes, each
  precondition having held at its turn, and the caller gets the receipt or the explicit
  unknown-outcome error.\<close>

theorem transact_records_atomic:
  assumes "embedded_wf E s" and "transact_records E s ms = (res, s')"
  shows "embedded_wf E s' \<and> ((\<exists>e. res = Inl e \<and> es_records s' = es_records s)
      \<or> (mutations_effect ms (\<lambda>c. embedded_view E c s) (\<lambda>c. embedded_view E c s')
         \<and> (res = Inr \<lparr>applied_mutations = length ms\<rparr> \<or> res = Inl UnknownOutcome)))"
  using assms by (rule transact_records_effect)

theorem transact_records_atomic_witness:
  "let s' = snd (transact_records plain_env empty_store [Put Goals (sample_record 3 0 True) Missing])
   in embedded_wf plain_env s' \<and> embedded_view plain_env Goals s' (EntityId 3) = Some (sample_record 3 0 True)"
proof -
  let ?ms = "[Put Goals (sample_record 3 0 True) Missing]"
  obtain res s' where run: "transact_records plain_env empty_store ?ms = (res, s')"
    by fastforce
  have res: "res = Inr \<lparr>applied_mutations = 1\<rparr>"
    using run by (simp add: store_eval)
  then have "mutations_effect ?ms (\<lambda>c. embedded_view plain_env c empty_store)
      (\<lambda>c. embedded_view plain_env c s')" and "embedded_wf plain_env s'"
    using transact_records_atomic [OF empty_store_wf run] by auto
  with run show ?thesis by (simp add: put_effect_def sample_record_def)
qed

text \<open>C37. The evolution ledger is append-only: over any sequence of transactions, ledger appends and
  injected faults, a ledger row that is there stays there, unchanged.\<close>

theorem evolution_ledger_append_only:
  assumes "(store_step E)\<^sup>*\<^sup>* s s'"
    and "map_of (es_records s) (as_str EvolutionLedger, x) = Some raw"
  shows "map_of (es_records s') (as_str EvolutionLedger, x) = Some raw"
  using assms by (induction rule: rtranclp_induct) (auto dest: store_step_ledger)

theorem evolution_ledger_append_only_witness:
  "let raw = \<lparr>raw_id = ''0'', raw_schema_major = 1, raw_schema_minor = 0, raw_revision = 0,
              raw_updated_at = 0, raw_payload = True\<rparr>;
       s = empty_store\<lparr>es_records := [((as_str EvolutionLedger, ''0''), raw)]\<rparr>;
       s' = snd (transact_records plain_env s [Delete EvolutionLedger (EntityId 1) AnyRevision])
   in map_of (es_records s') (as_str EvolutionLedger, ''0'') = Some raw"
proof -
  let ?raw = "\<lparr>raw_id = ''0'', raw_schema_major = 1, raw_schema_minor = 0, raw_revision = 0,
              raw_updated_at = 0, raw_payload = True\<rparr>"
  let ?s = "empty_store\<lparr>es_records := [((as_str EvolutionLedger, ''0''), ?raw)]\<rparr>"
  let ?ms = "[Delete EvolutionLedger (EntityId 1) AnyRevision]"
  have "store_step plain_env ?s (snd (transact_records plain_env ?s ?ms))"
    by (rule step_transact) (rule prod.collapse [symmetric])
  then have "(store_step plain_env)\<^sup>*\<^sup>* ?s (snd (transact_records plain_env ?s ?ms))"
    by (rule r_into_rtranclp)
  from evolution_ledger_append_only [OF this, of "''0''" ?raw] show ?thesis
    by (simp add: Let_def)
qed

text \<open>An acknowledged ledger append wrote a fresh ledger record and advanced the head with a
  real precondition (never an unconditional overwrite) to a strictly larger revision; no other
  collection changed.\<close>

theorem evolution_append_acknowledged:
  assumes "embedded_wf E s" and "transact_evolution_append E s r head p = (Inr c, s')"
  shows "p \<noteq> AnyRevision \<and> vr_id head = EntityId 0 \<and> c = \<lparr>applied_mutations = 2\<rparr>
    \<and> embedded_view E EvolutionLedger s (vr_id r) = None
    \<and> embedded_view E EvolutionLedger s' = (embedded_view E EvolutionLedger s)(vr_id r \<mapsto> r)
    \<and> put_effect (embedded_view E EvolutionLedgerHead s) head p (embedded_view E EvolutionLedgerHead s')
    \<and> (\<forall>d. d \<noteq> EvolutionLedger \<and> d \<noteq> EvolutionLedgerHead \<longrightarrow> embedded_view E d s' = embedded_view E d s)"
proof -
  let ?ms = "[Put EvolutionLedger r Missing, Put EvolutionLedgerHead head p]"
  have ok: "env_ok E" "table_ok E (es_records s)" using assms(1) by (simp_all add: embedded_wf_def)
  have head: "vr_id head = EntityId 0"
    using assms(2) by (auto simp: transact_evolution_append_def entity_id_from_u128_def split: if_splits)
  have body: "apply_mutations E s 0 True (es_records s) ?ms = Inr (es_records s')"
    and c: "c = \<lparr>applied_mutations = 2\<rparr>"
    using assms(2) head
    by (auto simp: transact_evolution_append_def entity_id_from_u128_def simp del: apply_mutations.simps
        split: sum.splits dest!: run_transaction_committed)
  have "p \<noteq> AnyRevision"
    using body by (auto simp: apply_mutation_inner_def append_only_violation_def split: sum.splits if_splits)
  with head c apply_mutations_effect [OF ok body] show ?thesis
    by (auto simp: embedded_view_def put_effect_def fun_eq_iff)
qed

theorem evolution_append_acknowledged_witness:
  "let s' = snd (transact_evolution_append plain_env empty_store
                   (sample_record 2 0 True) (sample_record 0 0 False) Missing)
   in embedded_view plain_env EvolutionLedger s' (EntityId 2) = Some (sample_record 2 0 True)
      \<and> embedded_view plain_env EvolutionLedgerHead s' (EntityId 0) = Some (sample_record 0 0 False)"
proof -
  let ?r = "sample_record 2 0 True" and ?h = "sample_record 0 0 False"
  obtain res s' where run: "transact_evolution_append plain_env empty_store ?r ?h Missing = (res, s')"
    by fastforce
  have "res = Inr \<lparr>applied_mutations = 2\<rparr>"
    using run by (simp add: store_eval transact_evolution_append_def entity_id_from_u128_def)
  with run evolution_append_acknowledged [OF empty_store_wf, of ?r ?h Missing "\<lparr>applied_mutations = 2\<rparr>" s']
  show ?thesis by (simp add: put_effect_def sample_record_def)
qed

text \<open>The privileged erasure removes every ledger and head row and no other row, reports the
  number it removed, and never returns an incomplete erasure; on any other error the table is
  unchanged.\<close>

theorem evolution_erasure_exact:
  assumes "transact_evolution_ledger_erasure s = (res, s')"
  shows "((\<exists>e. res = Inl e \<and> es_records s' = es_records s)
       \<or> (es_records s' = filter (\<lambda>row. fst (fst row) \<notin> {as_str EvolutionLedger, as_str EvolutionLedgerHead})
                             (es_records s)
          \<and> (res = Inl UnknownOutcome
             \<or> res = Inr \<lparr>deleted_records = length (collection_rows EvolutionLedger (es_records s)),
                          deleted_heads = length (collection_rows EvolutionLedgerHead (es_records s)),
                          remaining_records = 0, remaining_heads = 0\<rparr>)))
    \<and> (\<nexists>a b. res = Inl (EvolutionLedgerErasureIncomplete a b))"
proof
  from assms show "(\<exists>e. res = Inl e \<and> es_records s' = es_records s)
       \<or> (es_records s' = filter (\<lambda>row. fst (fst row) \<notin> {as_str EvolutionLedger, as_str EvolutionLedgerHead})
                             (es_records s)
          \<and> (res = Inl UnknownOutcome
             \<or> res = Inr \<lparr>deleted_records = length (collection_rows EvolutionLedger (es_records s)),
                          deleted_heads = length (collection_rows EvolutionLedgerHead (es_records s)),
                          remaining_records = 0, remaining_heads = 0\<rparr>))"
    unfolding transact_evolution_ledger_erasure_def
    by (cases rule: run_transaction_cases) (auto dest: erase_ledger_body_Inr)
  show "\<nexists>a b. res = Inl (EvolutionLedgerErasureIncomplete a b)"
    using assms erase_ledger_body_complete
    by (fastforce simp: transact_evolution_ledger_erasure_def run_transaction_def take_fault_def
        split: result_splits)
qed

theorem evolution_erasure_exact_witness:
  "let raw = \<lparr>raw_id = ''0'', raw_schema_major = 1, raw_schema_minor = 0, raw_revision = 0,
              raw_updated_at = 0, raw_payload = True\<rparr>;
       s = empty_store\<lparr>es_records := [((as_str EvolutionLedger, ''0''), raw), ((as_str Goals, ''0''), raw)]\<rparr>
   in es_records (snd (transact_evolution_ledger_erasure s)) = [((as_str Goals, ''0''), raw)]"
proof -
  let ?raw = "\<lparr>raw_id = ''0'', raw_schema_major = 1, raw_schema_minor = 0, raw_revision = 0,
              raw_updated_at = 0, raw_payload = True\<rparr>"
  let ?s = "empty_store\<lparr>es_records := [((as_str EvolutionLedger, ''0''), ?raw), ((as_str Goals, ''0''), ?raw)]\<rparr>"
  obtain res s' where run: "transact_evolution_ledger_erasure ?s = (res, s')" by fastforce
  have "\<exists>x. res = Inr x"
    using run by (auto simp: transact_evolution_ledger_erasure_def run_transaction_def take_fault_def
        erase_ledger_body_def collection_record_count_def Let_def sql_error_def empty_store_def)
  with evolution_erasure_exact [OF run] run show ?thesis by (auto simp: Let_def)
qed

text \<open>C38. What an acknowledged write stored is what later reads of the store return, and no other
  record of any collection is affected.\<close>

theorem put_record_read_back:
  assumes "embedded_wf E s" and "put_record E s c r p = (Inr ack, s')"
    and "get_record E s' d i = Inr found"
  shows "found = (if d = c \<and> i = vr_id r then Some r else embedded_view E d s i)"
proof -
  have "found = embedded_view E d s' i" using assms(3) by (rule get_record_view)
  with put_record_effect(2) [OF assms(1,2)] show ?thesis by (cases "d = c") (auto simp: put_effect_def)
qed

theorem put_record_read_back_witness:
  "get_record plain_env (snd (put_record plain_env empty_store Goals (sample_record 3 0 True) Missing))
     Goals (EntityId 3) = Inr (Some (sample_record 3 0 True))"
proof -
  let ?r = "sample_record 3 0 True"
  obtain res s' where run: "put_record plain_env empty_store Goals ?r Missing = (res, s')" by fastforce
  then have ack: "res = Inr \<lparr>applied_mutations = 1\<rparr>" by (simp add: store_eval)
  obtain found where found: "get_record plain_env s' Goals (EntityId 3) = Inr found"
    using run by (auto simp: store_eval)
  show ?thesis
    using put_record_read_back [OF empty_store_wf, of Goals ?r Missing _ s' Goals "EntityId 3" found]
      run ack found by (simp add: sample_record_def)
qed

text \<open>Writes make progress: on a healthy store a valid record whose precondition holds and whose
  revision is new is stored, acknowledged, and can be read back.\<close>

theorem put_record_progress:
  assumes wf: "embedded_wf E s"
    and healthy: "es_fault_once s = None" "\<not> es_poisoned s" "\<forall>n call. es_sql s n call = None"
    and c: "c \<noteq> EvolutionLedger" "c \<noteq> EvolutionLedgerHead"
    and rec: "validate_record E c r = Inr ()" "unat (vr_revision r) < 2 ^ 63"
      "env_json_bytes E (vr_payload r) = Inr b"
    and pre: "precondition_accepts p (map_option vr_revision (embedded_view E c s (vr_id r)))"
      "\<forall>old. embedded_view E c s (vr_id r) = Some old \<longrightarrow> vr_revision old < vr_revision r"
  shows "\<exists>s'. put_record E s c r p = (Inr \<lparr>applied_mutations = 1\<rparr>, s')
    \<and> get_record E s' c (vr_id r) = Inr (Some r)"
proof -
  have ok: "env_ok E" "table_ok E (es_records s)" using wf by (simp_all add: embedded_wf_def)
  have sql: "sql_error s call = None" for call using healthy(3) by (simp add: sql_error_def)
  obtain n where n: "current_revision E s 0 (es_records s) c (vr_id r) = Inr n"
  proof (cases "map_of (es_records s) (table_key E c (vr_id r))")
    case None
    then show ?thesis using that sql by (simp add: current_revision_def)
  next
    case (Some raw)
    then have "0 \<le> raw_revision raw"
      using table_ok_decode [OF ok] decode_record_revision by blast
    with Some show ?thesis using that sql by (simp add: current_revision_def)
  qed
  note n' = current_revision_view [OF ok n]
  let ?t = "AList.update (table_key E c (vr_id r)) (encode_row E r b) (es_records s)"
  have put: "apply_put E s 0 (es_records s) c r p = Inr ?t"
    using n n' rec pre sql
    by (auto simp: apply_put_def check_precondition_def embedded_view_def not_le split: option.splits)
  define s' where "s' = next_epoch (s\<lparr>es_records := ?t\<rparr>)"
  have run: "put_record E s c r p = (Inr \<lparr>applied_mutations = 1\<rparr>, s')"
    using put healthy(1,2) c sql
    by (auto simp: put_record_def transact_records_def run_transaction_def take_fault_def s'_def
        apply_mutation_inner_def append_only_violation_def sql_error_def)
  have "get_record E s' c (vr_id r) = Inr (Some r)"
    using healthy(2,3) decode_encode_row [OF ok(1) rec]
    by (simp add: get_record_def read_record_def s'_def next_epoch_def sql_error_def update_conv')
  with run show ?thesis by blast
qed

theorem put_record_progress_witness:
  "\<exists>s'. put_record plain_env empty_store Goals (sample_record 3 0 True) Missing
       = (Inr \<lparr>applied_mutations = 1\<rparr>, s')
    \<and> get_record plain_env s' Goals (EntityId 3) = Inr (Some (sample_record 3 0 True))"
  using put_record_progress [OF empty_store_wf, of Goals "sample_record 3 0 True" True Missing]
  by (simp add: store_eval embedded_view_def table_view_def)

text \<open>A database that already holds state is never migrated without a backup: when migration
  succeeds on an older schema with tables, the hook was there and reported success for exactly
  these versions; a newer schema is refused; and no outcome touches a row.\<close>

theorem migrate_requires_backup:
  assumes "migrate s path hook = (res, s')"
  shows "es_records s' = es_records s
    \<and> (res = Inr () \<longrightarrow> es_user_version s \<le> STORE_SCHEMA_VERSION \<and> es_user_version s' = STORE_SCHEMA_VERSION)
    \<and> (es_user_version s' \<noteq> es_user_version s \<and> es_has_tables s \<longrightarrow>
        path \<noteq> None \<and> (\<exists>h. hook = Some h \<and> h (es_user_version s) STORE_SCHEMA_VERSION = None))"
  using assms
  by (auto simp: migrate_def migrate_tables_def user_version_def next_epoch_def not_less
      split: result_splits)

theorem migrate_requires_backup_witness:
  "let s = (empty_store :: bool embedded_store)\<lparr>es_user_version := 0\<rparr>;
       hook = (\<lambda>a b. if a = 0 \<and> b = (1 :: u32) then None else Some ''wrong versions'')
   in fst (migrate s (Some ''keith.sqlite'') (Some hook)) = Inr ()
      \<and> es_user_version (snd (migrate s (Some ''keith.sqlite'') (Some hook))) = 1
      \<and> fst (migrate s (Some ''keith.sqlite'') None) = Inl (BackupRequired 0)"
proof -
  let ?s = "(empty_store :: bool embedded_store)\<lparr>es_user_version := 0\<rparr>"
  let ?hook = "\<lambda>a b. if a = 0 \<and> b = (1 :: u32) then None else Some ''wrong versions''"
  obtain s' where run: "migrate ?s (Some ''keith.sqlite'') (Some ?hook) = (Inr (), s')"
    by (simp add: migrate_def migrate_tables_def user_version_def empty_store_def sql_error_def
        STORE_SCHEMA_VERSION_def)
  have "es_user_version s' = 1"
    using migrate_requires_backup [OF run] by (simp add: STORE_SCHEMA_VERSION_def)
  with run show ?thesis
    by (simp add: Let_def migrate_def user_version_def empty_store_def sql_error_def
        STORE_SCHEMA_VERSION_def)
qed

end
