(* ===== verification/Framing.thy ===== *)
theory Framing
  imports Keith_Prelude
begin

text \<open>
  \<open>crates/framing/src/lib.rs\<close>: the length-delimited codec under the wire protocols. A reader is
  the bytes it will still deliver and how it ends (end of file, or an I/O error); a writer is what
  it has taken, how many more bytes it takes before it fails, and whether a flush fails. So every
  position of a failure is covered.
\<close>

section \<open>Readers and writers\<close>

datatype io_error = UnexpectedEof | IoOther nat

record reader =
  rd_bytes :: "u8 list"
  rd_end :: "io_error option"

record writer =
  wr_out :: "u8 list"
  wr_room :: "nat option"
  wr_error :: io_error
  wr_flush_error :: "io_error option"

text \<open>\<open>Read::read\<close> into a one-byte buffer: \<open>Inr None\<close> is \<open>Ok(0)\<close>.\<close>

definition read_one :: "reader \<Rightarrow> (io_error + u8 option) \<times> reader" where
  "read_one r =
     (case rd_bytes r of
        b # bs \<Rightarrow> (Inr (Some b), r\<lparr>rd_bytes := bs\<rparr>)
      | [] \<Rightarrow> (case rd_end r of None \<Rightarrow> (Inr None, r) | Some e \<Rightarrow> (Inl e, r)))"

definition read_exact :: "nat \<Rightarrow> reader \<Rightarrow> (io_error + u8 list) \<times> reader" where
  "read_exact n r =
     (if n \<le> length (rd_bytes r)
      then (Inr (take n (rd_bytes r)), r\<lparr>rd_bytes := drop n (rd_bytes r)\<rparr>)
      else (case rd_end r of
          None \<Rightarrow> (Inl UnexpectedEof, r\<lparr>rd_bytes := []\<rparr>)
        | Some e \<Rightarrow> (Inl e, r\<lparr>rd_bytes := []\<rparr>)))"

definition write_all :: "u8 list \<Rightarrow> writer \<Rightarrow> (io_error + unit) \<times> writer" where
  "write_all bs w =
     (case wr_room w of
        None \<Rightarrow> (Inr (), w\<lparr>wr_out := wr_out w @ bs\<rparr>)
      | Some n \<Rightarrow>
          if length bs \<le> n
          then (Inr (), w\<lparr>wr_out := wr_out w @ bs, wr_room := Some (n - length bs)\<rparr>)
          else (Inl (wr_error w), w\<lparr>wr_out := wr_out w @ take n bs, wr_room := Some 0\<rparr>))"

definition write_flush :: "writer \<Rightarrow> (io_error + unit) \<times> writer" where
  "write_flush w = (case wr_flush_error w of None \<Rightarrow> (Inr (), w) | Some e \<Rightarrow> (Inl e, w))"

section \<open>The codec\<close>

datatype frame_context = FrameHeader | FramePayload

datatype frame_error =
    FrameIo io_error
  | TooLarge nat nat
  | InvalidLimit nat
  | UnsupportedPlatformLength u32
  | Truncated frame_context io_error

record length_delimited_codec =
  max_frame_bytes :: nat

definition DEFAULT_MAX_FRAME_BYTES :: nat where
  "DEFAULT_MAX_FRAME_BYTES = 16 * 1024 * 1024"

definition codec_default :: length_delimited_codec where
  "codec_default = \<lparr>max_frame_bytes = DEFAULT_MAX_FRAME_BYTES\<rparr>"

definition codec_new :: "nat \<Rightarrow> frame_error + length_delimited_codec" where
  "codec_new n =
     (if n = 0 \<or> 2 ^ 32 \<le> n then Inl (InvalidLimit n) else Inr \<lparr>max_frame_bytes = n\<rparr>)"

definition usize_bits :: nat where "usize_bits = 64"

text \<open>\<open>u32::to_be_bytes\<close> and \<open>u32::from_be_bytes\<close>.\<close>

definition to_be_bytes :: "u32 \<Rightarrow> u8 list" where
  "to_be_bytes w =
     [of_nat (unat w div 2 ^ 24 mod 256), of_nat (unat w div 2 ^ 16 mod 256),
      of_nat (unat w div 2 ^ 8 mod 256), of_nat (unat w mod 256)]"

fun from_be_bytes :: "u8 list \<Rightarrow> u32" where
  "from_be_bytes [a, b, c, d] =
     of_nat (unat a * 2 ^ 24 + unat b * 2 ^ 16 + unat c * 2 ^ 8 + unat d)"
| "from_be_bytes _ = 0"

definition truncated :: "io_error \<Rightarrow> frame_context \<Rightarrow> frame_error" where
  "truncated e context = (if e = UnexpectedEof then Truncated context e else FrameIo e)"

definition write_frame ::
  "length_delimited_codec \<Rightarrow> writer \<Rightarrow> u8 list \<Rightarrow> (frame_error + unit) \<times> writer" where
  "write_frame codec w payload =
     (if length payload > max_frame_bytes codec
      then (Inl (TooLarge (length payload) (max_frame_bytes codec)), w)
      else if 2 ^ 32 \<le> length payload
      then (Inl (TooLarge (length payload) (max_frame_bytes codec)), w)
      else (case write_all (to_be_bytes (of_nat (length payload))) w of
          (Inl e, w1) \<Rightarrow> (Inl (FrameIo e), w1)
        | (Inr _, w1) \<Rightarrow>
            (case write_all payload w1 of
               (Inl e, w2) \<Rightarrow> (Inl (FrameIo e), w2)
             | (Inr _, w2) \<Rightarrow>
                 (case write_flush w2 of
                    (Inl e, w3) \<Rightarrow> (Inl (FrameIo e), w3)
                  | (Inr _, w3) \<Rightarrow> (Inr (), w3)))))"

definition read_frame ::
  "length_delimited_codec \<Rightarrow> reader \<Rightarrow> (frame_error + u8 list option) \<times> reader" where
  "read_frame codec r =
     (case read_one r of
        (Inl e, r1) \<Rightarrow> (Inl (FrameIo e), r1)
      | (Inr None, r1) \<Rightarrow> (Inr None, r1)
      | (Inr (Some b), r1) \<Rightarrow>
          (case read_exact 3 r1 of
             (Inl e, r2) \<Rightarrow> (Inl (truncated e FrameHeader), r2)
           | (Inr bs, r2) \<Rightarrow>
               (let wire_length = from_be_bytes (b # bs) in
                if 2 ^ usize_bits \<le> unat wire_length
                then (Inl (UnsupportedPlatformLength wire_length), r2)
                else let len = unat wire_length in
                if len > max_frame_bytes codec
                then (Inl (TooLarge len (max_frame_bytes codec)), r2)
                else (case read_exact len r2 of
                    (Inl e, r3) \<Rightarrow> (Inl (truncated e FramePayload), r3)
                  | (Inr payload, r3) \<Rightarrow> (Inr (Some payload), r3)))))"

text \<open>A client's loop: read frames until the end of the stream or an error, at most \<open>n\<close>.\<close>

fun read_frames ::
  "nat \<Rightarrow> length_delimited_codec \<Rightarrow> reader \<Rightarrow> (frame_error + bool) \<times> u8 list list \<times> reader" where
  "read_frames 0 codec r = (Inr False, [], r)"
| "read_frames (Suc n) codec r =
     (case read_frame codec r of
        (Inl e, r1) \<Rightarrow> (Inl e, [], r1)
      | (Inr None, r1) \<Rightarrow> (Inr True, [], r1)
      | (Inr (Some p), r1) \<Rightarrow>
          (case read_frames n codec r1 of (res, ps, r2) \<Rightarrow> (res, p # ps, r2)))"

fun write_frames ::
  "length_delimited_codec \<Rightarrow> writer \<Rightarrow> u8 list list \<Rightarrow> (frame_error + unit) \<times> writer" where
  "write_frames codec w [] = (Inr (), w)"
| "write_frames codec w (p # ps) =
     (case write_frame codec w p of
        (Inl e, w1) \<Rightarrow> (Inl e, w1)
      | (Inr _, w1) \<Rightarrow> write_frames codec w1 ps)"

section \<open>Lemmas\<close>

definition frame :: "u8 list \<Rightarrow> u8 list" where
  "frame payload = to_be_bytes (of_nat (length payload)) @ payload"

lemma unat_u8_less: "unat (b :: u8) < 256"
  using unsigned_less [of b] by simp

lemma unat_of_nat_u32: "n < 2 ^ 32 \<Longrightarrow> unat (of_nat n :: u32) = n"
  by (simp add: unat_of_nat take_bit_nat_eq_self)

lemma unat_of_nat_u8: "n < 256 \<Longrightarrow> unat (of_nat n :: u8) = n"
  by (simp add: unat_of_nat take_bit_nat_eq_self)

lemma base256_digits:
  fixes n :: nat
  assumes "n < 2 ^ 32"
  shows "n div 2 ^ 24 mod 256 * 2 ^ 24 + n div 2 ^ 16 mod 256 * 2 ^ 16 + n div 2 ^ 8 mod 256 * 2 ^ 8
    + n mod 256 = n"
proof -
  define q1 q2 q3 where q: "q1 = n div 256" "q2 = q1 div 256" "q3 = q2 div 256"
  have "q3 * 16777216 + r2 * 65536 + r1 * 256 + r0 = n"
    if "n = q1 * 256 + r0" "q1 = q2 * 256 + r1" "q2 = q3 * 256 + r2" for r0 r1 r2
    using that by simp
  from this [of "n mod 256" "q1 mod 256" "q2 mod 256"]
  have sum: "q3 * 16777216 + q2 mod 256 * 65536 + q1 mod 256 * 256 + n mod 256 = n"
    by (simp add: q)
  have d: "n div 2 ^ 24 = q3" "n div 2 ^ 16 = q2" "n div 2 ^ 8 = q1"
    by (simp_all add: q div_mult2_eq [symmetric])
  have "q3 mod 256 = q3" using assms by (simp add: q div_mult2_eq [symmetric])
  with sum show ?thesis unfolding d by simp
qed

lemma of_nat_unat_id: "of_nat (unat (w :: u32)) = w" "of_nat (unat (b :: u8)) = b"
  by simp_all

lemma from_to_be_bytes [simp]: "from_be_bytes (to_be_bytes w) = w"
proof -
  have "unat w < 2 ^ 32" using unsigned_less [of w] by simp
  note base256_digits [OF this]
  moreover have "unat (of_nat (k mod 256) :: u8) = k mod 256" for k
    by (rule unat_of_nat_u8) simp
  ultimately show ?thesis
    by (simp only: to_be_bytes_def from_be_bytes.simps of_nat_unat_id)
qed

lemma base256_value:
  fixes a b c d :: nat
  assumes "a < 256" "b < 256" "c < 256" "d < 256"
  defines "n \<equiv> a * 2 ^ 24 + b * 2 ^ 16 + c * 2 ^ 8 + d"
  shows "n < 2 ^ 32" "n div 2 ^ 24 mod 256 = a" "n div 2 ^ 16 mod 256 = b"
    "n div 2 ^ 8 mod 256 = c" "n mod 256 = d"
proof -
  have n: "n = ((a * 256 + b) * 256 + c) * 256 + d" by (simp add: n_def)
  have d1: "n div 256 = (a * 256 + b) * 256 + c" using assms(4) by (simp add: n)
  have d2: "n div 256 div 256 = a * 256 + b" using assms(3) by (simp add: d1)
  have d3: "n div 256 div 256 div 256 = a" using assms(2) by (simp add: d2)
  have e: "n div 2 ^ 16 = n div 256 div 256" "n div 2 ^ 24 = n div 256 div 256 div 256"
    by (simp_all add: div_mult2_eq [symmetric])
  show "n < 2 ^ 32" using assms(1-4) by (simp add: n_def)
  show "n mod 256 = d" unfolding n using assms(4) by (metis mod_less mod_mult_self3)
  have "n div 2 ^ 8 = (a * 256 + b) * 256 + c" using d1 by simp
  then show "n div 2 ^ 8 mod 256 = c" using assms(3) by (metis mod_less mod_mult_self3)
  show "n div 2 ^ 16 mod 256 = b" unfolding e using assms(2) d2 by simp
  show "n div 2 ^ 24 mod 256 = a" unfolding e using assms(1) d3 by simp
qed

lemma to_from_be_bytes:
  assumes "length bs = 4"
  shows "to_be_bytes (from_be_bytes bs) = bs"
proof -
  obtain a b c d where bs: "bs = [a, b, c, d]"
    using assms by (auto simp: length_Suc_conv eval_nat_numeral)
  note val = base256_value [OF unat_u8_less [of a] unat_u8_less [of b] unat_u8_less [of c]
      unat_u8_less [of d]]
  show ?thesis
    unfolding bs
    by (simp only: from_be_bytes.simps to_be_bytes_def unat_of_nat_u32 [OF val(1)] val
        of_nat_unat_id)
qed

lemma length_to_be_bytes [simp]: "length (to_be_bytes w) = 4"
  by (simp add: to_be_bytes_def)

lemma read_exact_Inr:
  "read_exact n r = (Inr bs, r') \<longleftrightarrow>
    n \<le> length (rd_bytes r) \<and> bs = take n (rd_bytes r) \<and> r' = r\<lparr>rd_bytes := drop n (rd_bytes r)\<rparr>"
  by (auto simp: read_exact_def split: option.splits)

lemma read_exact_append:
  "length bs = n \<Longrightarrow> read_exact n (r\<lparr>rd_bytes := bs @ rest\<rparr>) = (Inr bs, r\<lparr>rd_bytes := rest\<rparr>)"
  by (simp add: read_exact_def)

lemma wire_length_fits: "\<not> 2 ^ usize_bits \<le> unat (w :: u32)"
proof -
  have "unat w < 2 ^ 32" using unsigned_less [of w] by simp
  also have "(2 :: nat) ^ 32 \<le> 2 ^ usize_bits" by (simp add: usize_bits_def)
  finally show ?thesis by simp
qed

text \<open>Reading after a complete header.\<close>

lemma read_frame_header:
  assumes "length h = 4" and "rd_bytes r = h @ bs"
  shows "read_frame codec r =
    (let len = unat (from_be_bytes h); r2 = r\<lparr>rd_bytes := bs\<rparr> in
     if len > max_frame_bytes codec then (Inl (TooLarge len (max_frame_bytes codec)), r2)
     else (case read_exact len r2 of
         (Inl e, r3) \<Rightarrow> (Inl (truncated e FramePayload), r3)
       | (Inr payload, r3) \<Rightarrow> (Inr (Some payload), r3)))"
proof -
  obtain b h' where h: "h = b # h'" "length h' = 3" using assms(1) by (cases h) auto
  have one: "read_one r = (Inr (Some b), r\<lparr>rd_bytes := h' @ bs\<rparr>)"
    using assms(2) h by (simp add: read_one_def)
  have three: "read_exact 3 (r\<lparr>rd_bytes := h' @ bs\<rparr>) = (Inr h', r\<lparr>rd_bytes := bs\<rparr>)"
    using h(2) by (simp add: read_exact_append)
  show ?thesis
    unfolding read_frame_def one using wire_length_fits
    by (simp add: three h(1)[symmetric] Let_def)
qed

lemma read_frame_frame:
  assumes "length p \<le> max_frame_bytes codec" and "length p < 2 ^ 32" and "rd_bytes r = frame p @ rest"
  shows "read_frame codec r = (Inr (Some p), r\<lparr>rd_bytes := rest\<rparr>)"
proof -
  have "rd_bytes r = to_be_bytes (of_nat (length p)) @ p @ rest"
    using assms(3) by (simp add: frame_def)
  note header = read_frame_header [OF length_to_be_bytes this, of codec]
  show ?thesis
    unfolding header using assms(1,2) by (simp add: Let_def unat_of_nat_u32 read_exact_append)
qed

lemma read_frame_Some:
  assumes "read_frame codec r = (Inr (Some p), r')"
  shows "length p \<le> max_frame_bytes codec" and "rd_bytes r = frame p @ rd_bytes r'"
proof -
  obtain h bs where hb: "length h = 4" "rd_bytes r = h @ bs"
  proof -
    from assms have "4 \<le> length (rd_bytes r)"
      by (auto simp: read_frame_def read_one_def read_exact_def Let_def
          split: list.splits result_splits)
    then show ?thesis using that [of "take 4 (rd_bytes r)" "drop 4 (rd_bytes r)"] by simp
  qed
  note run = assms [unfolded read_frame_header [OF hb] Let_def]
  let ?len = "unat (from_be_bytes h)"
  from run have len: "?len \<le> max_frame_bytes codec" "?len \<le> length bs" "p = take ?len bs"
    "rd_bytes r' = drop ?len bs"
    by (auto simp: read_exact_Inr split: result_splits)
  then have lp: "length p = ?len" by simp
  then show "length p \<le> max_frame_bytes codec" using len(1) by simp
  have "to_be_bytes (of_nat (length p)) = h"
    using lp to_from_be_bytes [OF hb(1)] by simp
  with hb(2) len show "rd_bytes r = frame p @ rd_bytes r'" by (simp add: frame_def)
qed

lemma frame_bytes_frame: "length (frame p) = 4 + length p"
  by (simp add: frame_def)

lemma write_frame_out:
  assumes "write_frame codec w p = (Inr (), w')"
  shows "wr_out w' = wr_out w @ frame p" and "length p \<le> max_frame_bytes codec" and "length p < 2 ^ 32"
  using assms
  by (auto simp: write_frame_def write_all_def write_flush_def frame_def split: result_splits)

lemma write_frames_out:
  "write_frames codec w ps = (Inr (), w') \<Longrightarrow>
    wr_out w' = wr_out w @ concat (map frame ps)
    \<and> (\<forall>p \<in> set ps. length p \<le> max_frame_bytes codec \<and> length p < 2 ^ 32)"
proof (induction ps arbitrary: w)
  case (Cons p ps)
  then obtain w1 where "write_frame codec w p = (Inr (), w1)" "write_frames codec w1 ps = (Inr (), w')"
    by (auto split: result_splits)
  with write_frame_out [of codec w p w1] Cons.IH [of w1] show ?case by auto
qed simp

lemma read_frames_concat:
  assumes "\<forall>p \<in> set ps. length p \<le> max_frame_bytes codec \<and> length p < 2 ^ 32"
    and "rd_bytes r = concat (map frame ps)" and "rd_end r = None" and "length ps < n"
  shows "read_frames n codec r = (Inr True, ps, r\<lparr>rd_bytes := []\<rparr>)"
  using assms
proof (induction ps arbitrary: n r)
  case Nil
  then obtain m where "n = Suc m" by (cases n) auto
  with Nil show ?case by (simp add: read_frame_def read_one_def)
next
  case (Cons p ps)
  then obtain m where m: "n = Suc m" "length ps < m" by (cases n) auto
  have "read_frame codec r = (Inr (Some p), r\<lparr>rd_bytes := concat (map frame ps)\<rparr>)"
    using Cons.prems by (intro read_frame_frame) auto
  moreover have "read_frames m codec (r\<lparr>rd_bytes := concat (map frame ps)\<rparr>)
    = (Inr True, ps, r\<lparr>rd_bytes := []\<rparr>)"
    using Cons.IH [of "r\<lparr>rd_bytes := concat (map frame ps)\<rparr>" m] Cons.prems m(2) by simp
  ultimately show ?case using m(1) by simp
qed

lemma read_frame_header_short:
  assumes "0 < length (rd_bytes r)" and "length (rd_bytes r) < 4" and "rd_end r = None"
  shows "fst (read_frame codec r) = Inl (Truncated FrameHeader UnexpectedEof)"
proof -
  obtain b bs where "rd_bytes r = b # bs" using assms(1) by (cases "rd_bytes r") auto
  with assms show ?thesis
    by (simp add: read_frame_def read_one_def read_exact_def truncated_def)
qed

section \<open>Properties\<close>

text \<open>C39. Frames round trip: what a sequence of successful writes put on the wire is read back as
  exactly those payloads, in order, followed by a clean end of stream.\<close>

theorem frames_round_trip:
  assumes "write_frames codec w ps = (Inr (), w')" and "wr_out w = []"
  shows "read_frames (Suc (length ps)) codec \<lparr>rd_bytes = wr_out w', rd_end = None\<rparr>
    = (Inr True, ps, \<lparr>rd_bytes = [], rd_end = None\<rparr>)"
  using write_frames_out [OF assms(1)] assms(2)
    read_frames_concat [of ps codec "\<lparr>rd_bytes = wr_out w', rd_end = None\<rparr>" "Suc (length ps)"]
  by simp

definition open_writer :: writer where
  "open_writer = \<lparr>wr_out = [], wr_room = None, wr_error = UnexpectedEof, wr_flush_error = None\<rparr>"

theorem frames_round_trip_witness:
  "read_frames 3 \<lparr>max_frame_bytes = 32\<rparr>
     \<lparr>rd_bytes = wr_out (snd (write_frames \<lparr>max_frame_bytes = 32\<rparr> open_writer [[107, 101], []])), rd_end = None\<rparr>
   = (Inr True, [[107, 101], []], \<lparr>rd_bytes = [], rd_end = None\<rparr>)"
proof -
  let ?c = "\<lparr>max_frame_bytes = 32\<rparr>" and ?ps = "[[107, 101], []] :: u8 list list"
  obtain w' where w': "write_frames ?c open_writer ?ps = (Inr (), w')"
    by (simp add: write_frame_def write_all_def write_flush_def open_writer_def)
  have "wr_out open_writer = []" by (simp add: open_writer_def)
  from frames_round_trip [OF w' this] show ?thesis
    unfolding w' by (simp add: eval_nat_numeral del: read_frames.simps)
qed

text \<open>The reader accepts nothing it should not: a payload it returns is within the limit and the
  bytes it consumed are exactly that payload's frame; an oversized frame is refused after its
  four header bytes, before any payload byte is read.\<close>

theorem read_frame_exact:
  assumes "read_frame codec r = (res, r')"
  shows "(\<forall>p. res = Inr (Some p) \<longrightarrow> length p \<le> max_frame_bytes codec \<and> rd_bytes r = frame p @ rd_bytes r')
    \<and> (\<forall>len lim. res = Inl (TooLarge len lim) \<longrightarrow>
        lim = max_frame_bytes codec \<and> lim < len \<and> (\<exists>h. length h = 4 \<and> len = unat (from_be_bytes h)
          \<and> rd_bytes r = h @ rd_bytes r'))"
proof (intro conjI allI impI)
  fix p
  assume p: "res = Inr (Some p)"
  show "length p \<le> max_frame_bytes codec" and "rd_bytes r = frame p @ rd_bytes r'"
    using read_frame_Some [of codec r p r'] assms p by simp_all
next
  fix len lim
  assume big: "res = Inl (TooLarge len lim)"
  have "4 \<le> length (rd_bytes r)"
    using assms big
    by (auto simp: read_frame_def read_one_def read_exact_def truncated_def Let_def
        split: list.splits result_splits)
  then obtain h bs where hb: "length h = 4" "rd_bytes r = h @ bs"
    by (metis append_take_drop_id length_take min.absorb2)
  note run = assms [unfolded read_frame_header [OF hb] Let_def]
  from run big have "lim = max_frame_bytes codec" "lim < len" "len = unat (from_be_bytes h)"
    "rd_bytes r' = bs"
    by (auto simp: truncated_def split: result_splits)
  with hb show "lim = max_frame_bytes codec" and "lim < len"
    and "\<exists>h. length h = 4 \<and> len = unat (from_be_bytes h) \<and> rd_bytes r = h @ rd_bytes r'"
    by blast+
qed

theorem read_frame_exact_witness:
  "let r = \<lparr>rd_bytes = [0, 0, 0, 5, 9], rd_end = None\<rparr>; r' = snd (read_frame \<lparr>max_frame_bytes = 4\<rparr> r)
   in fst (read_frame \<lparr>max_frame_bytes = 4\<rparr> r) = Inl (TooLarge 5 4) \<and> length (rd_bytes r') = 1"
proof -
  let ?r = "\<lparr>rd_bytes = [0, 0, 0, 5, 9], rd_end = None\<rparr>" and ?c = "\<lparr>max_frame_bytes = 4\<rparr>"
  obtain r' where run: "read_frame ?c ?r = (Inl (TooLarge 5 4), r')"
    by (simp add: read_frame_def read_one_def read_exact_def usize_bits_def)
  obtain h where h: "length h = 4" "rd_bytes ?r = h @ rd_bytes r'"
    using read_frame_exact [OF run] by auto
  then have "length (rd_bytes ?r) = 4 + length (rd_bytes r')" by (metis length_append)
  with run show ?thesis by simp
qed

text \<open>Truncation is never mistaken for a clean end or for a frame: a stream that stops inside a
  frame gives a truncation error, and only a stream that stops between frames gives
  end-of-stream.\<close>

theorem read_frame_truncation:
  assumes "length p \<le> max_frame_bytes codec" and "length p < 2 ^ 32" and "k < length (frame p)"
  shows "fst (read_frame codec \<lparr>rd_bytes = take k (frame p), rd_end = None\<rparr>) =
    (if k = 0 then Inr None
     else Inl (Truncated (if k < 4 then FrameHeader else FramePayload) UnexpectedEof))"
proof -
  let ?r = "\<lparr>rd_bytes = take k (frame p), rd_end = None\<rparr>"
  consider "k = 0" | "0 < k" "k < 4" | "4 \<le> k" by linarith
  then show ?thesis
  proof cases
    case 1
    then show ?thesis by (simp add: read_frame_def read_one_def)
  next
    case 2
    then show ?thesis
      using assms(3) by (simp add: read_frame_header_short)
  next
    case 3
    then have bytes: "rd_bytes ?r = to_be_bytes (of_nat (length p)) @ take (k - 4) p"
      by (simp add: frame_def)
    have short: "k - 4 < length p" using assms(3) 3 by (simp add: frame_def)
    show ?thesis
      unfolding read_frame_header [OF length_to_be_bytes bytes]
      using 3 short assms(1,2) by (simp add: Let_def unat_of_nat_u32 read_exact_def truncated_def)
  qed
qed

theorem read_frame_truncation_witness:
  "fst (read_frame \<lparr>max_frame_bytes = 4\<rparr> \<lparr>rd_bytes = [0, 0, 0, 2, 1], rd_end = None\<rparr>)
   = Inl (Truncated FramePayload UnexpectedEof)"
proof -
  have "take 5 (frame [1, 7]) = [0, 0, 0, 2, 1]"
    by (simp add: frame_def to_be_bytes_def)
  with read_frame_truncation [of "[1, 7]" "\<lparr>max_frame_bytes = 4\<rparr>" 5] show ?thesis
    by (simp add: frame_bytes_frame)
qed

end
