(* ===== verification/Typed_Store.thy ===== *)
theory Typed_Store
  imports State_Store
begin

text \<open>
  Every durable service keeps typed records in one collection: it encodes a record into a
  \<open>VersionedRecord\<close>, writes it under a precondition, and decodes what it reads back, refusing a
  record whose envelope does not match its payload. The locale \<open>typed_store\<close> states what such a
  pair of functions promises and derives, once for all services, what loading, listing and writing
  mean for the table of typed records.
\<close>

definition records_of ::
  "('y \<Rightarrow> 'x) \<Rightarrow> ('j versioned_record \<Rightarrow> 'err + 'y) \<Rightarrow> 'j view \<Rightarrow> entity_id \<Rightarrow> 'x option" where
  "records_of val dec v i = map_option val (typed dec v i)"

text \<open>A store whose rows are well formed, together with a faithful encoding of the records.\<close>

definition typed_wf :: "('j, 'b) store_env \<Rightarrow> ('a, 'j) serde \<Rightarrow> 'b embedded_store \<Rightarrow> bool" where
  "typed_wf E C s \<longleftrightarrow> embedded_wf E s \<and> serde_ok C"

text \<open>\<open>decode\<close>'s test that the payload's version is one this build understands.\<close>

definition version_supported :: "schema_version \<Rightarrow> bool" where
  "version_supported v \<longleftrightarrow>
     major v = major CURRENT_SCHEMA_VERSION \<and> \<not> minor v > minor CURRENT_SCHEMA_VERSION"

lemma version_supported_current [simp]: "version_supported CURRENT_SCHEMA_VERSION"
  by (simp add: version_supported_def)

locale typed_store = repository_laws R view wf
  for R :: "('s, 'j, 'e) repository" and view :: "'s \<Rightarrow> 'j view" and wf :: "'s \<Rightarrow> bool" +
  fixes enc :: "'x \<Rightarrow> 'err + 'j versioned_record"
    and dec :: "'j versioned_record \<Rightarrow> 'err + 'y"
    and val :: "'y \<Rightarrow> 'x"
    and key :: "'x \<Rightarrow> entity_id"
    and rev :: "'x \<Rightarrow> revision"
    and good :: "'x \<Rightarrow> bool"
  assumes enc_fields: "enc x = Inr r \<Longrightarrow> vr_id r = key x \<and> vr_revision r = rev x"
    and enc_dec: "wf s \<Longrightarrow> enc x = Inr r \<Longrightarrow> good x \<Longrightarrow> \<exists>y. dec r = Inr y \<and> val y = x"
    and dec_fields: "dec r = Inr y \<Longrightarrow> good (val y) \<and> key (val y) = vr_id r \<and> rev (val y) = vr_revision r"
begin

abbreviation tab :: "'s \<Rightarrow> entity_id \<Rightarrow> 'x option" where
  "tab s \<equiv> records_of val dec (view s)"

lemma tab_Some: "tab s i = Some x \<longleftrightarrow> (\<exists>r y. view s i = Some r \<and> dec r = Inr y \<and> val y = x)"
  by (auto simp: records_of_def typed_Some)

lemma tab_key: "wf s \<Longrightarrow> tab s i = Some x \<Longrightarrow> key x = i"
  using view_key dec_fields by (auto simp: tab_Some)

lemma tab_good: "tab s i = Some x \<Longrightarrow> good x"
  using dec_fields by (auto simp: tab_Some)

lemma get_tab:
  assumes "wf s" and "repo_get R s i = Inr (Some r)" and "dec r = Inr y"
  shows "tab s i = Some (val y) \<and> key (val y) = i"
proof -
  have "tab s i = Some (val y)" using assms(3) get_view [OF assms(1,2)] by (metis tab_Some)
  then show ?thesis using tab_key [OF assms(1)] by simp
qed

lemma get_tab_None: "wf s \<Longrightarrow> repo_get R s i = Inr None \<Longrightarrow> tab s i = None"
  using get_view by (metis records_of_def typed_missing option.map(1))

lemma list_tab:
  assumes "wf s" and "repo_list R s = Inr rs" and "collect_results (map dec rs) = Inr ys"
  shows list_tab_iff: "x \<in> val ` set ys \<longleftrightarrow> tab s (key x) = Some x"
    and list_tab_distinct: "distinct (map (key \<circ> val) ys)"
    and list_tab_complete: "tab s i = Some x \<Longrightarrow> \<exists>y \<in> set ys. val y = x"
    and list_tab_decodes: "view s i = Some r \<Longrightarrow> \<exists>y. dec r = Inr y"
    and list_tab_finite: "finite (dom (tab s))"
proof -
  have len: "length ys = length rs" and at: "\<And>k. k < length rs \<Longrightarrow> dec (rs ! k) = Inr (ys ! k)"
    using collect_results_mapD [OF assms(3)] by auto
  have keys: "map (key \<circ> val) ys = map vr_id rs"
    using len at dec_fields by (auto intro!: nth_equalityI)
  show "distinct (map (key \<circ> val) ys)" using keys list_view [OF assms(1,2)] by simp
  show dec_all: "\<exists>y. dec r = Inr y" if "view s i = Some r" for i r
    using list_complete [OF assms(1,2) that] at by (metis in_set_conv_nth)
  show complete: "\<exists>y \<in> set ys. val y = x" if tab: "tab s i = Some x" for i x
  proof -
    obtain r y where r: "view s i = Some r" "dec r = Inr y" "val y = x"
      using tab by (auto simp: tab_Some)
    have "r \<in> set rs" using list_complete [OF assms(1,2) r(1)] .
    then obtain k where k: "k < length rs" "rs ! k = r" by (auto simp: in_set_conv_nth)
    then have "ys ! k = y" using at [OF k(1)] r(2) by simp
    then show ?thesis using k(1) len r(3) nth_mem [of k ys] by auto
  qed
  have sound: "tab s (key (val y)) = Some (val y)" if "y \<in> set ys" for y
  proof -
    obtain k where k: "k < length rs" "ys ! k = y" using \<open>y \<in> set ys\<close> len by (auto simp: in_set_conv_nth)
    have "view s (vr_id (rs ! k)) = Some (rs ! k)"
      using list_mem [OF assms(1,2), of "rs ! k"] nth_mem [OF k(1)] by blast
    then show ?thesis using at [OF k(1)] dec_fields k(2) by (auto simp: tab_Some)
  qed
  show "x \<in> val ` set ys \<longleftrightarrow> tab s (key x) = Some x" for x
    using sound complete by fastforce
  have "dom (tab s) \<subseteq> (key \<circ> val) ` set ys"
    using complete tab_key [OF assms(1)] by fastforce
  then show "finite (dom (tab s))" by (rule finite_subset) simp
qed

lemma put_effect_tab:
  assumes "wf s" and "enc x = Inr r" and "good x" and "put_effect v r p v'"
  shows "records_of val dec v' = (records_of val dec v)(key x \<mapsto> x)"
proof -
  obtain y where y: "dec r = Inr y" "val y = x" using enc_dec assms by blast
  show ?thesis
    using typed_put [where dec = dec, OF assms(4) y(1)] y(2) enc_fields [OF assms(2)]
    by (auto simp: records_of_def fun_eq_iff)
qed

lemma put_effect_new_tab:
  "enc x = Inr r \<Longrightarrow> put_effect v r Missing v' \<Longrightarrow> records_of val dec v (key x) = None"
  using put_effect_missing [of v r v'] enc_fields [of x r] by (simp add: records_of_def typed_missing)

lemma put_effect_exact_tab: "enc x = Inr r \<Longrightarrow> put_effect v r (Exact n) v' \<Longrightarrow> n < rev x"
  using put_effect_exact [of v r n v'] enc_fields [of x r] by auto

lemma delete_effect_tab:
  "delete_effect v i p v' \<Longrightarrow> records_of val dec v' = (records_of val dec v)(i := None)"
  by (auto simp: delete_effect_def records_of_def typed_def fun_eq_iff)

lemma put_new_tab:
  assumes "wf s" and "enc x = Inr r" and "good x" and "repo_put R s r Missing = (res, s')"
  shows "wf s' \<and> (tab s' = tab s \<and> (\<exists>e. res = Inl e)
                  \<or> tab s (key x) = None \<and> tab s' = (tab s)(key x \<mapsto> x))"
  using assms(1,4)
proof (cases rule: put_cases)
  case (kept e)
  then show ?thesis by simp
next
  case written
  then show ?thesis
    using put_effect_tab [OF assms(1-3)] put_effect_new_tab [OF assms(2)] by blast
qed

lemma put_exact_tab:
  assumes "wf s" and "enc x = Inr r" and "good x" and "repo_put R s r (Exact n) = (res, s')"
  shows "wf s' \<and> (tab s' = tab s \<and> (\<exists>e. res = Inl e)
                  \<or> n < rev x \<and> tab s' = (tab s)(key x \<mapsto> x))"
  using assms(1,4)
proof (cases rule: put_cases)
  case (kept e)
  then show ?thesis by simp
next
  case written
  then show ?thesis
    using put_effect_tab [OF assms(1-3)] put_effect_exact_tab [OF assms(2)] by blast
qed

text \<open>A list of records that a loop is about to rewrite one by one.\<close>

definition loaded_from :: "'s \<Rightarrow> 'y list \<Rightarrow> bool" where
  "loaded_from s ys \<longleftrightarrow>
     distinct (map (key \<circ> val) ys) \<and> (\<forall>y \<in> set ys. tab s (key (val y)) = Some (val y))"

lemma loaded_fromD:
  assumes "loaded_from s (y # ys)"
  shows "tab s (key (val y)) = Some (val y)" and "loaded_from s ys"
    and "key (val y) \<notin> (key \<circ> val) ` set ys"
  using assms by (auto simp: loaded_from_def)

lemma loaded_from_tail:
  assumes "loaded_from s (y # ys)" and "\<And>i. i \<noteq> key (val y) \<Longrightarrow> tab s' i = tab s i"
  shows "loaded_from s' ys"
  unfolding loaded_from_def
proof (intro conjI ballI)
  show "distinct (map (key \<circ> val) ys)" using assms(1) by (simp add: loaded_from_def)
  fix z assume z: "z \<in> set ys"
  then have "(key \<circ> val) z \<in> (key \<circ> val) ` set ys" by (rule imageI)
  then have "key (val z) \<noteq> key (val y)" using loaded_fromD(3) [OF assms(1)] by auto
  then show "tab s' (key (val z)) = Some (val z)"
    using assms(2) loaded_fromD(2) [OF assms(1)] z by (simp add: loaded_from_def)
qed

lemma loaded_from_filter:
  assumes "wf s" and "repo_list R s = Inr rs" and "collect_results (map dec rs) = Inr ys"
  shows "loaded_from s (filter P ys)"
proof -
  have "tab s (key (val y)) = Some (val y)" if "y \<in> set ys" for y
    using list_tab_iff [OF assms] that by blast
  then show ?thesis
    using list_tab_distinct [OF assms]
    by (auto simp: loaded_from_def distinct_map intro: inj_on_subset)
qed

lemma loaded_from_take: "loaded_from s ys \<Longrightarrow> loaded_from s (take n ys)"
  by (auto simp: loaded_from_def take_map [symmetric] dest: in_set_takeD)

end

lemma repository_laws_guarded:
  assumes "repository_laws R view ok"
  shows "repository_laws R view (\<lambda>s. ok s \<and> P)"
proof (cases P)
  case True
  then show ?thesis using assms by (simp only: simp_thms)
next
  case False
  then show ?thesis by (simp only: repository_laws_def simp_thms)
qed

lemma state_repository_laws_guarded:
  assumes "state_repository_laws S views ok"
  shows "state_repository_laws S views (\<lambda>s. ok s \<and> P)"
proof (cases P)
  case True
  then show ?thesis using assms by (simp only: simp_thms)
next
  case False
  then show ?thesis by (simp only: state_repository_laws_def repository_laws_def simp_thms)
qed

lemma embedded_typed_laws:
  "repository_laws (embedded_repository E c) (embedded_view E c) (typed_wf E C)"
  using repository_laws_guarded [OF embedded.repository_laws_axioms, of E c "serde_ok C"]
  by (simp add: typed_wf_def [abs_def])

text \<open>An encoding that stores the record itself, used to instantiate the hypotheses.\<close>

definition plain_serde :: "('a, 'a) serde" where
  "plain_serde = \<lparr>to_value = Inr, from_value = Inr\<rparr>"

lemma plain_serde_ok [simp]: "serde_ok plain_serde"
  by (simp add: serde_ok_def plain_serde_def)

lemma empty_store_typed_wf [simp]: "typed_wf plain_env plain_serde empty_store"
  by (simp add: typed_wf_def)

lemma empty_store_view [simp]: "embedded_view plain_env c empty_store = Map.empty"
  by (simp add: embedded_view_def table_view_def empty_store_def fun_eq_iff)

lemma records_of_empty [simp]: "records_of val dec Map.empty = Map.empty"
  by (simp add: records_of_def typed_def fun_eq_iff)

text \<open>Two kinds of records in one store.\<close>

definition left_serde :: "('a, 'a + 'b) serde" where
  "left_serde = \<lparr>to_value = (\<lambda>x. Inr (Inl x)), from_value = (\<lambda>j. case j of Inl x \<Rightarrow> Inr x | Inr _ \<Rightarrow> Inl [])\<rparr>"

definition right_serde :: "('b, 'a + 'b) serde" where
  "right_serde = \<lparr>to_value = (\<lambda>x. Inr (Inr x)), from_value = (\<lambda>j. case j of Inr x \<Rightarrow> Inr x | Inl _ \<Rightarrow> Inl [])\<rparr>"

lemma left_right_serde_ok [simp]: "serde_ok left_serde" "serde_ok right_serde"
  by (auto simp: serde_ok_def left_serde_def right_serde_def)

lemma replicate_numeral: "replicate (numeral k) x = x # replicate (pred_numeral k) x"
  by (simp add: numeral_eq_Suc)

end
