(* ===== verification/Action_Store.thy ===== *)
theory Action_Store
  imports Typed_Store
begin

text \<open>
  \<open>crates/action-store/src/lib.rs\<close>: the durable prioritized inbox of session actions. The
  operations are generic in the repository \<open>R\<close> and the JSON encoding \<open>C\<close> of an action
  record, as \<open>PersistentActionInbox<R>\<close> is. Each public operation runs under the inbox's mutex,
  so it is one step; \<open>inbox_poisoned\<close> is the poisoned mutex.

  The specification \<open>inbox_spec\<close> describes one admissible change of the map from action
  identifiers to records; the refinement lemmas show that every operation, whatever it returns and
  whatever write fails, performs a sequence of such changes.
\<close>

section \<open>Data\<close>

datatype action_ancestor_kind = OrdinaryAncestor | EvolutionAncestor
datatype evolution_execution = OrdinarySession | DedicatedChild
datatype evolution_operation =
    EvaluateHypothesis | PrepareShadow | BuildCandidate | RunCanary | ObservePromotion
  | ReclaimResources

datatype action_source =
    InteractiveSource client_id
  | ChannelSource string string
  | ScheduleSource job_id u32
  | ChildSource child_id message_id
  | SteeringSource client_id
  | FollowUpSource
  | WaitingSource entity_id
  | AwarenessSource entity_id
  | RefinementSource entity_id
  | AutonomousContinuation goal_id
  | EvolutionSource entity_id "action_ancestor_kind list" evolution_execution

datatype delivery_policy = Immediate | NextTurnBoundary | WhenIdle

datatype action_priority = Interrupt | UserPriority | ChildResult | ScheduledPriority | Background

fun rank :: "action_priority \<Rightarrow> nat" where
  "rank Interrupt = 0"
| "rank UserPriority = 1"
| "rank ChildResult = 2"
| "rank ScheduledPriority = 3"
| "rank Background = 4"

record action_limits =
  max_turns :: "u32 option"
  max_tokens :: "u64 option"
  max_elapsed_ms :: "u64 option"
  max_tool_calls :: "u32 option"
  max_children :: "u16 option"

definition action_limits_default :: action_limits where
  "action_limits_default =
     \<lparr>max_turns = None, max_tokens = None, max_elapsed_ms = None, max_tool_calls = None,
      max_children = None\<rparr>"

datatype reply_route =
    ClientRoute client_id
  | ChannelRoute string "string option" string "string option" "string option"
  | SessionRoute session_id

datatype action_payload =
    PromptPayload string
  | ChannelMessagePayload string "artifact_id list"
  | ScheduledPayload string
  | ChildMessagePayload string "artifact_id list"
  | SteeringPayload string
  | FollowUpPayload string
  | ResumeWaiting entity_id
  | ContinueGoal goal_id
  | AwarenessPayload entity_id string
  | RefinementPayload entity_id
  | SystemMaintenance string
  | EvolutionPayload evolution_operation

fun payload_text :: "action_payload \<Rightarrow> string option" where
  "payload_text (PromptPayload t) = Some t"
| "payload_text (ChannelMessagePayload t _) = Some t"
| "payload_text (ChildMessagePayload t _) = Some t"
| "payload_text (SteeringPayload t) = Some t"
| "payload_text (FollowUpPayload t) = Some t"
| "payload_text (ScheduledPayload t) = Some t"
| "payload_text (AwarenessPayload _ t) = Some t"
| "payload_text (ResumeWaiting _) = None"
| "payload_text (ContinueGoal _) = None"
| "payload_text (RefinementPayload _) = None"
| "payload_text (SystemMaintenance t) = Some t"
| "payload_text (EvolutionPayload _) = None"

fun is_steering :: "action_payload \<Rightarrow> bool" where
  "is_steering (SteeringPayload _) = True"
| "is_steering _ = False"

record session_action =
  sa_id :: action_id
  sa_session_id :: session_id
  sa_source :: action_source
  sa_delivery :: delivery_policy
  sa_priority :: action_priority
  sa_created_at :: timestamp
  sa_not_before :: "timestamp option"
  sa_deadline :: "timestamp option"
  sa_limits :: action_limits
  sa_reply_route :: "reply_route option"
  sa_payload :: action_payload

datatype action_state =
    ActionQueued | ActionAdmitted | ActionRunning | ActionWaiting | ActionCompleted | ActionFailed
  | ActionCancelled | ActionExpired

definition action_is_terminal :: "action_state \<Rightarrow> bool" where
  "action_is_terminal st \<longleftrightarrow> st \<in> {ActionCompleted, ActionFailed, ActionCancelled, ActionExpired}"

fun action_allows :: "action_state \<Rightarrow> action_state \<Rightarrow> bool" where
  "action_allows ActionQueued next \<longleftrightarrow> next \<in> {ActionAdmitted, ActionCancelled, ActionExpired}"
| "action_allows ActionAdmitted next \<longleftrightarrow>
     next \<in> {ActionRunning, ActionCompleted, ActionCancelled, ActionExpired}"
| "action_allows ActionRunning next \<longleftrightarrow>
     next \<in> {ActionWaiting, ActionCompleted, ActionFailed, ActionCancelled}"
| "action_allows ActionWaiting next \<longleftrightarrow>
     next \<in> {ActionAdmitted, ActionCompleted, ActionFailed, ActionCancelled, ActionExpired}"
| "action_allows ActionCompleted next \<longleftrightarrow> False"
| "action_allows ActionFailed next \<longleftrightarrow> False"
| "action_allows ActionCancelled next \<longleftrightarrow> False"
| "action_allows ActionExpired next \<longleftrightarrow> False"

record action_record =
  ar_version :: schema_version
  ar_action :: session_action
  ar_state :: action_state
  ar_enqueue_sequence :: u64
  ar_revision :: revision
  ar_updated_at :: timestamp
  ar_terminal_detail :: "string option"

record action_inbox_config =
  max_queued_per_session :: nat
  max_background_queued_per_session :: nat

definition action_inbox_config_default :: action_inbox_config where
  "action_inbox_config_default =
     \<lparr>max_queued_per_session = 1024, max_background_queued_per_session = 128\<rparr>"

record pump_context =
  active_action :: "action_id option"
  at_turn_boundary :: bool
  session_idle :: bool

datatype admission_kind = StartTurn | ApplySteering

record selected_action =
  sel_record :: action_record
  sel_kind :: admission_kind

datatype action_store_error =
    ActionRepository string
  | ActionNotFound action_id
  | ActionCorrupt string
  | ActionInvalid string
  | QueueFull
  | BackgroundQueueFull
  | EvolutionScheduling
  | RecursiveEvolution
  | DedicatedEvolutionChild
  | IllegalTransition action_state action_state
  | TurnAlreadyRunning
  | RevisionOverflow
  | SequenceOverflow
  | ActionLockPoisoned

record stored_action =
  st_value :: action_record
  st_storage_revision :: revision

record action_inbox =
  inbox_config :: action_inbox_config
  inbox_poisoned :: bool

section \<open>Validation and ordering\<close>

definition inbox_new :: "action_inbox_config \<Rightarrow> action_store_error + action_inbox" where
  "inbox_new config =
     (if max_queued_per_session config = 0
         \<or> max_background_queued_per_session config > max_queued_per_session config
      then Inl (ActionInvalid
             ''queue limits must be non-zero and background cannot exceed total'')
      else Inr \<lparr>inbox_config = config, inbox_poisoned = False\<rparr>)"

definition validate_evolution ::
  "session_action \<Rightarrow> action_ancestor_kind list \<Rightarrow> evolution_execution \<Rightarrow> action_store_error + unit" where
  "validate_evolution a ancestry execution =
     (if sa_priority a \<noteq> Background \<or> sa_delivery a \<noteq> WhenIdle then Inl EvolutionScheduling
      else if execution = DedicatedChild then Inl DedicatedEvolutionChild
      else if length ancestry > 32 \<or> EvolutionAncestor \<in> set ancestry then Inl RecursiveEvolution
      else Inr ())"

definition validate_action :: "session_action \<Rightarrow> action_store_error + unit" where
  "validate_action a =
     (if (case payload_text (sa_payload a) of None \<Rightarrow> False | Some t \<Rightarrow> is_blank t)
      then Inl (ActionInvalid ''text-bearing payloads cannot be empty'')
      else if (case sa_not_before a of None \<Rightarrow> False | Some nb \<Rightarrow>
              (case sa_deadline a of None \<Rightarrow> False | Some d \<Rightarrow> nb \<ge> d))
      then Inl (ActionInvalid ''not-before must precede deadline'')
      else if sa_delivery a = NextTurnBoundary \<and> \<not> is_steering (sa_payload a)
      then Inl (ActionInvalid ''turn-boundary delivery is reserved for steering payloads'')
      else (case (sa_source a, sa_payload a) of
          (EvolutionSource g ancestry execution, EvolutionPayload op) \<Rightarrow>
            validate_evolution a ancestry execution
        | (EvolutionSource g ancestry execution, _) \<Rightarrow>
            Inl (ActionInvalid ''evolution source and payload must be paired'')
        | (_, EvolutionPayload op) \<Rightarrow>
            Inl (ActionInvalid ''evolution source and payload must be paired'')
        | _ \<Rightarrow> Inr ()))"

definition eligibility :: "session_action \<Rightarrow> pump_context \<Rightarrow> admission_kind option" where
  "eligibility a ctx =
     (case sa_delivery a of
        Immediate \<Rightarrow>
          if sa_priority a = Interrupt \<and> is_steering (sa_payload a)
          then map_option (\<lambda>_. ApplySteering) (active_action ctx)
          else if active_action ctx = None then Some StartTurn else None
      | NextTurnBoundary \<Rightarrow>
          if active_action ctx \<noteq> None \<and> at_turn_boundary ctx then Some ApplySteering
          else if active_action ctx = None then Some StartTurn else None
      | WhenIdle \<Rightarrow>
          if active_action ctx = None \<and> session_idle ctx then Some StartTurn else None)"

text \<open>\<open>action_order\<close> compares priority rank, then arrival, then identifier.\<close>

definition action_order_key :: "action_record \<Rightarrow> nat \<times> u64 \<times> action_id" where
  "action_order_key r =
     (rank (sa_priority (ar_action r)), ar_enqueue_sequence r, sa_id (ar_action r))"

section \<open>Persistence\<close>

definition action_encode ::
  "(action_record, 'j) serde \<Rightarrow> action_record \<Rightarrow> action_store_error + 'j versioned_record" where
  "action_encode C r =
     (case to_value C r of
        Inl e \<Rightarrow> Inl (ActionCorrupt e)
      | Inr payload \<Rightarrow>
          Inr \<lparr>vr_version = ar_version r, vr_id = sa_id (ar_action r), vr_revision = ar_revision r,
               vr_updated_at = ar_updated_at r, vr_payload = payload\<rparr>)"

definition action_decode ::
  "(action_record, 'j) serde \<Rightarrow> 'j versioned_record \<Rightarrow> action_store_error + stored_action" where
  "action_decode C vr =
     (case from_value C (vr_payload vr) of
        Inl e \<Rightarrow> Inl (ActionCorrupt e)
      | Inr r \<Rightarrow>
          if major (ar_version r) \<noteq> major CURRENT_SCHEMA_VERSION
            \<or> minor (ar_version r) > minor CURRENT_SCHEMA_VERSION
            \<or> sa_id (ar_action r) \<noteq> vr_id vr
            \<or> ar_revision r \<noteq> vr_revision vr
          then Inl (ActionCorrupt ''record envelope does not match its action payload'')
          else Inr \<lparr>st_value = r, st_storage_revision = vr_revision vr\<rparr>)"

definition action_repository_error ::
  "('s, 'j, 'e) repository \<Rightarrow> 'e \<Rightarrow> action_store_error" where
  "action_repository_error R e = ActionRepository (repo_display R e)"

definition action_load ::
  "('s, 'j, 'e) repository \<Rightarrow> (action_record, 'j) serde \<Rightarrow> 's \<Rightarrow> action_id \<Rightarrow>
   action_store_error + stored_action option" where
  "action_load R C s i =
     (case repo_get R s i of
        Inl e \<Rightarrow> Inl (action_repository_error R e)
      | Inr None \<Rightarrow> Inr None
      | Inr (Some vr) \<Rightarrow> (case action_decode C vr of Inl e \<Rightarrow> Inl e | Inr x \<Rightarrow> Inr (Some x)))"

definition action_load_all ::
  "('s, 'j, 'e) repository \<Rightarrow> (action_record, 'j) serde \<Rightarrow> 's \<Rightarrow>
   action_store_error + stored_action list" where
  "action_load_all R C s =
     (case repo_list R s of
        Inl e \<Rightarrow> Inl (action_repository_error R e)
      | Inr vrs \<Rightarrow> collect_results (map (action_decode C) vrs))"

definition action_required ::
  "('s, 'j, 'e) repository \<Rightarrow> (action_record, 'j) serde \<Rightarrow> 's \<Rightarrow> action_id \<Rightarrow>
   action_store_error + stored_action" where
  "action_required R C s i =
     (case action_load R C s i of
        Inl e \<Rightarrow> Inl e
      | Inr None \<Rightarrow> Inl (ActionNotFound i)
      | Inr (Some x) \<Rightarrow> Inr x)"

definition action_put_new ::
  "('s, 'j, 'e) repository \<Rightarrow> (action_record, 'j) serde \<Rightarrow> 's \<Rightarrow> action_record \<Rightarrow>
   (action_store_error + unit) \<times> 's" where
  "action_put_new R C s r =
     (case action_encode C r of
        Inl e \<Rightarrow> (Inl e, s)
      | Inr vr \<Rightarrow>
          (case repo_put R s vr Missing of
             (Inl e, s') \<Rightarrow> (Inl (action_repository_error R e), s')
           | (Inr _, s') \<Rightarrow> (Inr (), s')))"

definition transition_stored ::
  "('s, 'j, 'e) repository \<Rightarrow> (action_record, 'j) serde \<Rightarrow> 's \<Rightarrow> stored_action \<Rightarrow> action_state \<Rightarrow>
   timestamp \<Rightarrow> string option \<Rightarrow> (action_store_error + stored_action) \<times> 's" where
  "transition_stored R C s stored next now detail =
     (if \<not> action_allows (ar_state (st_value stored)) next
      then (Inl (IllegalTransition (ar_state (st_value stored)) next), s)
      else (case checked_next (st_storage_revision stored) of
          None \<Rightarrow> (Inl RevisionOverflow, s)
        | Some next_revision \<Rightarrow>
            (let value = (st_value stored)\<lparr>ar_state := next, ar_revision := next_revision,
                           ar_updated_at := now, ar_terminal_detail := detail\<rparr> in
             (case action_encode C value of
                Inl e \<Rightarrow> (Inl e, s)
              | Inr vr \<Rightarrow>
                  (case repo_put R s vr (Exact (st_storage_revision stored)) of
                     (Inl e, s') \<Rightarrow> (Inl (action_repository_error R e), s')
                   | (Inr _, s') \<Rightarrow>
                       (Inr \<lparr>st_value = value, st_storage_revision = next_revision\<rparr>, s'))))))"

section \<open>Operations\<close>

definition new_action_record :: "session_action \<Rightarrow> timestamp \<Rightarrow> u64 \<Rightarrow> action_record" where
  "new_action_record a now enqueue_sequence =
     (let expired = (case sa_deadline a of None \<Rightarrow> False | Some d \<Rightarrow> now \<ge> d) in
      \<lparr>ar_version = CURRENT_SCHEMA_VERSION, ar_action = a,
       ar_state = (if expired then ActionExpired else ActionQueued),
       ar_enqueue_sequence = enqueue_sequence, ar_revision = revision_zero, ar_updated_at = now,
       ar_terminal_detail =
         (if expired then Some ''deadline elapsed before admission'' else None)\<rparr>)"

definition submit ::
  "('s, 'j, 'e) repository \<Rightarrow> (action_record, 'j) serde \<Rightarrow> action_inbox \<Rightarrow> 's \<Rightarrow> session_action \<Rightarrow>
   timestamp \<Rightarrow> (action_store_error + action_record) \<times> 's" where
  "submit R C inbox s a now =
     (case validate_action a of Inl e \<Rightarrow> (Inl e, s) | Inr _ \<Rightarrow>
      if inbox_poisoned inbox then (Inl ActionLockPoisoned, s)
      else (case action_load_all R C s of Inl e \<Rightarrow> (Inl e, s) | Inr records \<Rightarrow>
       if list_ex (\<lambda>x. sa_id (ar_action (st_value x)) = sa_id a) records
       then (Inl (ActionInvalid ''action ID already exists''), s)
       else
        let session_records =
              filter (\<lambda>x. sa_session_id (ar_action (st_value x)) = sa_session_id a) records;
            queued = length (filter (\<lambda>x. \<not> action_is_terminal (ar_state (st_value x))) session_records);
            background = length (filter (\<lambda>x. \<not> action_is_terminal (ar_state (st_value x))
                                   \<and> sa_priority (ar_action (st_value x)) = Background) session_records)
        in if queued \<ge> max_queued_per_session (inbox_config inbox) then (Inl QueueFull, s)
           else if sa_priority a = Background
             \<and> background \<ge> max_background_queued_per_session (inbox_config inbox)
           then (Inl BackgroundQueueFull, s)
           else (case checked_succ (fold max (map (\<lambda>x. ar_enqueue_sequence (st_value x)) session_records) 0) of
               None \<Rightarrow> (Inl SequenceOverflow, s)
             | Some enqueue_sequence \<Rightarrow>
                 let r = new_action_record a now enqueue_sequence
                 in (case action_put_new R C s r of
                       (Inl e, s') \<Rightarrow> (Inl e, s')
                     | (Inr _, s') \<Rightarrow> (Inr r, s')))))"

definition action_get ::
  "('s, 'j, 'e) repository \<Rightarrow> (action_record, 'j) serde \<Rightarrow> action_inbox \<Rightarrow> 's \<Rightarrow> action_id \<Rightarrow>
   action_store_error + action_record option" where
  "action_get R C inbox s i =
     (if inbox_poisoned inbox then Inl ActionLockPoisoned
      else (case action_load R C s i of Inl e \<Rightarrow> Inl e | Inr x \<Rightarrow> Inr (map_option st_value x)))"

definition list_session ::
  "('s, 'j, 'e) repository \<Rightarrow> (action_record, 'j) serde \<Rightarrow> action_inbox \<Rightarrow> 's \<Rightarrow> session_id \<Rightarrow>
   action_store_error + action_record list" where
  "list_session R C inbox s sid =
     (if inbox_poisoned inbox then Inl ActionLockPoisoned
      else (case action_load_all R C s of
          Inl e \<Rightarrow> Inl e
        | Inr records \<Rightarrow>
            Inr (sort_key action_order_key
              (map st_value (filter (\<lambda>x. sa_session_id (ar_action (st_value x)) = sid) records)))))"

definition past_deadline :: "session_id \<Rightarrow> timestamp \<Rightarrow> action_record \<Rightarrow> bool" where
  "past_deadline sid now r \<longleftrightarrow>
     sa_session_id (ar_action r) = sid \<and> ar_state r \<in> {ActionQueued, ActionWaiting}
     \<and> (case sa_deadline (ar_action r) of None \<Rightarrow> False | Some d \<Rightarrow> now \<ge> d)"

fun expire_loop ::
  "('s, 'j, 'e) repository \<Rightarrow> (action_record, 'j) serde \<Rightarrow> 's \<Rightarrow> session_id \<Rightarrow> timestamp \<Rightarrow>
   stored_action list \<Rightarrow> (action_store_error + stored_action list) \<times> 's" where
  "expire_loop R C s sid now [] = (Inr [], s)"
| "expire_loop R C s sid now (x # xs) =
     (if past_deadline sid now (st_value x)
      then (case transition_stored R C s x ActionExpired now (Some ''deadline elapsed'') of
          (Inl e, s') \<Rightarrow> (Inl e, s')
        | (Inr x', s') \<Rightarrow>
            (case expire_loop R C s' sid now xs of
               (Inl e, s'') \<Rightarrow> (Inl e, s'')
             | (Inr xs', s'') \<Rightarrow> (Inr (x' # xs'), s'')))
      else (case expire_loop R C s sid now xs of
          (Inl e, s'') \<Rightarrow> (Inl e, s'')
        | (Inr xs', s'') \<Rightarrow> (Inr (x # xs'), s'')))"

definition selectable :: "session_id \<Rightarrow> timestamp \<Rightarrow> pump_context \<Rightarrow> action_record \<Rightarrow> bool" where
  "selectable sid now ctx r \<longleftrightarrow>
     sa_session_id (ar_action r) = sid \<and> ar_state r = ActionQueued
     \<and> (case sa_not_before (ar_action r) of None \<Rightarrow> True | Some nb \<Rightarrow> now \<ge> nb)
     \<and> eligibility (ar_action r) ctx \<noteq> None"

definition select_next ::
  "('s, 'j, 'e) repository \<Rightarrow> (action_record, 'j) serde \<Rightarrow> action_inbox \<Rightarrow> 's \<Rightarrow> session_id \<Rightarrow>
   timestamp \<Rightarrow> pump_context \<Rightarrow> (action_store_error + selected_action option) \<times> 's" where
  "select_next R C inbox s sid now ctx =
     (if inbox_poisoned inbox then (Inl ActionLockPoisoned, s)
      else (case action_load_all R C s of Inl e \<Rightarrow> (Inl e, s) | Inr loaded \<Rightarrow>
       (case expire_loop R C s sid now loaded of (Inl e, s') \<Rightarrow> (Inl e, s') | (Inr records, s') \<Rightarrow>
        (case sort_key (\<lambda>x. action_order_key (st_value x))
                (filter (\<lambda>x. selectable sid now ctx (st_value x)) records) of
           [] \<Rightarrow> (Inr None, s')
         | selected # _ \<Rightarrow>
             (case eligibility (ar_action (st_value selected)) ctx of
                None \<Rightarrow> (Inl (ActionInvalid ''selected action became ineligible''), s')
              | Some kind \<Rightarrow>
                  (case transition_stored R C s' selected ActionAdmitted now None of
                     (Inl e, s'') \<Rightarrow> (Inl e, s'')
                   | (Inr x, s'') \<Rightarrow>
                       (Inr (Some \<lparr>sel_record = st_value x, sel_kind = kind\<rparr>), s'')))))))"

definition mark_running ::
  "('s, 'j, 'e) repository \<Rightarrow> (action_record, 'j) serde \<Rightarrow> action_inbox \<Rightarrow> 's \<Rightarrow> action_id \<Rightarrow>
   timestamp \<Rightarrow> (action_store_error + action_record) \<times> 's" where
  "mark_running R C inbox s i now =
     (if inbox_poisoned inbox then (Inl ActionLockPoisoned, s)
      else (case action_required R C s i of Inl e \<Rightarrow> (Inl e, s) | Inr stored \<Rightarrow>
       (case action_load_all R C s of Inl e \<Rightarrow> (Inl e, s) | Inr records \<Rightarrow>
        if list_ex (\<lambda>x. sa_session_id (ar_action (st_value x)) = sa_session_id (ar_action (st_value stored))
                        \<and> sa_id (ar_action (st_value x)) \<noteq> i
                        \<and> ar_state (st_value x) = ActionRunning) records
        then (Inl TurnAlreadyRunning, s)
        else (case transition_stored R C s stored ActionRunning now None of
            (Inl e, s') \<Rightarrow> (Inl e, s')
          | (Inr x, s') \<Rightarrow> (Inr (st_value x), s')))))"

definition action_transition ::
  "('s, 'j, 'e) repository \<Rightarrow> (action_record, 'j) serde \<Rightarrow> action_inbox \<Rightarrow> 's \<Rightarrow> action_id \<Rightarrow>
   action_state \<Rightarrow> timestamp \<Rightarrow> string option \<Rightarrow> (action_store_error + action_record) \<times> 's" where
  "action_transition R C inbox s i next now detail =
     (if inbox_poisoned inbox then (Inl ActionLockPoisoned, s)
      else (case action_required R C s i of Inl e \<Rightarrow> (Inl e, s) | Inr stored \<Rightarrow>
       (case transition_stored R C s stored next now detail of
          (Inl e, s') \<Rightarrow> (Inl e, s')
        | (Inr x, s') \<Rightarrow> (Inr (st_value x), s'))))"

definition mark_waiting where
  "mark_waiting R C inbox s i now = action_transition R C inbox s i ActionWaiting now None"

definition resume_waiting where
  "resume_waiting R C inbox s i now = action_transition R C inbox s i ActionAdmitted now None"

definition action_complete where
  "action_complete R C inbox s i now = action_transition R C inbox s i ActionCompleted now None"

definition action_fail where
  "action_fail R C inbox s i now detail =
     action_transition R C inbox s i ActionFailed now (Some detail)"

definition action_cancel where
  "action_cancel R C inbox s i now detail =
     action_transition R C inbox s i ActionCancelled now (Some detail)"

section \<open>Specification\<close>

type_synonym action_table = "action_id \<Rightarrow> action_record option"

definition actions_of :: "(action_record, 'j) serde \<Rightarrow> 'j view \<Rightarrow> action_table" where
  "actions_of C v = records_of st_value (action_decode C) v"

abbreviation in_session :: "session_id \<Rightarrow> action_record \<Rightarrow> bool" where
  "in_session sid r \<equiv> sa_session_id (ar_action r) = sid"

definition live_in :: "action_table \<Rightarrow> session_id \<Rightarrow> action_id set" where
  "live_in A sid =
     {i. \<exists>r. A i = Some r \<and> in_session sid r \<and> \<not> action_is_terminal (ar_state r)}"

definition background_in :: "action_table \<Rightarrow> session_id \<Rightarrow> action_id set" where
  "background_in A sid =
     {i \<in> live_in A sid. \<exists>r. A i = Some r \<and> sa_priority (ar_action r) = Background}"

inductive inbox_spec :: "action_inbox_config \<Rightarrow> action_table \<Rightarrow> action_table \<Rightarrow> bool"
  for cfg where
  submitted:
    "\<lbrakk>A (sa_id a) = None; validate_action a = Inr ();
      card (live_in A (sa_session_id a)) < max_queued_per_session cfg;
      sa_priority a = Background \<Longrightarrow>
        card (background_in A (sa_session_id a)) < max_background_queued_per_session cfg;
      \<And>j q. A j = Some q \<Longrightarrow> in_session (sa_session_id a) q \<Longrightarrow> ar_enqueue_sequence q < ar_enqueue_sequence r;
      ar_version r = CURRENT_SCHEMA_VERSION; ar_action r = a;
      ar_state r \<in> {ActionQueued, ActionExpired}; ar_revision r = revision_zero\<rbrakk>
     \<Longrightarrow> inbox_spec cfg A (A(sa_id a \<mapsto> r))"
| moved:
    "\<lbrakk>A i = Some r; action_allows (ar_state r) next; ar_revision r < n;
      next = ActionRunning \<Longrightarrow>
        \<forall>j q. A j = Some q \<longrightarrow> j \<noteq> i \<longrightarrow> in_session (sa_session_id (ar_action r)) q
          \<longrightarrow> ar_state q \<noteq> ActionRunning\<rbrakk>
     \<Longrightarrow> inbox_spec cfg A (A(i \<mapsto> r\<lparr>ar_state := next, ar_revision := n, ar_updated_at := now,
                                  ar_terminal_detail := detail\<rparr>))"

definition one_running :: "action_table \<Rightarrow> bool" where
  "one_running A \<longleftrightarrow>
     (\<forall>i j p q. A i = Some p \<longrightarrow> A j = Some q \<longrightarrow> ar_state p = ActionRunning \<longrightarrow>
        ar_state q = ActionRunning \<longrightarrow> sa_session_id (ar_action p) = sa_session_id (ar_action q) \<longrightarrow> i = j)"

definition sequence_unique :: "action_table \<Rightarrow> bool" where
  "sequence_unique A \<longleftrightarrow>
     (\<forall>i j p q. A i = Some p \<longrightarrow> A j = Some q \<longrightarrow> ar_enqueue_sequence p = ar_enqueue_sequence q \<longrightarrow>
        sa_session_id (ar_action p) = sa_session_id (ar_action q) \<longrightarrow> i = j)"

definition queues_bounded :: "action_inbox_config \<Rightarrow> action_table \<Rightarrow> bool" where
  "queues_bounded cfg A \<longleftrightarrow>
     (\<forall>sid. card (live_in A sid) \<le> max_queued_per_session cfg
        \<and> card (background_in A sid) \<le> max_background_queued_per_session cfg)"

definition inbox_inv :: "action_inbox_config \<Rightarrow> action_table \<Rightarrow> bool" where
  "inbox_inv cfg A \<longleftrightarrow>
     finite (dom A) \<and> one_running A \<and> sequence_unique A \<and> queues_bounded cfg A
     \<and> (\<forall>i r. A i = Some r \<longrightarrow> sa_id (ar_action r) = i \<and> validate_action (ar_action r) = Inr ())"

text \<open>
  The changes of the store that the public operations of the inbox make, whatever they return,
  interleaved with changes elsewhere in the store that leave the inbox's collection alone.
\<close>

inductive inbox_op ::
  "('s, 'j, 'e) repository \<Rightarrow> ('s \<Rightarrow> 'j view) \<Rightarrow> ('s \<Rightarrow> bool) \<Rightarrow> (action_record, 'j) serde \<Rightarrow>
   action_inbox \<Rightarrow> 's \<Rightarrow> 's \<Rightarrow> bool"
  for R view wf C inbox where
  op_submit: "submit R C inbox s a now = (res, s') \<Longrightarrow> inbox_op R view wf C inbox s s'"
| op_select: "select_next R C inbox s sid now ctx = (res', s') \<Longrightarrow> inbox_op R view wf C inbox s s'"
| op_running: "mark_running R C inbox s i now = (res, s') \<Longrightarrow> inbox_op R view wf C inbox s s'"
| op_waiting: "mark_waiting R C inbox s i now = (res, s') \<Longrightarrow> inbox_op R view wf C inbox s s'"
| op_resume: "resume_waiting R C inbox s i now = (res, s') \<Longrightarrow> inbox_op R view wf C inbox s s'"
| op_complete: "action_complete R C inbox s i now = (res, s') \<Longrightarrow> inbox_op R view wf C inbox s s'"
| op_fail: "action_fail R C inbox s i now d = (res, s') \<Longrightarrow> inbox_op R view wf C inbox s s'"
| op_cancel: "action_cancel R C inbox s i now d = (res, s') \<Longrightarrow> inbox_op R view wf C inbox s s'"
| op_elsewhere: "wf s' \<Longrightarrow> view s' = view s \<Longrightarrow> inbox_op R view wf C inbox s s'"

section \<open>The specification keeps the invariant\<close>

lemma live_in_upd_new:
  "A i = None \<Longrightarrow> live_in (A(i \<mapsto> r)) sid =
     (if in_session sid r \<and> \<not> action_is_terminal (ar_state r) then insert i (live_in A sid) else live_in A sid)"
  by (auto simp: live_in_def)

lemma background_in_upd_new:
  "A i = None \<Longrightarrow> background_in (A(i \<mapsto> r)) sid =
     (if in_session sid r \<and> \<not> action_is_terminal (ar_state r) \<and> sa_priority (ar_action r) = Background
      then insert i (background_in A sid) else background_in A sid)"
  by (auto simp: background_in_def live_in_def)

lemma live_in_upd_moved:
  "A i = Some p \<Longrightarrow> \<not> action_is_terminal (ar_state p) \<Longrightarrow> ar_action r = ar_action p \<Longrightarrow>
   live_in (A(i \<mapsto> r)) sid \<subseteq> live_in A sid"
  by (auto simp: live_in_def split: if_splits)

lemma background_in_upd_moved:
  "A i = Some p \<Longrightarrow> \<not> action_is_terminal (ar_state p) \<Longrightarrow> ar_action r = ar_action p \<Longrightarrow>
   background_in (A(i \<mapsto> r)) sid \<subseteq> background_in A sid"
  by (auto simp: background_in_def live_in_def split: if_splits)

lemma live_in_finite: "finite (dom A) \<Longrightarrow> finite (live_in A sid)"
  by (rule finite_subset [of _ "dom A"]) (auto simp: live_in_def)

lemma background_in_finite: "finite (dom A) \<Longrightarrow> finite (background_in A sid)"
  using live_in_finite by (auto simp: background_in_def)

lemma live_in_fresh: "A i = None \<Longrightarrow> i \<notin> live_in A sid"
  by (simp add: live_in_def)

lemma background_in_fresh: "A i = None \<Longrightarrow> i \<notin> background_in A sid"
  by (simp add: background_in_def)

lemma action_allows_live: "action_allows st next \<Longrightarrow> \<not> action_is_terminal st"
  by (cases st) (simp_all add: action_is_terminal_def)

lemma action_terminal_final: "action_is_terminal st \<Longrightarrow> \<not> action_allows st next"
  using action_allows_live by blast

lemma queues_bounded_new:
  assumes "finite (dom A)" and "queues_bounded cfg A" and "A i = None"
    and "card (live_in A (sa_session_id (ar_action r))) < max_queued_per_session cfg"
    and "sa_priority (ar_action r) = Background \<Longrightarrow>
      card (background_in A (sa_session_id (ar_action r))) < max_background_queued_per_session cfg"
  shows "queues_bounded cfg (A(i \<mapsto> r))"
  using assms
  by (auto simp: queues_bounded_def live_in_upd_new background_in_upd_new live_in_finite
      background_in_finite live_in_fresh background_in_fresh)

lemma queues_bounded_moved:
  assumes "finite (dom A)" and "queues_bounded cfg A" and "A i = Some p"
    and "\<not> action_is_terminal (ar_state p)" and "ar_action r = ar_action p"
  shows "queues_bounded cfg (A(i \<mapsto> r))"
  unfolding queues_bounded_def
proof (intro allI conjI)
  fix sid
  show "card (live_in (A(i \<mapsto> r)) sid) \<le> max_queued_per_session cfg"
    using card_mono [OF live_in_finite live_in_upd_moved, OF assms(1,3,4,5)] assms(2)
    by (meson order_trans queues_bounded_def)
  show "card (background_in (A(i \<mapsto> r)) sid) \<le> max_background_queued_per_session cfg"
    using card_mono [OF background_in_finite background_in_upd_moved, OF assms(1,3,4,5)] assms(2)
    by (meson order_trans queues_bounded_def)
qed

lemma one_running_new:
  "one_running A \<Longrightarrow> A i = None \<Longrightarrow> ar_state r \<noteq> ActionRunning \<Longrightarrow> one_running (A(i \<mapsto> r))"
  by (auto simp: one_running_def)

lemma one_running_moved:
  assumes "one_running A" and "A i = Some p" and "ar_action r = ar_action p"
    and "ar_state r = ActionRunning \<Longrightarrow>
      \<forall>j q. A j = Some q \<longrightarrow> j \<noteq> i \<longrightarrow> in_session (sa_session_id (ar_action p)) q \<longrightarrow> ar_state q \<noteq> ActionRunning"
  shows "one_running (A(i \<mapsto> r))"
  using assms unfolding one_running_def by (auto split: if_splits)

lemma sequence_unique_new:
  assumes "sequence_unique A" and "A i = None"
    and "\<And>j q. A j = Some q \<Longrightarrow> in_session (sa_session_id (ar_action r)) q \<Longrightarrow>
      ar_enqueue_sequence q < ar_enqueue_sequence r"
  shows "sequence_unique (A(i \<mapsto> r))"
  using assms unfolding sequence_unique_def by (auto split: if_splits) (metis order_less_irrefl)+

lemma sequence_unique_moved:
  assumes "sequence_unique A" and "A i = Some p" and "ar_action r = ar_action p"
    and "ar_enqueue_sequence r = ar_enqueue_sequence p"
  shows "sequence_unique (A(i \<mapsto> r))"
  using assms unfolding sequence_unique_def by (auto split: if_splits)

lemma inbox_inv_empty: "inbox_inv cfg Map.empty"
  by (simp add: inbox_inv_def one_running_def sequence_unique_def queues_bounded_def live_in_def
      background_in_def)

lemma inbox_spec_inv: "inbox_spec cfg A A' \<Longrightarrow> inbox_inv cfg A \<Longrightarrow> inbox_inv cfg A'"
proof (induction rule: inbox_spec.induct)
  case (submitted A a r)
  note inv = submitted.prems [unfolded inbox_inv_def]
  have "one_running (A(sa_id a \<mapsto> r))"
    using inv submitted.hyps by (intro one_running_new) auto
  moreover have "sequence_unique (A(sa_id a \<mapsto> r))"
    using inv submitted.hyps by (intro sequence_unique_new) auto
  moreover have "queues_bounded cfg (A(sa_id a \<mapsto> r))"
    using inv submitted.hyps by (intro queues_bounded_new) auto
  ultimately show ?case using inv submitted.hyps by (simp add: inbox_inv_def del: fun_upd_apply) (simp add: fun_upd_apply)
next
  case (moved A i r "next" n detail now)
  note inv = moved.prems [unfolded inbox_inv_def]
  let ?r = "r\<lparr>ar_state := next, ar_revision := n, ar_updated_at := now, ar_terminal_detail := detail\<rparr>"
  have "one_running (A(i \<mapsto> ?r))"
    using inv moved.hyps by (intro one_running_moved [of A i r]) auto
  moreover have "sequence_unique (A(i \<mapsto> ?r))"
    using inv moved.hyps by (intro sequence_unique_moved [of A i r]) auto
  moreover have "queues_bounded cfg (A(i \<mapsto> ?r))"
    using inv moved.hyps action_allows_live by (intro queues_bounded_moved [of A cfg i r]) auto
  ultimately show ?case using inv moved.hyps by (simp add: inbox_inv_def del: fun_upd_apply) (simp add: fun_upd_apply)
qed

lemma inbox_spec_star_inv: "(inbox_spec cfg)\<^sup>*\<^sup>* A A' \<Longrightarrow> inbox_inv cfg A \<Longrightarrow> inbox_inv cfg A'"
  by (induction rule: rtranclp_induct) (auto intro: inbox_spec_inv)

text \<open>Records are never lost; their action and arrival number never change; their state only
  moves along the lifecycle, and a change raises the revision.\<close>

definition action_later :: "action_record \<Rightarrow> action_record \<Rightarrow> bool" where
  "action_later r r' \<longleftrightarrow>
     ar_action r' = ar_action r \<and> ar_enqueue_sequence r' = ar_enqueue_sequence r
     \<and> action_allows\<^sup>*\<^sup>* (ar_state r) (ar_state r')
     \<and> (r' = r \<or> ar_revision r < ar_revision r' \<and> \<not> action_is_terminal (ar_state r))"

lemma action_later_refl [simp]: "action_later r r"
  by (simp add: action_later_def)

lemma action_later_trans: "action_later p q \<Longrightarrow> action_later q r \<Longrightarrow> action_later p r"
  unfolding action_later_def by (metis order_less_trans rtranclp_trans)

lemma inbox_spec_later:
  "inbox_spec cfg A A' \<Longrightarrow> A i = Some r \<Longrightarrow> \<exists>r'. A' i = Some r' \<and> action_later r r'"
  by (induction rule: inbox_spec.induct) (auto simp: action_later_def dest: action_allows_live)

lemma inbox_spec_star_later:
  "(inbox_spec cfg)\<^sup>*\<^sup>* A A' \<Longrightarrow> A i = Some r \<Longrightarrow> \<exists>r'. A' i = Some r' \<and> action_later r r'"
proof (induction rule: rtranclp_induct)
  case base
  then show ?case by auto
next
  case (step B B')
  then show ?case by (meson action_later_trans inbox_spec_later)
qed

section \<open>The operations implement the specification\<close>

lemma action_decode_stored:
  "action_decode C vr = Inr x \<Longrightarrow>
     st_storage_revision x = ar_revision (st_value x)
     \<and> version_supported (ar_version (st_value x)) \<and> sa_id (ar_action (st_value x)) = vr_id vr
     \<and> ar_revision (st_value x) = vr_revision vr"
  by (auto simp: action_decode_def version_supported_def split: sum.splits if_splits)

lemma action_encode_fields:
  "action_encode C r = Inr vr \<Longrightarrow> vr_id vr = sa_id (ar_action r) \<and> vr_revision vr = ar_revision r"
  by (auto simp: action_encode_def split: sum.splits)

lemma action_encode_decode:
  assumes "serde_ok C" and "action_encode C r = Inr vr" and "version_supported (ar_version r)"
  shows "\<exists>x. action_decode C vr = Inr x \<and> st_value x = r"
proof -
  obtain j where j: "to_value C r = Inr j" using assms(2) by (auto simp: action_encode_def split: sum.splits)
  show ?thesis
    using assms(2,3) j serde_okD [OF assms(1) j]
    by (auto simp: action_encode_def action_decode_def version_supported_def)
qed

text \<open>One transition: the record is unchanged, or moved along the lifecycle with the next revision.\<close>

definition moved_record :: "action_record \<Rightarrow> action_state \<Rightarrow> timestamp \<Rightarrow> string option \<Rightarrow> action_record" where
  "moved_record r next now detail =
     r\<lparr>ar_state := next, ar_revision := ar_revision r + 1, ar_updated_at := now,
       ar_terminal_detail := detail\<rparr>"

lemma moved_record_simps [simp]:
  "ar_action (moved_record r next now detail) = ar_action r"
  "ar_revision (moved_record r next now detail) = ar_revision r + 1"
  "ar_version (moved_record r next now detail) = ar_version r"
  "ar_state (moved_record r next now detail) = next"
  "ar_enqueue_sequence (moved_record r next now detail) = ar_enqueue_sequence r"
  by (simp_all add: moved_record_def)

lemma transition_stored_cases:
  assumes "transition_stored R C s x next now detail = (res, s')"
    and "st_storage_revision x = ar_revision (st_value x)"
  obtains (refused) e where "res = Inl e" "s' = s"
    | (written) vr r0 where "action_allows (ar_state (st_value x)) next"
        "action_encode C (moved_record (st_value x) next now detail) = Inr vr"
        "repo_put R s vr (Exact (ar_revision (st_value x))) = (r0, s')"
        "\<And>e. r0 = Inl e \<Longrightarrow> \<exists>e'. res = Inl e'"
        "\<And>y. res = Inr y \<Longrightarrow> y = \<lparr>st_value = moved_record (st_value x) next now detail,
             st_storage_revision = ar_revision (st_value x) + 1\<rparr>"
proof (cases "action_allows (ar_state (st_value x)) next")
  case False
  then show ?thesis using assms(1) refused by (auto simp: transition_stored_def)
next
  case allowed: True
  show ?thesis
  proof (cases "checked_next (ar_revision (st_value x))")
    case None
    then show ?thesis using assms allowed refused by (auto simp: transition_stored_def)
  next
    case (Some n)
    note n = checked_next_eq [OF Some]
    show ?thesis
    proof (cases "action_encode C (moved_record (st_value x) next now detail)")
      case (Inl e)
      then show ?thesis
        using assms allowed Some refused by (auto simp: transition_stored_def n moved_record_def)
    next
      case (Inr vr)
      then show ?thesis
        using assms allowed Some written [OF allowed Inr]
        by (auto simp: transition_stored_def n moved_record_def split: prod.splits sum.splits)
    qed
  qed
qed

locale inbox_store = repository_laws R view wf
  for R :: "('s, 'j, 'e) repository" and view :: "'s \<Rightarrow> 'j view" and wf :: "'s \<Rightarrow> bool" +
  fixes C :: "(action_record, 'j) serde"
  assumes codec: "wf s \<Longrightarrow> serde_ok C"

sublocale inbox_store \<subseteq> typed_store R view wf "action_encode C" "action_decode C" st_value
  "\<lambda>r. sa_id (ar_action r)" ar_revision "\<lambda>r. version_supported (ar_version r)"
  using codec by unfold_locales (auto dest: action_encode_fields action_encode_decode action_decode_stored)

context inbox_store
begin

abbreviation acts :: "'s \<Rightarrow> action_table" where
  "acts s \<equiv> actions_of C (view s)"

lemmas acts_tab = actions_of_def [of C, symmetric]

lemmas acts_key = tab_key [unfolded acts_tab]

lemma acts_supported: "acts s i = Some r \<Longrightarrow> version_supported (ar_version r)"
  using tab_good by (simp add: actions_of_def)

lemma action_load_acts:
  assumes "wf s" and "action_load R C s i = Inr found"
  shows "acts s i = map_option st_value found \<and>
    (\<forall>x. found = Some x \<longrightarrow> st_storage_revision x = ar_revision (st_value x) \<and> sa_id (ar_action (st_value x)) = i)"
  using assms get_tab [OF assms(1)] get_tab_None [OF assms(1)]
  by (auto simp: action_load_def actions_of_def split: sum.splits option.splits dest: action_decode_stored)

lemma action_required_acts:
  assumes "wf s" and "action_required R C s i = Inr x"
  shows "acts s i = Some (st_value x)" and "st_storage_revision x = ar_revision (st_value x)"
    and "sa_id (ar_action (st_value x)) = i"
  using assms(2) action_load_acts [OF assms(1), of i]
  by (auto simp: action_required_def split: sum.splits option.splits)

lemma load_all_acts:
  assumes "wf s" and "action_load_all R C s = Inr xs"
  shows load_all_iff: "r \<in> st_value ` set xs \<longleftrightarrow> acts s (sa_id (ar_action r)) = Some r"
    and load_all_distinct: "distinct (map (\<lambda>x. sa_id (ar_action (st_value x))) xs)"
    and load_all_complete: "acts s i = Some r \<Longrightarrow> \<exists>x \<in> set xs. st_value x = r"
    and load_all_revision: "x \<in> set xs \<Longrightarrow> st_storage_revision x = ar_revision (st_value x)"
    and load_all_finite: "finite (dom (acts s))"
proof -
  obtain rs where rs: "repo_list R s = Inr rs" "collect_results (map (action_decode C) rs) = Inr xs"
    using assms(2) by (auto simp: action_load_all_def split: sum.splits)
  note l = list_tab [OF assms(1) rs, unfolded acts_tab]
  show "r \<in> st_value ` set xs \<longleftrightarrow> acts s (sa_id (ar_action r)) = Some r" by (rule l(1))
  show "distinct (map (\<lambda>x. sa_id (ar_action (st_value x))) xs)" using l(2) by (simp add: comp_def)
  show "acts s i = Some r \<Longrightarrow> \<exists>x \<in> set xs. st_value x = r" by (rule l(3))
  show "finite (dom (acts s))" by (rule l(5))
  assume "x \<in> set xs"
  then obtain vr where "action_decode C vr = Inr x"
    using collect_results_mapD [OF rs(2)] by (metis in_set_conv_nth)
  then show "st_storage_revision x = ar_revision (st_value x)"
    using action_decode_stored by blast
qed

lemma load_all_mem:
  assumes "wf s" and "action_load_all R C s = Inr xs" and "x \<in> set xs"
  shows "acts s (sa_id (ar_action (st_value x))) = Some (st_value x)"
  using load_all_iff [OF assms(1,2)] assms(3) by blast

lemma transition_stored_acts:
  assumes "wf s" and "acts s (sa_id (ar_action (st_value x))) = Some (st_value x)"
    and "st_storage_revision x = ar_revision (st_value x)"
    and "transition_stored R C s x next now detail = (res, s')"
  shows "wf s' \<and> (acts s' = acts s \<and> (\<exists>e. res = Inl e)
    \<or> action_allows (ar_state (st_value x)) next
      \<and> ar_revision (st_value x) < ar_revision (moved_record (st_value x) next now detail)
      \<and> acts s' = (acts s)(sa_id (ar_action (st_value x)) \<mapsto> moved_record (st_value x) next now detail)
      \<and> (\<forall>y. res = Inr y \<longrightarrow> y = \<lparr>st_value = moved_record (st_value x) next now detail,
             st_storage_revision = ar_revision (st_value x) + 1\<rparr>))"
  using assms(4,3)
proof (cases rule: transition_stored_cases)
  case (refused e)
  then show ?thesis using assms(1) by simp
next
  case (written vr r0)
  have good: "version_supported (ar_version (moved_record (st_value x) next now detail))"
    using acts_supported [OF assms(2)] by simp
  have "wf s'" and "acts s' = acts s \<and> (\<exists>e. r0 = Inl e)
    \<or> ar_revision (st_value x) < ar_revision (st_value x) + 1
      \<and> acts s' = (acts s)(sa_id (ar_action (st_value x)) \<mapsto> moved_record (st_value x) next now detail)"
    using put_exact_tab [OF assms(1) written(2) good written(3), unfolded acts_tab] by simp_all
  then show ?thesis using written(1,4,5) by (metis moved_record_simps(2))
qed

lemma transition_stored_spec:
  assumes "wf s" and "acts s (sa_id (ar_action (st_value x))) = Some (st_value x)"
    and "st_storage_revision x = ar_revision (st_value x)"
    and "transition_stored R C s x next now detail = (res, s')"
    and "next = ActionRunning \<Longrightarrow>
        \<forall>j q. acts s j = Some q \<longrightarrow> j \<noteq> sa_id (ar_action (st_value x))
          \<longrightarrow> in_session (sa_session_id (ar_action (st_value x))) q \<longrightarrow> ar_state q \<noteq> ActionRunning"
  shows "wf s' \<and> (inbox_spec cfg)\<^sup>*\<^sup>* (acts s) (acts s')"
proof -
  note step = transition_stored_acts [OF assms(1-4)]
  show ?thesis
  proof (cases "acts s' = acts s")
    case True
    then show ?thesis using step by simp
  next
    case False
    then have "inbox_spec cfg (acts s)
        ((acts s)(sa_id (ar_action (st_value x)) \<mapsto> moved_record (st_value x) next now detail))"
      unfolding moved_record_def using step assms(2,5) by (intro inbox_spec.moved) auto
    then show ?thesis using step False by auto
  qed
qed

lemma action_transition_spec:
  assumes "wf s" and "action_transition R C inbox s i next now detail = (res, s')" and "next \<noteq> ActionRunning"
  shows "wf s' \<and> (inbox_spec cfg)\<^sup>*\<^sup>* (acts s) (acts s')"
proof (cases "inbox_poisoned inbox \<or> (\<exists>e. action_required R C s i = Inl e)")
  case True
  then show ?thesis using assms by (auto simp: action_transition_def split: if_splits)
next
  case False
  then obtain x where x: "action_required R C s i = Inr x" "\<not> inbox_poisoned inbox"
    by (cases "action_required R C s i") auto
  obtain r0 where "transition_stored R C s x next now detail = (r0, s')"
    using assms(2) x by (auto simp: action_transition_def split: prod.splits sum.splits)
  then show ?thesis
    using action_required_acts [OF assms(1) x(1)] assms(1,3) by (intro transition_stored_spec) auto
qed

lemma mark_running_spec:
  assumes "wf s" and "mark_running R C inbox s i now = (res, s')"
  shows "wf s' \<and> (inbox_spec cfg)\<^sup>*\<^sup>* (acts s) (acts s')"
proof (cases "s' = s")
  case True
  then show ?thesis using assms(1) by simp
next
  case False
  then obtain x xs r0 where x: "action_required R C s i = Inr x" "action_load_all R C s = Inr xs"
    and none: "\<not> list_ex (\<lambda>x'. in_session (sa_session_id (ar_action (st_value x))) (st_value x')
        \<and> sa_id (ar_action (st_value x')) \<noteq> i \<and> ar_state (st_value x') = ActionRunning) xs"
    and tr: "transition_stored R C s x ActionRunning now None = (r0, s')"
    using assms(2) by (auto simp: mark_running_def split: if_splits sum.splits prod.splits)
  note xx = action_required_acts [OF assms(1) x(1)]
  have "ar_state q \<noteq> ActionRunning"
    if q: "acts s j = Some q" "j \<noteq> i" "in_session (sa_session_id (ar_action (st_value x))) q" for j q
    using load_all_complete [OF assms(1) x(2) q(1)] acts_key [OF assms(1) q(1)] q none
    by (auto simp: list_ex_iff)
  then show ?thesis using assms(1) xx tr by (intro transition_stored_spec) auto
qed
end

lemma fold_max_bounds:
  fixes z :: "'a::linorder"
  shows "z \<le> fold max xs z \<and> (\<forall>x \<in> set xs. x \<le> fold max xs z)"
proof (induction xs arbitrary: z)
  case Nil
  then show ?case by simp
next
  case (Cons x xs)
  have "max x z \<le> fold max xs (max x z)" using Cons by blast
  then show ?case using Cons [of "max x z"] by auto
qed

lemma new_action_record_simps [simp]:
  "ar_version (new_action_record a now n) = CURRENT_SCHEMA_VERSION"
  "ar_action (new_action_record a now n) = a"
  "ar_state (new_action_record a now n) = ActionQueued \<or> ar_state (new_action_record a now n) = ActionExpired"
  "ar_enqueue_sequence (new_action_record a now n) = n"
  "ar_revision (new_action_record a now n) = revision_zero"
  by (simp_all add: new_action_record_def Let_def)

text \<open>What \<open>submit\<close> has checked when it writes.\<close>

lemma submit_cases:
  assumes "submit R C inbox s a now = (res, s')"
  obtains (refused) e where "res = Inl e" "s' = s"
    | (written) xs n r0 where "validate_action a = Inr ()" "action_load_all R C s = Inr xs"
        "length (filter (\<lambda>x. \<not> action_is_terminal (ar_state (st_value x)))
           (filter (\<lambda>x. in_session (sa_session_id a) (st_value x)) xs)) < max_queued_per_session (inbox_config inbox)"
        "sa_priority a = Background \<Longrightarrow> length (filter (\<lambda>x. \<not> action_is_terminal (ar_state (st_value x))
             \<and> sa_priority (ar_action (st_value x)) = Background)
           (filter (\<lambda>x. in_session (sa_session_id a) (st_value x)) xs)) < max_background_queued_per_session (inbox_config inbox)"
        "checked_succ (fold max (map (\<lambda>x. ar_enqueue_sequence (st_value x))
           (filter (\<lambda>x. in_session (sa_session_id a) (st_value x)) xs)) 0) = Some n"
        "action_put_new R C s (new_action_record a now n) = (r0, s')"
        "\<And>e. r0 = Inl e \<Longrightarrow> res = Inl e"
        "\<And>y. res = Inr y \<Longrightarrow> y = new_action_record a now n"
proof (cases "\<exists>e. res = Inl e \<and> s' = s")
  case True
  then show ?thesis using refused by blast
next
  case False
  then obtain xs where xs: "validate_action a = Inr ()" "\<not> inbox_poisoned inbox" "action_load_all R C s = Inr xs"
    using assms by (auto simp: submit_def split: sum.splits if_splits)
  define sess where "sess = filter (\<lambda>x. in_session (sa_session_id a) (st_value x)) xs"
  have body: "(if list_ex (\<lambda>x. sa_id (ar_action (st_value x)) = sa_id a) xs
       then (Inl (ActionInvalid ''action ID already exists''), s)
       else if max_queued_per_session (inbox_config inbox)
           \<le> length (filter (\<lambda>x. \<not> action_is_terminal (ar_state (st_value x))) sess) then (Inl QueueFull, s)
       else if sa_priority a = Background \<and> max_background_queued_per_session (inbox_config inbox)
           \<le> length (filter (\<lambda>x. \<not> action_is_terminal (ar_state (st_value x))
                \<and> sa_priority (ar_action (st_value x)) = Background) sess) then (Inl BackgroundQueueFull, s)
       else (case checked_succ (fold max (map (\<lambda>x. ar_enqueue_sequence (st_value x)) sess) 0) of
           None \<Rightarrow> (Inl SequenceOverflow, s)
         | Some n \<Rightarrow> (case action_put_new R C s (new_action_record a now n) of
              (Inl e, s') \<Rightarrow> (Inl e, s') | (Inr _, s') \<Rightarrow> (Inr (new_action_record a now n), s')))) = (res, s')"
    using assms by (simp only: submit_def Let_def sess_def xs sum.case if_False)
  obtain n where n: "checked_succ (fold max (map (\<lambda>x. ar_enqueue_sequence (st_value x)) sess) 0) = Some n"
    using body False by (auto split: if_splits option.splits)
  obtain r0 s0 where put: "action_put_new R C s (new_action_record a now n) = (r0, s0)" by fastforce
  show ?thesis
  proof (rule written [OF xs(1,3), folded sess_def, OF _ _ n])
    show "action_put_new R C s (new_action_record a now n) = (r0, s')"
      using body False n put by (auto split: if_splits sum.splits)
  qed (use body False n put in \<open>auto split: if_splits sum.splits\<close>)
qed

context inbox_store
begin

lemma action_put_new_acts:
  assumes "wf s" and "ar_version r = CURRENT_SCHEMA_VERSION" and "action_put_new R C s r = (res, s')"
  shows "wf s' \<and> (acts s' = acts s \<and> (\<exists>e. res = Inl e)
    \<or> acts s (sa_id (ar_action r)) = None \<and> acts s' = (acts s)(sa_id (ar_action r) \<mapsto> r))"
proof (cases "action_encode C r")
  case (Inl e)
  then show ?thesis using assms(1,3) by (auto simp: action_put_new_def)
next
  case (Inr vr)
  obtain r0 s0 where put: "repo_put R s vr Missing = (r0, s0)" by fastforce
  then have "s' = s0" "\<exists>e. r0 = Inl e \<Longrightarrow> \<exists>e. res = Inl e"
    using assms(3) Inr by (auto simp: action_put_new_def split: sum.splits)
  then show ?thesis
    using put_new_tab [OF assms(1) Inr _ put, unfolded acts_tab] assms(2) by auto
qed

lemma live_count:
  assumes "wf s" and "action_load_all R C s = Inr xs"
  shows "length (filter (\<lambda>x. \<not> action_is_terminal (ar_state (st_value x)))
           (filter (\<lambda>x. in_session sid (st_value x)) xs)) = card (live_in (acts s) sid)"
  unfolding filter_filter
proof (rule length_filter_card [OF load_all_distinct [OF assms]])
  show "(in_session sid (st_value x) \<and> \<not> action_is_terminal (ar_state (st_value x)))
      = (sa_id (ar_action (st_value x)) \<in> live_in (acts s) sid)" if "x \<in> set xs" for x
    using load_all_mem [OF assms that] by (auto simp: live_in_def)
  show "live_in (acts s) sid \<subseteq> (\<lambda>x. sa_id (ar_action (st_value x))) ` set xs"
    using load_all_complete [OF assms] acts_key [OF assms(1)] by (fastforce simp: live_in_def)
qed

lemma background_count:
  assumes "wf s" and "action_load_all R C s = Inr xs"
  shows "length (filter (\<lambda>x. \<not> action_is_terminal (ar_state (st_value x))
             \<and> sa_priority (ar_action (st_value x)) = Background)
           (filter (\<lambda>x. in_session sid (st_value x)) xs)) = card (background_in (acts s) sid)"
  unfolding filter_filter
proof (rule length_filter_card [OF load_all_distinct [OF assms]])
  show "(in_session sid (st_value x) \<and> \<not> action_is_terminal (ar_state (st_value x))
        \<and> sa_priority (ar_action (st_value x)) = Background)
      = (sa_id (ar_action (st_value x)) \<in> background_in (acts s) sid)" if "x \<in> set xs" for x
    using load_all_mem [OF assms that] by (auto simp: live_in_def background_in_def)
  show "background_in (acts s) sid \<subseteq> (\<lambda>x. sa_id (ar_action (st_value x))) ` set xs"
    using load_all_complete [OF assms] acts_key [OF assms(1)] by (fastforce simp: live_in_def background_in_def)
qed

lemma submit_acts:
  assumes "wf s" and "submit R C inbox s a now = (res, s')"
  shows "wf s' \<and> (acts s' = acts s \<and> (\<exists>e. res = Inl e)
    \<or> inbox_spec (inbox_config inbox) (acts s) (acts s') \<and> (\<forall>r. res = Inr r \<longrightarrow> acts s' = (acts s)(sa_id a \<mapsto> r)))"
  using assms(2)
proof (cases rule: submit_cases)
  case (refused e)
  then show ?thesis using assms(1) by simp
next
  case (written xs n r0)
  let ?r = "new_action_record a now n"
  have put: "wf s' \<and> (acts s' = acts s \<and> (\<exists>e. r0 = Inl e)
      \<or> acts s (sa_id a) = None \<and> acts s' = (acts s)(sa_id a \<mapsto> ?r))"
    using action_put_new_acts [OF assms(1) _ written(6)] by simp
  have later: "ar_enqueue_sequence q < n" if q: "acts s j = Some q" "in_session (sa_session_id a) q" for j q
  proof -
    obtain x where "x \<in> set xs" "st_value x = q" using load_all_complete [OF assms(1) written(2) q(1)] by blast
    then have "ar_enqueue_sequence q \<le> fold max (map (\<lambda>x. ar_enqueue_sequence (st_value x))
           (filter (\<lambda>x. in_session (sa_session_id a) (st_value x)) xs)) 0"
      using fold_max_bounds [of 0] q(2) by fastforce
    then show ?thesis using checked_succ_less [OF written(5)] by simp
  qed
  have "inbox_spec (inbox_config inbox) (acts s) ((acts s)(sa_id a \<mapsto> ?r))" if "acts s (sa_id a) = None"
    using that written(1) later written(3) [unfolded live_count [OF assms(1) written(2)]]
      written(4) [unfolded background_count [OF assms(1) written(2)]]
    by (intro inbox_spec.submitted) simp_all
  then show ?thesis using put written(7,8) by metis
qed

end

definition expire_record :: "timestamp \<Rightarrow> action_record \<Rightarrow> action_record" where
  "expire_record now r = moved_record r ActionExpired now (Some ''deadline elapsed'')"

text \<open>The inbox after expiry: due queued and waiting actions of the session are expired.\<close>

definition expire_table :: "session_id \<Rightarrow> timestamp \<Rightarrow> action_table \<Rightarrow> action_table" where
  "expire_table sid now A i =
     map_option (\<lambda>r. if past_deadline sid now r then expire_record now r else r) (A i)"

context inbox_store
begin

abbreviation action_key :: "stored_action \<Rightarrow> action_id" where
  "action_key x \<equiv> sa_id (ar_action (st_value x))"

abbreviation loaded :: "'s \<Rightarrow> stored_action list \<Rightarrow> bool" where
  "loaded s xs \<equiv> distinct (map action_key xs)
     \<and> (\<forall>x \<in> set xs. acts s (action_key x) = Some (st_value x) \<and> st_storage_revision x = ar_revision (st_value x))"

lemma load_all_loaded: "wf s \<Longrightarrow> action_load_all R C s = Inr xs \<Longrightarrow> loaded s xs"
  using load_all_distinct load_all_mem load_all_revision by blast

lemma expire_step:
  assumes "wf s" and "loaded s (x # xs)"
    and "transition_stored R C s x ActionExpired now (Some ''deadline elapsed'') = (t, s1)"
  shows "wf s1 \<and> (inbox_spec cfg)\<^sup>*\<^sup>* (acts s) (acts s1)
    \<and> (\<forall>x'. t = Inr x' \<longrightarrow> loaded s1 xs \<and> acts s1 = (acts s)(action_key x \<mapsto> expire_record now (st_value x))
        \<and> st_value x' = expire_record now (st_value x) \<and> st_storage_revision x' = ar_revision (st_value x'))"
proof -
  have x: "acts s (action_key x) = Some (st_value x)" "st_storage_revision x = ar_revision (st_value x)"
    using assms(2) by auto
  note step = transition_stored_acts [OF assms(1) x assms(3)]
  have spec: "wf s1 \<and> (inbox_spec cfg)\<^sup>*\<^sup>* (acts s) (acts s1)"
    by (rule transition_stored_spec [OF assms(1) x assms(3)]) simp
  have upd: "acts s1 = (acts s)(action_key x \<mapsto> expire_record now (st_value x))
      \<and> st_value x' = expire_record now (st_value x) \<and> st_storage_revision x' = ar_revision (st_value x')"
    if "t = Inr x'" for x' using step that by (auto simp: expire_record_def)
  have "loaded s1 xs" if "t = Inr x'" for x'
  proof -
    have "acts s1 = (acts s)(action_key x \<mapsto> expire_record now (st_value x))" using upd [OF that] by blast
    then show ?thesis using assms(2) by (metis (no_types, lifting) distinct.simps(2) fun_upd_other list.set_intros(1,2)
      list.simps(9) imageI list.set_map)
  qed
  then show ?thesis using spec upd by blast
qed

lemma expire_loop_spec:
  assumes "wf s" and "loaded s xs" and "expire_loop R C s sid now xs = (res, s')"
  shows "wf s' \<and> (inbox_spec cfg)\<^sup>*\<^sup>* (acts s) (acts s')"
  using assms
proof (induction xs arbitrary: s res)
  case Nil
  then show ?case by simp
next
  case (Cons x xs)
  show ?case
  proof (cases "past_deadline sid now (st_value x)")
    case False
    then obtain r0 where "expire_loop R C s sid now xs = (r0, s')"
      using Cons.prems(3) by (auto split: prod.splits sum.splits)
    then show ?thesis using Cons.IH [of s r0] Cons.prems by simp
  next
    case True
    obtain t s1 where t: "transition_stored R C s x ActionExpired now (Some ''deadline elapsed'') = (t, s1)"
      by fastforce
    note step = expire_step [OF Cons.prems(1,2) t, of cfg]
    show ?thesis
    proof (cases t)
      case (Inl e)
      then show ?thesis using step Cons.prems(3) True t by auto
    next
      case (Inr x')
      then obtain r0 where "expire_loop R C s1 sid now xs = (r0, s')"
        using Cons.prems(3) True t by (auto split: prod.splits sum.splits)
      moreover have "wf s1" "loaded s1 xs" using step Inr by blast+
      ultimately have "wf s' \<and> (inbox_spec cfg)\<^sup>*\<^sup>* (acts s1) (acts s')" using Cons.IH by blast
      then show ?thesis using step by (meson rtranclp_trans)
    qed
  qed
qed

lemma expire_loop_result:
  assumes "wf s" and "loaded s xs" and "expire_loop R C s sid now xs = (Inr ys, s')"
  shows "map st_value ys = map (\<lambda>x. if past_deadline sid now (st_value x) then expire_record now (st_value x) else st_value x) xs
    \<and> (\<forall>y \<in> set ys. st_storage_revision y = ar_revision (st_value y))
    \<and> acts s' = (\<lambda>i. if i \<in> action_key ` set xs then expire_table sid now (acts s) i else acts s i)"
  using assms
proof (induction xs arbitrary: s ys)
  case Nil
  then show ?case by simp
next
  case (Cons x xs)
  have fresh: "action_key x \<notin> action_key ` set xs" using Cons.prems(2) by auto
  have x: "acts s (action_key x) = Some (st_value x)" "st_storage_revision x = ar_revision (st_value x)"
    using Cons.prems(2) by auto
  show ?case
  proof (cases "past_deadline sid now (st_value x)")
    case False
    then obtain zs where zs: "expire_loop R C s sid now xs = (Inr zs, s')" "ys = x # zs"
      using Cons.prems(3) by (auto split: prod.splits sum.splits)
    then have ih: "map st_value zs = map (\<lambda>x. if past_deadline sid now (st_value x) then expire_record now (st_value x) else st_value x) xs"
      "\<forall>y \<in> set zs. st_storage_revision y = ar_revision (st_value y)"
      "acts s' = (\<lambda>i. if i \<in> action_key ` set xs then expire_table sid now (acts s) i else acts s i)"
      using Cons.IH [of s zs] Cons.prems by simp_all
    have "acts s' = (\<lambda>i. if i \<in> action_key ` set (x # xs) then expire_table sid now (acts s) i else acts s i)"
      unfolding ih(3) using x(1) False by (auto simp: fun_eq_iff expire_table_def)
    then show ?thesis using ih(1,2) zs(2) x(2) False by simp
  next
    case True
    then obtain x' s1 zs where t: "transition_stored R C s x ActionExpired now (Some ''deadline elapsed'') = (Inr x', s1)"
      and zs: "expire_loop R C s1 sid now xs = (Inr zs, s')" "ys = x' # zs"
      using Cons.prems(3) by (auto split: prod.splits sum.splits)
    note step = expire_step [OF Cons.prems(1,2) t]
    have s1: "wf s1" "loaded s1 xs" "acts s1 = (acts s)(action_key x \<mapsto> expire_record now (st_value x))"
      "st_value x' = expire_record now (st_value x)" "st_storage_revision x' = ar_revision (st_value x')"
      using step by blast+
    have ih: "map st_value zs = map (\<lambda>x. if past_deadline sid now (st_value x) then expire_record now (st_value x) else st_value x) xs"
      "\<forall>y \<in> set zs. st_storage_revision y = ar_revision (st_value y)"
      "acts s' = (\<lambda>i. if i \<in> action_key ` set xs then expire_table sid now (acts s1) i else acts s1 i)"
      using Cons.IH [OF s1(1,2) zs(1)] by simp_all
    have "acts s' = (\<lambda>i. if i \<in> action_key ` set (x # xs) then expire_table sid now (acts s) i else acts s i)"
      unfolding ih(3) s1(3) using x(1) True fresh by (auto simp: fun_eq_iff expire_table_def)
    then show ?thesis using ih(1,2) zs(2) s1(4,5) True by simp
  qed
qed

end

lemma select_next_cases:
  assumes "select_next R C inbox s sid now ctx = (res, s')"
  obtains (refused) e where "res = Inl e" "s' = s"
    | (expiring) xs e where "action_load_all R C s = Inr xs" "expire_loop R C s sid now xs = (Inl e, s')" "res = Inl e"
    | (idle) xs ys where "action_load_all R C s = Inr xs" "expire_loop R C s sid now xs = (Inr ys, s')" "res = Inr None"
        "filter (\<lambda>x. selectable sid now ctx (st_value x)) ys = []"
    | (chosen) xs ys s1 x zs kind t where "action_load_all R C s = Inr xs" "expire_loop R C s sid now xs = (Inr ys, s1)"
        "sort_key (\<lambda>x. action_order_key (st_value x)) (filter (\<lambda>x. selectable sid now ctx (st_value x)) ys) = x # zs"
        "eligibility (ar_action (st_value x)) ctx = Some kind"
        "transition_stored R C s1 x ActionAdmitted now None = (t, s')"
        "\<And>e. t = Inl e \<Longrightarrow> res = Inl e"
        "\<And>x'. t = Inr x' \<Longrightarrow> res = Inr (Some \<lparr>sel_record = st_value x', sel_kind = kind\<rparr>)"
proof (cases "inbox_poisoned inbox \<or> (\<exists>e. action_load_all R C s = Inl e)")
  case True
  then show ?thesis using assms refused by (auto simp: select_next_def split: if_splits)
next
  case False
  then obtain xs where xs: "action_load_all R C s = Inr xs" "\<not> inbox_poisoned inbox"
    by (cases "action_load_all R C s") auto
  obtain r0 s1 where r0: "expire_loop R C s sid now xs = (r0, s1)" by fastforce
  note body = assms [unfolded select_next_def xs(1) r0, simplified xs(2) if_False sum.case r0 prod.case]
  show ?thesis
  proof (cases r0)
    case (Inl e)
    then show ?thesis using body expiring [OF xs(1)] r0 by auto
  next
    case (Inr ys)
    show ?thesis
    proof (cases "sort_key (\<lambda>x. action_order_key (st_value x)) (filter (\<lambda>x. selectable sid now ctx (st_value x)) ys)")
      case Nil
      then have "filter (\<lambda>x. selectable sid now ctx (st_value x)) ys = []" by (simp only: sort_key_Nil)
      then show ?thesis using body idle [OF xs(1)] r0 Inr Nil by simp
    next
      case (Cons x zs)
      have "x \<in> set (filter (\<lambda>x. selectable sid now ctx (st_value x)) ys)"
        using sort_key_head(1) [OF Cons] .
      then obtain kind where kind: "eligibility (ar_action (st_value x)) ctx = Some kind"
        by (auto simp: selectable_def)
      obtain t s2 where t: "transition_stored R C s1 x ActionAdmitted now None = (t, s2)" by fastforce
      have "s' = s2" "\<And>e. t = Inl e \<Longrightarrow> res = Inl e"
        "\<And>x'. t = Inr x' \<Longrightarrow> res = Inr (Some \<lparr>sel_record = st_value x', sel_kind = kind\<rparr>)"
        using body by (auto simp: Inr Cons kind t split: sum.splits)
      then show ?thesis using chosen [OF xs(1) _ Cons kind] r0 Inr t by blast
    qed
  qed
qed

context inbox_store
begin

lemma expired_all:
  assumes "wf s" and "action_load_all R C s = Inr xs" and "expire_loop R C s sid now xs = (Inr ys, s')"
  shows "acts s' = expire_table sid now (acts s)" and "wf s'"
    and "y \<in> set ys \<Longrightarrow> acts s' (action_key y) = Some (st_value y) \<and> st_storage_revision y = ar_revision (st_value y)"
    and "acts s' i = Some r \<Longrightarrow> \<exists>y \<in> set ys. st_value y = r"
proof -
  note res = expire_loop_result [OF assms(1) load_all_loaded [OF assms(1,2)] assms(3)]
  have dom: "acts s i = None" if "i \<notin> action_key ` set xs" for i
    using that load_all_complete [OF assms(1,2)] acts_key [OF assms(1)] by (cases "acts s i") force+
  show tab: "acts s' = expire_table sid now (acts s)"
    using res dom by (auto simp: fun_eq_iff expire_table_def)
  show "wf s'" using expire_loop_spec [OF assms(1) load_all_loaded [OF assms(1,2)] assms(3)] by blast
  let ?f = "\<lambda>r. if past_deadline sid now r then expire_record now r else r"
  have "map st_value ys = map (\<lambda>x. ?f (st_value x)) xs" using res by blast
  then have "set (map st_value ys) = set (map (\<lambda>x. ?f (st_value x)) xs)" by (rule arg_cong)
  then have vals: "st_value ` set ys = ?f ` st_value ` set xs" by (simp only: set_map image_image)
  have key: "sa_id (ar_action (?f r)) = sa_id (ar_action r)" for r by (simp add: expire_record_def)
  show "acts s' (action_key y) = Some (st_value y) \<and> st_storage_revision y = ar_revision (st_value y)"
    if y: "y \<in> set ys"
  proof -
    have "st_value y \<in> ?f ` st_value ` set xs" using vals y by blast
    then obtain x where x: "x \<in> set xs" "st_value y = ?f (st_value x)" by blast
    have "acts s (action_key y) = Some (st_value x)"
      unfolding x(2) key using load_all_mem [OF assms(1,2) x(1)] .
    then show ?thesis using res y x(2) by (simp add: tab expire_table_def)
  qed
  show "\<exists>y \<in> set ys. st_value y = r" if r: "acts s' i = Some r"
  proof -
    obtain q where "acts s i = Some q" "r = ?f q" using r by (auto simp: tab expire_table_def)
    then have "r \<in> ?f ` st_value ` set xs" using load_all_complete [OF assms(1,2)] by blast
    then have "r \<in> st_value ` set ys" by (simp only: vals)
    then show ?thesis by blast
  qed
qed

lemma select_next_spec:
  assumes "wf s" and "select_next R C inbox s sid now ctx = (res, s')"
  shows "wf s' \<and> (inbox_spec cfg)\<^sup>*\<^sup>* (acts s) (acts s')"
  using assms(2)
proof (cases rule: select_next_cases)
  case (refused e)
  then show ?thesis using assms(1) by simp
next
  case (expiring xs e)
  then show ?thesis using expire_loop_spec load_all_loaded assms(1) by blast
next
  case (idle xs ys)
  then show ?thesis using expire_loop_spec load_all_loaded assms(1) by blast
next
  case (chosen xs ys s1 x zs kind t)
  have s1: "(inbox_spec cfg)\<^sup>*\<^sup>* (acts s) (acts s1)"
    using expire_loop_spec [OF assms(1) load_all_loaded [OF assms(1) chosen(1)] chosen(2)] by blast
  have "x \<in> set ys" using sort_key_head(1) [OF chosen(3)] by simp
  then have "wf s' \<and> (inbox_spec cfg)\<^sup>*\<^sup>* (acts s1) (acts s')"
    using expired_all [OF assms(1) chosen(1,2)] chosen(5) by (intro transition_stored_spec) auto
  then show ?thesis using s1 by (meson rtranclp_trans)
qed

lemma select_next_result:
  assumes "wf s" and "select_next R C inbox s sid now ctx = (Inr found, s')"
  shows "case found of
      None \<Rightarrow> acts s' = expire_table sid now (acts s)
        \<and> (\<forall>i r. expire_table sid now (acts s) i = Some r \<longrightarrow> \<not> selectable sid now ctx r)
    | Some sel \<Rightarrow> \<exists>r. expire_table sid now (acts s) (sa_id (ar_action r)) = Some r \<and> selectable sid now ctx r
        \<and> (\<forall>j q. expire_table sid now (acts s) j = Some q \<longrightarrow> selectable sid now ctx q
              \<longrightarrow> action_order_key r \<le> action_order_key q)
        \<and> sel_record sel = moved_record r ActionAdmitted now None
        \<and> eligibility (ar_action r) ctx = Some (sel_kind sel)
        \<and> acts s' = (expire_table sid now (acts s))(sa_id (ar_action r) \<mapsto> sel_record sel)"
  using assms(2)
proof (cases rule: select_next_cases)
  case (idle xs ys)
  then show ?thesis
    using expired_all(1,4) [OF assms(1) idle(1,2)] by (auto simp: filter_empty_conv)
next
  case (chosen xs ys s1 x zs kind t)
  note all = expired_all [OF assms(1) chosen(1,2)]
  have x: "x \<in> set ys" "selectable sid now ctx (st_value x)" using sort_key_head(1) [OF chosen(3)] by simp_all
  have least: "action_order_key (st_value x) \<le> action_order_key q"
    if q: "acts s1 j = Some q" "selectable sid now ctx q" for j q
  proof -
    obtain y where "y \<in> set ys" "st_value y = q" using all(4) [OF q(1)] by blast
    then show ?thesis using sort_key_head(2) [OF chosen(3), of y] q(2) by simp
  qed
  obtain x' where t: "t = Inr x'" using chosen(6) by (cases t) auto
  have "acts s' = (acts s1)(action_key x \<mapsto> st_value x') \<and> st_value x' = moved_record (st_value x) ActionAdmitted now None"
    using transition_stored_acts [OF all(2) _ _ chosen(5)] all(3) [OF x(1)] t by auto
  then show ?thesis
    using chosen(4) chosen(7) [OF t] all(1,3) x least
    by (auto intro!: exI [of _ "st_value x"])
qed simp_all

lemma inbox_op_spec:
  assumes "inbox_op R view wf C inbox s s'" and "wf s"
  shows "wf s' \<and> (inbox_spec (inbox_config inbox))\<^sup>*\<^sup>* (acts s) (acts s')"
  using assms
proof (induction rule: inbox_op.induct)
  case (op_submit s a now res s')
  then show ?case using submit_acts by (metis r_into_rtranclp rtranclp.rtrancl_refl)
next
  case (op_select s sid now ctx res' s')
  then show ?case using select_next_spec by blast
next
  case (op_running s i now res s')
  then show ?case using mark_running_spec by blast
qed (auto simp: mark_waiting_def resume_waiting_def action_complete_def action_fail_def
    action_cancel_def intro: action_transition_spec [THEN conjunct1] action_transition_spec [THEN conjunct2])

lemma inbox_run_spec:
  "(inbox_op R view wf C inbox)\<^sup>*\<^sup>* s s' \<Longrightarrow> wf s \<Longrightarrow>
   wf s' \<and> (inbox_spec (inbox_config inbox))\<^sup>*\<^sup>* (acts s) (acts s')"
proof (induction rule: rtranclp_induct)
  case (step t u)
  then show ?case using inbox_op_spec by (meson rtranclp_trans)
qed simp

end


section \<open>The inbox on the embedded store\<close>

interpretation inbox: inbox_store "embedded_repository E PendingActions" "embedded_view E PendingActions"
  "typed_wf E C" C for E C
  by (intro inbox_store.intro embedded_typed_laws inbox_store_axioms.intro) (simp add: typed_wf_def)

abbreviation inbox_actions where
  "inbox_actions E C s \<equiv> actions_of C (embedded_view E PendingActions s)"

abbreviation inbox_runs where
  "inbox_runs E C inbox \<equiv> (inbox_op (embedded_repository E PendingActions)
     (embedded_view E PendingActions) (typed_wf E C) C inbox)\<^sup>*\<^sup>*"

lemma inbox_reachable_inv:
  assumes "typed_wf E C s" and "inbox_actions E C s = Map.empty" and "inbox_runs E C inbox s s'"
  shows "inbox_inv (inbox_config inbox) (inbox_actions E C s')"
  using inbox.inbox_run_spec [OF assms(3,1)] assms(2) inbox_spec_star_inv inbox_inv_empty by metis

lemma validate_action_evolution:
  assumes "validate_action a = Inr ()" and "sa_source a = EvolutionSource g ancestry execution"
  shows "sa_priority a = Background \<and> sa_delivery a = WhenIdle \<and> execution = OrdinarySession
    \<and> length ancestry \<le> 32 \<and> EvolutionAncestor \<notin> set ancestry \<and> (\<exists>op. sa_payload a = EvolutionPayload op)"
  using assms
  by (cases "sa_payload a"; cases execution)
    (auto simp: validate_action_def validate_evolution_def split: if_splits)

lemma validate_action_payload:
  assumes "validate_action a = Inr ()" and "sa_payload a = EvolutionPayload op"
  shows "\<exists>g ancestry execution. sa_source a = EvolutionSource g ancestry execution"
  using assms by (cases "sa_source a") (auto simp: validate_action_def split: if_splits)

lemma inbox_spec_fifo:
  assumes "inbox_spec cfg A A'" and "A i = Some p" and "A j = None" and "A' j = Some q"
    and "sa_session_id (ar_action p) = sa_session_id (ar_action q)"
  shows "ar_enqueue_sequence p < ar_enqueue_sequence q"
  using assms by (cases rule: inbox_spec.cases) (auto split: if_splits)

lemma inbox_spec_star_fifo:
  assumes "(inbox_spec cfg)\<^sup>*\<^sup>* A A'" and "A i = Some p" and "A j = None" and "A' j = Some q"
    and "sa_session_id (ar_action p) = sa_session_id (ar_action q)"
  shows "ar_enqueue_sequence p < ar_enqueue_sequence q"
  using assms(1,4,5)
proof (induction arbitrary: q rule: rtranclp_induct)
  case base
  then show ?case using assms(3) by simp
next
  case (step B B')
  obtain p' where p': "B i = Some p'" "action_later p p'"
    using inbox_spec_star_later [OF step(1) assms(2)] by blast
  show ?case
  proof (cases "B j")
    case None
    then show ?thesis
      using inbox_spec_fifo [OF step(2) p'(1) None step(4)] p'(2) step(5) by (simp add: action_later_def)
  next
    case (Some q')
    then obtain q'' where "B' j = Some q''" "action_later q' q''" using inbox_spec_later [OF step(2)] by blast
    then show ?thesis using step Some by (auto simp: action_later_def)
  qed
qed

section \<open>Properties of the inbox\<close>

text \<open>A concrete inbox and two of its actions, used to instantiate the hypotheses.\<close>

definition sample_inbox :: action_inbox where
  "sample_inbox = \<lparr>inbox_config = action_inbox_config_default, inbox_poisoned = False\<rparr>"

definition sample_action :: "nat \<Rightarrow> action_priority \<Rightarrow> session_action" where
  "sample_action i p =
     \<lparr>sa_id = EntityId (of_nat i), sa_session_id = EntityId 9, sa_source = FollowUpSource,
      sa_delivery = Immediate, sa_priority = p, sa_created_at = 0, sa_not_before = None,
      sa_deadline = None, sa_limits = action_limits_default, sa_reply_route = None,
      sa_payload = ContinueGoal (EntityId 5)\<rparr>"

abbreviation sample_repository :: "('j embedded_store, 'j, store_error) repository" where
  "sample_repository \<equiv> embedded_repository plain_env PendingActions"

definition sample_evolution :: session_action where
  "sample_evolution =
     (sample_action 3 Background)\<lparr>sa_source := EvolutionSource (EntityId 6) [OrdinaryAncestor] OrdinarySession,
        sa_delivery := WhenIdle, sa_payload := EvolutionPayload RunCanary\<rparr>"

definition sample_submitted :: "action_record embedded_store" where
  "sample_submitted = snd (submit sample_repository plain_serde sample_inbox
     (snd (submit sample_repository plain_serde sample_inbox empty_store (sample_action 1 Background) 0))
     (sample_action 2 UserPriority) 0)"

definition sample_selected :: "action_record embedded_store" where
  "sample_selected = snd (select_next sample_repository plain_serde sample_inbox sample_submitted (EntityId 9) 7
     \<lparr>active_action = None, at_turn_boundary = False, session_idle = True\<rparr>)"

definition sample_running :: "action_record embedded_store" where
  "sample_running = snd (mark_running sample_repository plain_serde sample_inbox sample_selected (EntityId 2) 8)"

lemmas inbox_eval = submit_def select_next_def mark_running_def action_load_all_def action_load_def action_required_def
  action_put_new_def action_encode_def action_decode_def transition_stored_def new_action_record_def
  embedded_repository_def list_records_def plain_serde_def sample_inbox_def sample_action_def
  action_inbox_config_default_def validate_action_def checked_succ_def checked_next_def past_deadline_def
  selectable_def eligibility_def action_order_key_def action_is_terminal_def Let_def
  as_str.simps revision_zero_def


lemmas sample_eval = inbox_eval store_eval actions_of_def records_of_def typed_def embedded_view_def
  table_view_def replicate_numeral moved_record_def word_le_nat_alt

lemma inbox_op_snd:
  "inbox_op R view ok C inbox s (snd (submit R C inbox s a now))"
  "inbox_op R view ok C inbox s (snd (select_next R C inbox s sid now ctx))"
  "inbox_op R view ok C inbox s (snd (mark_running R C inbox s i now))"
  using inbox_op.op_submit inbox_op.op_select inbox_op.op_running by (metis prod.collapse)+

lemma inbox_runs_submit:
  "inbox_runs E C inbox s (snd (submit (embedded_repository E PendingActions) C inbox s a now))"
  by (rule r_into_rtranclp) (rule inbox_op_snd(1))

lemma sample_runs:
  "inbox_runs plain_env plain_serde sample_inbox empty_store sample_submitted"
  "inbox_runs plain_env plain_serde sample_inbox sample_submitted sample_running"
  unfolding sample_running_def sample_selected_def sample_submitted_def
  by (meson inbox_op_snd rtranclp.rtrancl_into_rtrancl rtranclp.rtrancl_refl)+

lemma sample_submitted_actions:
  "inbox_actions plain_env plain_serde sample_submitted (EntityId 1) = Some (new_action_record (sample_action 1 Background) 0 1)"
  "inbox_actions plain_env plain_serde sample_submitted (EntityId 2) = Some (new_action_record (sample_action 2 UserPriority) 0 2)"
  by (simp_all add: sample_submitted_def sample_eval)

lemma sample_running_actions:
  "inbox_actions plain_env plain_serde sample_running (EntityId 1) = Some (new_action_record (sample_action 1 Background) 0 1)"
  "inbox_actions plain_env plain_serde sample_running (EntityId 2) =
     Some (moved_record (moved_record (new_action_record (sample_action 2 UserPriority) 0 2) ActionAdmitted 7 None)
       ActionRunning 8 None)"
  by (simp_all add: sample_running_def sample_selected_def sample_submitted_def sample_eval)

text \<open>C8. Every operation of the inbox, whatever it returns and whichever write fails, changes the stored
  actions only by admissible submissions and admissible transitions: it implements the
  specification \<open>inbox_spec\<close>.\<close>

theorem inbox_refines_spec:
  assumes "typed_wf E C s" and "inbox_runs E C inbox s s'"
  shows "typed_wf E C s' \<and> (inbox_spec (inbox_config inbox))\<^sup>*\<^sup>* (inbox_actions E C s) (inbox_actions E C s')"
  using inbox.inbox_run_spec assms by blast

theorem inbox_refines_spec_witness:
  "(inbox_spec action_inbox_config_default)\<^sup>*\<^sup>* Map.empty (inbox_actions plain_env plain_serde sample_submitted)
   \<and> inbox_actions plain_env plain_serde sample_submitted (EntityId 2)
     = Some (new_action_record (sample_action 2 UserPriority) 0 2)"
  using inbox_refines_spec [OF empty_store_typed_wf sample_runs(1)] sample_submitted_actions(2)
  by (simp add: sample_inbox_def actions_of_def)

text \<open>C9. A session never has two turns running: in every state the inbox reaches from an empty one,
  two running actions of a session are the same action.\<close>

theorem inbox_single_turn:
  assumes "typed_wf E C s" and "inbox_actions E C s = Map.empty" and "inbox_runs E C inbox s s'"
    and "inbox_actions E C s' i = Some p" and "inbox_actions E C s' j = Some q"
    and "ar_state p = ActionRunning" and "ar_state q = ActionRunning"
    and "sa_session_id (ar_action p) = sa_session_id (ar_action q)"
  shows "i = j"
  using inbox_reachable_inv [OF assms(1-3)] assms(4-8) unfolding inbox_inv_def one_running_def by blast

theorem inbox_single_turn_witness:
  "{i. \<exists>q. inbox_actions plain_env plain_serde sample_running i = Some q \<and> ar_state q = ActionRunning
      \<and> sa_session_id (ar_action q) = EntityId 9} = {EntityId 2}"
proof -
  have runs: "inbox_runs plain_env plain_serde sample_inbox empty_store sample_running"
    using sample_runs by (rule rtranclp_trans)
  have empty: "inbox_actions plain_env plain_serde empty_store = Map.empty" by (simp add: actions_of_def)
  have sess: "sa_session_id (sample_action n p) = EntityId 9" for n p by (simp add: sample_action_def)
  show ?thesis
    using inbox_single_turn [OF empty_store_typed_wf empty runs _ sample_running_actions(2)] sess
    by (auto simp: sample_running_actions(2))
qed



text \<open>C11. Stored actions are never lost or rewritten: over any run an action stays in the inbox with its
  content and arrival number, its state only moves along the lifecycle, every change raises the
  revision, and a finished action does not change at all.\<close>

theorem inbox_records_monotone:
  assumes "typed_wf E C s" and "inbox_runs E C inbox s s'" and "inbox_actions E C s i = Some r"
  shows "\<exists>r'. inbox_actions E C s' i = Some r' \<and> action_later r r'"
  using inbox_spec_star_later [OF conjunct2 [OF inbox.inbox_run_spec [OF assms(2,1)]] assms(3)] .

theorem inbox_records_monotone_witness:
  "\<exists>r'. inbox_actions plain_env plain_serde sample_running (EntityId 2) = Some r'
     \<and> action_later (new_action_record (sample_action 2 UserPriority) 0 2) r'"
  using inbox_records_monotone [OF _ sample_runs(2) sample_submitted_actions(2)]
    inbox.inbox_run_spec [OF sample_runs(1) empty_store_typed_wf] by blast

text \<open>C12. Selection: when \<open>select_next\<close> answers, the due actions of the session have been expired, and
  it admitted the least selectable action by priority, arrival and identifier, or there was none;
  nothing else changed.\<close>

theorem select_next_least:
  assumes "typed_wf E C s"
    and "select_next (embedded_repository E PendingActions) C inbox s sid now ctx = (Inr found, s')"
  shows "case found of
      None \<Rightarrow> inbox_actions E C s' = expire_table sid now (inbox_actions E C s)
        \<and> (\<forall>i r. expire_table sid now (inbox_actions E C s) i = Some r \<longrightarrow> \<not> selectable sid now ctx r)
    | Some sel \<Rightarrow> \<exists>r. expire_table sid now (inbox_actions E C s) (sa_id (ar_action r)) = Some r
        \<and> selectable sid now ctx r
        \<and> (\<forall>j q. expire_table sid now (inbox_actions E C s) j = Some q \<longrightarrow> selectable sid now ctx q
              \<longrightarrow> action_order_key r \<le> action_order_key q)
        \<and> sel_record sel = moved_record r ActionAdmitted now None
        \<and> eligibility (ar_action r) ctx = Some (sel_kind sel)
        \<and> inbox_actions E C s' =
            (expire_table sid now (inbox_actions E C s))(sa_id (ar_action r) \<mapsto> sel_record sel)"
  using inbox.select_next_result [OF assms] .

theorem select_next_least_witness:
  "\<exists>sel. fst (select_next sample_repository plain_serde sample_inbox sample_submitted (EntityId 9) 7
        \<lparr>active_action = None, at_turn_boundary = False, session_idle = True\<rparr>) = Inr (Some sel)
     \<and> sel_kind sel = StartTurn
     \<and> sa_id (ar_action (sel_record sel)) = EntityId 2"
proof -
  let ?run = "select_next sample_repository plain_serde sample_inbox sample_submitted (EntityId 9) 7
        \<lparr>active_action = None, at_turn_boundary = False, session_idle = True\<rparr>"
  have wf: "typed_wf plain_env plain_serde sample_submitted"
    using inbox.inbox_run_spec [OF sample_runs(1) empty_store_typed_wf] by blast
  have "\<exists>sel. fst ?run = Inr (Some sel) \<and> sa_id (ar_action (sel_record sel)) = EntityId 2"
    by (simp add: sample_submitted_def inbox_eval store_eval replicate_numeral word_le_nat_alt)
  then obtain sel where sel: "?run = (Inr (Some sel), snd ?run)" "sa_id (ar_action (sel_record sel)) = EntityId 2"
    by (metis prod.collapse)
  have "\<exists>r. selectable (EntityId 9) 7 \<lparr>active_action = None, at_turn_boundary = False, session_idle = True\<rparr> r
      \<and> eligibility (ar_action r) \<lparr>active_action = None, at_turn_boundary = False, session_idle = True\<rparr> = Some (sel_kind sel)"
    using select_next_least [OF wf sel(1)] by auto
  then obtain r :: action_record where
      "eligibility (ar_action r) \<lparr>active_action = None, at_turn_boundary = False, session_idle = True\<rparr> = Some (sel_kind sel)"
    by blast
  then have "sel_kind sel = StartTurn"
    by (cases "sa_delivery (ar_action r)") (auto simp: eligibility_def split: if_splits)
  then show ?thesis using sel by (metis fst_conv)
qed

text \<open>C13. Self-evolution work cannot crowd out or multiply: in every state the inbox reaches from an
  empty one, an action that carries evolution work, by its source or by its payload, has both,
  runs with background priority when the session is idle, in an ordinary session, and no ancestor
  of it is an evolution action.\<close>

theorem inbox_evolution_guard:
  assumes "typed_wf E C s" and "inbox_actions E C s = Map.empty" and "inbox_runs E C inbox s s'"
    and "inbox_actions E C s' i = Some r"
    and "(\<exists>g ancestry execution. sa_source (ar_action r) = EvolutionSource g ancestry execution)
      \<or> (\<exists>op. sa_payload (ar_action r) = EvolutionPayload op)"
  shows "sa_priority (ar_action r) = Background \<and> sa_delivery (ar_action r) = WhenIdle
    \<and> (\<exists>g ancestry op. sa_source (ar_action r) = EvolutionSource g ancestry OrdinarySession
        \<and> sa_payload (ar_action r) = EvolutionPayload op
        \<and> length ancestry \<le> 32 \<and> EvolutionAncestor \<notin> set ancestry)"
proof -
  have valid: "validate_action (ar_action r) = Inr ()"
    using inbox_reachable_inv [OF assms(1-3)] assms(4) by (simp add: inbox_inv_def)
  then obtain g ancestry execution where "sa_source (ar_action r) = EvolutionSource g ancestry execution"
    using assms(5) validate_action_payload by blast
  then show ?thesis using validate_action_evolution [OF valid] by blast
qed

theorem inbox_evolution_guard_witness:
  "\<exists>r. inbox_actions plain_env plain_serde (snd (submit sample_repository plain_serde sample_inbox empty_store
        sample_evolution 0)) (EntityId 3) = Some r
     \<and> sa_delivery (ar_action r) = WhenIdle \<and> sa_priority (ar_action r) = Background"
proof -
  let ?s = "snd (submit sample_repository plain_serde sample_inbox empty_store sample_evolution 0)"
  have r: "inbox_actions plain_env plain_serde ?s (EntityId 3) = Some (new_action_record sample_evolution 0 1)"
    by (simp add: sample_eval sample_evolution_def validate_evolution_def)
  have empty: "inbox_actions plain_env plain_serde empty_store = Map.empty" by (simp add: actions_of_def)
  show ?thesis
    using inbox_evolution_guard [OF empty_store_typed_wf empty inbox_runs_submit r] r
    by (simp add: sample_evolution_def [symmetric]) (simp add: sample_evolution_def)
qed

text \<open>Arrival order: an action submitted while another action of its session is stored, in whatever
  state, gets a greater arrival number, so that within a priority selection is first come,
  first served.\<close>

theorem inbox_arrival_order:
  assumes "typed_wf E C s" and "inbox_runs E C inbox s s'"
    and "inbox_actions E C s i = Some p" and "inbox_actions E C s j = None"
    and "inbox_actions E C s' j = Some q"
    and "sa_session_id (ar_action p) = sa_session_id (ar_action q)"
  shows "ar_enqueue_sequence p < ar_enqueue_sequence q"
  using inbox_spec_star_fifo [OF conjunct2 [OF inbox.inbox_run_spec [OF assms(2,1)]] assms(3-6)] .

theorem inbox_arrival_order_witness:
  "ar_enqueue_sequence (new_action_record (sample_action 1 Background) 0 1)
   < ar_enqueue_sequence (new_action_record (sample_action 2 UserPriority) 0 2)"
proof (rule inbox_arrival_order)
  let ?s = "snd (submit sample_repository plain_serde sample_inbox empty_store (sample_action 1 Background) 0)"
  show "typed_wf plain_env plain_serde ?s"
    by (rule conjunct1 [OF inbox.inbox_run_spec [OF inbox_runs_submit empty_store_typed_wf]])
  show "inbox_runs plain_env plain_serde sample_inbox ?s sample_submitted"
    unfolding sample_submitted_def by (rule inbox_runs_submit)
  show "inbox_actions plain_env plain_serde ?s (EntityId 1) = Some (new_action_record (sample_action 1 Background) 0 1)"
    "inbox_actions plain_env plain_serde ?s (EntityId 2) = None"
    by (simp_all add: sample_eval)
  show "inbox_actions plain_env plain_serde sample_submitted (EntityId 2)
      = Some (new_action_record (sample_action 2 UserPriority) 0 2)"
    by (rule sample_submitted_actions(2))
qed (simp add: sample_action_def)

end
