(* ===== verification/Waiting.thy ===== *)
theory Waiting
  imports Action_Store
begin

text \<open>
  \<open>crates/waiting/src/lib.rs\<close>: durable waits. A wait is armed with a trigger; an event that matches
  fires it, which enqueues one resume action with the wait's own action identifier and then marks
  the wait resumed. The sink of resume actions is a dictionary (\<open>WakeActionSink\<close>); the inbox
  implements it. Generated identifiers (\<open>EntityId::new\<close>) are arguments. Unicode lower-casing,
  used by channel filters, is the parameter \<open>lower\<close>.

  The locale \<open>waiting_store\<close> states what the service relies on: its repository and a sink that
  leaves the waits alone and whose accepted actions stay present. It is interpreted on the embedded
  store with the action inbox as the sink.
\<close>

section \<open>Data\<close>

datatype 'n wake_trigger =
    AtTrigger timestamp
  | ScheduleTrigger job_id
  | ChildTerminalTrigger child_id
  | ProcessExitTrigger entity_id
  | FileChangedTrigger workspace_id string
  | RepositoryChangedTrigger workspace_id string
  | ChannelMessageTrigger entity_id "string option"
  | ExternalConditionTrigger string "'n json"
  | UserResponseTrigger session_id

datatype 'n wake_event_kind =
    TimeEvent
  | ScheduleEvent job_id
  | ChildTerminalEvent child_id
  | ProcessExitEvent entity_id
  | FileChangedEvent workspace_id string
  | RepositoryChangedEvent workspace_id string
  | ChannelMessageEvent entity_id string
  | ExternalConditionEvent string "'n json"
  | UserResponseEvent session_id

record 'n wake_event =
  we_id :: entity_id
  we_occurred_at :: timestamp
  we_kind :: "'n wake_event_kind"

datatype waiting_state = WaitArmed | WaitFired | WaitResumed | WaitCancelled | WaitExpired

record 'n waiting_item =
  wi_version :: schema_version
  wi_id :: entity_id
  wi_profile_id :: profile_id
  wi_session_id :: session_id
  wi_trigger :: "'n wake_trigger"
  wi_wake_id :: entity_id
  wi_action_id :: action_id
  wi_reply_route :: "reply_route option"
  wi_state :: waiting_state
  wi_expires_at :: "timestamp option"
  wi_fired_by :: "entity_id option"
  wi_created_at :: timestamp
  wi_updated_at :: timestamp
  wi_safe_error :: "string option"

record 'n new_waiting_item =
  nw_profile_id :: profile_id
  nw_session_id :: session_id
  nw_trigger :: "'n wake_trigger"
  nw_reply_route :: "reply_route option"
  nw_expires_at :: "timestamp option"

record release_directive =
  release_model_turn :: bool
  kernel_evictable :: bool
  worker_evictable :: bool

definition release_waiting :: release_directive where
  "release_waiting = \<lparr>release_model_turn = True, kernel_evictable = True, worker_evictable = True\<rparr>"

datatype wake_enqueue_status = WakeAccepted | WakeAlreadyPresent

record 's wake_sink =
  enqueue_wake :: "'s \<Rightarrow> session_action \<Rightarrow> timestamp \<Rightarrow> (string + wake_enqueue_status) \<times> 's"

datatype waiting_error =
    WaitRepositoryError string
  | WaitCorrupt string
  | InvalidTrigger
  | WaitNotFound
  | WaitInvalidTransition
  | WaitLockPoisoned
  | WaitRevisionOverflow

record 'n stored_waiting =
  sw_item :: "'n waiting_item"
  sw_revision :: revision

record waiting_service =
  ws_poisoned :: bool

section \<open>The inbox as a sink\<close>

fun action_state_debug :: "action_state \<Rightarrow> string" where
  "action_state_debug ActionQueued = ''Queued''"
| "action_state_debug ActionAdmitted = ''Admitted''"
| "action_state_debug ActionRunning = ''Running''"
| "action_state_debug ActionWaiting = ''Waiting''"
| "action_state_debug ActionCompleted = ''Completed''"
| "action_state_debug ActionFailed = ''Failed''"
| "action_state_debug ActionCancelled = ''Cancelled''"
| "action_state_debug ActionExpired = ''Expired''"

fun action_error_display :: "ulid_codec \<Rightarrow> action_store_error \<Rightarrow> string" where
  "action_error_display U (ActionRepository e) = ''action repository failed: '' @ e"
| "action_error_display U (ActionNotFound i) = ''action '' @ entity_id_as_str U i @ '' was not found''"
| "action_error_display U (ActionCorrupt e) = ''action record is corrupt: '' @ e"
| "action_error_display U (ActionInvalid e) = ''action is invalid: '' @ e"
| "action_error_display U QueueFull = ''session action queue reached its configured limit''"
| "action_error_display U BackgroundQueueFull =
     ''session background queue reached its configured limit''"
| "action_error_display U EvolutionScheduling =
     ''evolution actions must use background priority and when-idle delivery''"
| "action_error_display U RecursiveEvolution =
     ''recursive evolution actions are refused at admission''"
| "action_error_display U DedicatedEvolutionChild =
     ''children dedicated to evolution are refused at admission''"
| "action_error_display U (IllegalTransition a b) =
     ''action cannot transition from '' @ action_state_debug a @ '' to '' @ action_state_debug b"
| "action_error_display U TurnAlreadyRunning = ''session already has a running model turn''"
| "action_error_display U RevisionOverflow = ''action revision overflow''"
| "action_error_display U SequenceOverflow = ''action enqueue sequence overflow''"
| "action_error_display U ActionLockPoisoned = ''action store lock was poisoned''"

definition inbox_enqueue_wake ::
  "('s, 'j, 'e) repository \<Rightarrow> (action_record, 'j) serde \<Rightarrow> ulid_codec \<Rightarrow> action_inbox \<Rightarrow> 's \<Rightarrow>
   session_action \<Rightarrow> timestamp \<Rightarrow> (string + wake_enqueue_status) \<times> 's" where
  "inbox_enqueue_wake R C U inbox s a now =
     (case action_get R C inbox s (sa_id a) of
        Inl e \<Rightarrow> (Inl (action_error_display U e), s)
      | Inr (Some _) \<Rightarrow> (Inr WakeAlreadyPresent, s)
      | Inr None \<Rightarrow>
          (case submit R C inbox s a now of
             (Inr _, s') \<Rightarrow> (Inr WakeAccepted, s')
           | (Inl e, s') \<Rightarrow>
               (case action_get R C inbox s' (sa_id a) of
                  Inl lookup \<Rightarrow> (Inl (action_error_display U lookup), s')
                | Inr (Some _) \<Rightarrow> (Inr WakeAlreadyPresent, s')
                | Inr None \<Rightarrow> (Inl (action_error_display U e), s'))))"

definition inbox_sink ::
  "('s, 'j, 'e) repository \<Rightarrow> (action_record, 'j) serde \<Rightarrow> ulid_codec \<Rightarrow> action_inbox \<Rightarrow> 's wake_sink" where
  "inbox_sink R C U inbox = \<lparr>enqueue_wake = inbox_enqueue_wake R C U inbox\<rparr>"

section \<open>Triggers\<close>

fun wildcard_loop :: "string \<Rightarrow> string \<Rightarrow> nat \<Rightarrow> nat \<Rightarrow> string list \<Rightarrow> bool" where
  "wildcard_loop pattern value index offset [] = True"
| "wildcard_loop pattern value index offset (part # parts) =
     (if part = [] then wildcard_loop pattern value (Suc index) offset parts
      else (case str_find part (drop offset value) of
          None \<Rightarrow> False
        | Some found \<Rightarrow>
            if index = 0 \<and> \<not> starts_with ''*'' pattern \<and> found \<noteq> 0 then False
            else wildcard_loop pattern value (Suc index) (offset + (found + length part)) parts))"

definition wildcard_match :: "string \<Rightarrow> string \<Rightarrow> bool" where
  "wildcard_match pattern value =
     (let parts = split_on (CHR ''*'') pattern in
      if length parts = 1 then pattern = value
      else wildcard_loop pattern value 0 0 parts
        \<and> (ends_with ''*'' pattern \<or> ends_with (last parts) value))"

definition validate_trigger :: "'n wake_trigger \<Rightarrow> waiting_error + unit" where
  "validate_trigger trigger =
     (if (case trigger of
            FileChangedTrigger _ pattern \<Rightarrow> \<not> is_blank pattern \<and> \<not> str_contains ''..'' pattern
          | RepositoryChangedTrigger _ reference \<Rightarrow> \<not> is_blank reference
          | ChannelMessageTrigger _ flt \<Rightarrow> (case flt of None \<Rightarrow> True | Some f \<Rightarrow> \<not> is_blank f)
          | ExternalConditionTrigger connector query \<Rightarrow> \<not> is_blank connector \<and> query \<noteq> JNull
          | _ \<Rightarrow> True)
      then Inr () else Inl InvalidTrigger)"

text \<open>Equality of JSON values: objects are compared as maps, whatever their order.\<close>

definition json_eq :: "'n json \<Rightarrow> 'n json \<Rightarrow> bool" where
  "json_eq v w \<longleftrightarrow> sort_json_value v = sort_json_value w"

definition trigger_matches :: "(string \<Rightarrow> string) \<Rightarrow> 'n wake_trigger \<Rightarrow> 'n wake_event \<Rightarrow> bool" where
  "trigger_matches lower trigger event =
     (case trigger of
        AtTrigger at \<Rightarrow> (case we_kind event of TimeEvent \<Rightarrow> we_occurred_at event \<ge> at | _ \<Rightarrow> False)
      | ScheduleTrigger job \<Rightarrow> (case we_kind event of ScheduleEvent actual \<Rightarrow> job = actual | _ \<Rightarrow> False)
      | ChildTerminalTrigger child \<Rightarrow>
          (case we_kind event of ChildTerminalEvent actual \<Rightarrow> child = actual | _ \<Rightarrow> False)
      | ProcessExitTrigger process \<Rightarrow>
          (case we_kind event of ProcessExitEvent actual \<Rightarrow> process = actual | _ \<Rightarrow> False)
      | FileChangedTrigger workspace pattern \<Rightarrow>
          (case we_kind event of
             FileChangedEvent actual path \<Rightarrow> workspace = actual \<and> wildcard_match pattern path
           | _ \<Rightarrow> False)
      | RepositoryChangedTrigger workspace reference \<Rightarrow>
          (case we_kind event of
             RepositoryChangedEvent actual actual_reference \<Rightarrow>
               workspace = actual \<and> reference = actual_reference
           | _ \<Rightarrow> False)
      | ChannelMessageTrigger route flt \<Rightarrow>
          (case we_kind event of
             ChannelMessageEvent actual txt \<Rightarrow>
               route = actual
               \<and> (case flt of None \<Rightarrow> True | Some f \<Rightarrow> str_contains (lower f) (lower txt))
           | _ \<Rightarrow> False)
      | ExternalConditionTrigger connector query \<Rightarrow>
          (case we_kind event of
             ExternalConditionEvent actual actual_query \<Rightarrow>
               connector = actual \<and> json_eq query actual_query
           | _ \<Rightarrow> False)
      | UserResponseTrigger session \<Rightarrow>
          (case we_kind event of UserResponseEvent actual \<Rightarrow> session = actual | _ \<Rightarrow> False))"

section \<open>Persistence\<close>

definition safe_error :: "string \<Rightarrow> string" where
  "safe_error e = take_chars 512 e"

definition wait_repository_error :: "('s, 'j, 'e) repository \<Rightarrow> 'e \<Rightarrow> waiting_error" where
  "wait_repository_error R e = WaitRepositoryError (safe_error (repo_display R e))"

definition wait_record ::
  "('n waiting_item, 'j) serde \<Rightarrow> 'n waiting_item \<Rightarrow> revision \<Rightarrow> waiting_error + 'j versioned_record" where
  "wait_record C item n =
     (case to_value C item of
        Inl e \<Rightarrow> Inl (WaitCorrupt e)
      | Inr payload \<Rightarrow>
          Inr \<lparr>vr_version = CURRENT_SCHEMA_VERSION, vr_id = wi_id item, vr_revision = n,
               vr_updated_at = wi_updated_at item, vr_payload = payload\<rparr>)"

definition decode_wait ::
  "('n waiting_item, 'j) serde \<Rightarrow> 'j versioned_record \<Rightarrow> waiting_error + 'n stored_waiting" where
  "decode_wait C vr =
     (case from_value C (vr_payload vr) of
        Inl e \<Rightarrow> Inl (WaitCorrupt e)
      | Inr item \<Rightarrow>
          if wi_id item \<noteq> vr_id vr \<or> major (wi_version item) \<noteq> major CURRENT_SCHEMA_VERSION
          then Inl (WaitCorrupt ''waiting identity or schema mismatch'')
          else Inr \<lparr>sw_item = item, sw_revision = vr_revision vr\<rparr>)"

definition wait_required ::
  "('s, 'j, 'e) repository \<Rightarrow> ('n waiting_item, 'j) serde \<Rightarrow> 's \<Rightarrow> entity_id \<Rightarrow>
   waiting_error + 'n stored_waiting" where
  "wait_required R C s i =
     (case repo_get R s i of
        Inl e \<Rightarrow> Inl (wait_repository_error R e)
      | Inr None \<Rightarrow> Inl WaitNotFound
      | Inr (Some vr) \<Rightarrow> decode_wait C vr)"

definition wait_load_all ::
  "('s, 'j, 'e) repository \<Rightarrow> ('n waiting_item, 'j) serde \<Rightarrow> 's \<Rightarrow>
   waiting_error + 'n stored_waiting list" where
  "wait_load_all R C s =
     (case repo_list R s of
        Inl e \<Rightarrow> Inl (wait_repository_error R e)
      | Inr vrs \<Rightarrow> collect_results (map (decode_wait C) vrs))"

definition wait_put ::
  "('s, 'j, 'e) repository \<Rightarrow> ('n waiting_item, 'j) serde \<Rightarrow> 's \<Rightarrow> 'n stored_waiting \<Rightarrow>
   (waiting_error + 'n stored_waiting) \<times> 's" where
  "wait_put R C s stored =
     (case checked_next (sw_revision stored) of
        None \<Rightarrow> (Inl WaitRevisionOverflow, s)
      | Some n \<Rightarrow>
          (case wait_record C (sw_item stored) n of
             Inl e \<Rightarrow> (Inl e, s)
           | Inr vr \<Rightarrow>
               (case repo_put R s vr (Exact (sw_revision stored)) of
                  (Inl e, s') \<Rightarrow> (Inl (wait_repository_error R e), s')
                | (Inr _, s') \<Rightarrow> (Inr (stored\<lparr>sw_revision := n\<rparr>), s'))))"

section \<open>Operations\<close>

definition new_wait ::
  "'n new_waiting_item \<Rightarrow> timestamp \<Rightarrow> entity_id \<Rightarrow> entity_id \<Rightarrow> action_id \<Rightarrow> 'n waiting_item" where
  "new_wait request now new_id new_wake_id new_action_id =
     \<lparr>wi_version = CURRENT_SCHEMA_VERSION, wi_id = new_id,
      wi_profile_id = nw_profile_id request, wi_session_id = nw_session_id request,
      wi_trigger = nw_trigger request, wi_wake_id = new_wake_id, wi_action_id = new_action_id,
      wi_reply_route = nw_reply_route request, wi_state = WaitArmed,
      wi_expires_at = nw_expires_at request, wi_fired_by = None, wi_created_at = now,
      wi_updated_at = now, wi_safe_error = None\<rparr>"

definition wait_register ::
  "('s, 'j, 'e) repository \<Rightarrow> ('n waiting_item, 'j) serde \<Rightarrow> 's \<Rightarrow> 'n new_waiting_item \<Rightarrow> timestamp \<Rightarrow>
   entity_id \<Rightarrow> entity_id \<Rightarrow> action_id \<Rightarrow>
   (waiting_error + 'n waiting_item \<times> release_directive) \<times> 's" where
  "wait_register R C s request now new_id new_wake_id new_action_id =
     (case validate_trigger (nw_trigger request) of Inl e \<Rightarrow> (Inl e, s) | Inr _ \<Rightarrow>
      if (case nw_expires_at request of None \<Rightarrow> False | Some expiry \<Rightarrow> expiry \<le> now)
      then (Inl InvalidTrigger, s)
      else
       let item = new_wait request now new_id new_wake_id new_action_id
       in (case wait_record C item revision_zero of
             Inl e \<Rightarrow> (Inl e, s)
           | Inr vr \<Rightarrow>
               (case repo_put R s vr Missing of
                  (Inl e, s') \<Rightarrow> (Inl (wait_repository_error R e), s')
                | (Inr _, s') \<Rightarrow> (Inr (item, release_waiting), s'))))"

definition resume_action :: "'n waiting_item \<Rightarrow> timestamp \<Rightarrow> session_action" where
  "resume_action item now =
     \<lparr>sa_id = wi_action_id item, sa_session_id = wi_session_id item,
      sa_source = WaitingSource (wi_wake_id item), sa_delivery = Immediate,
      sa_priority = ScheduledPriority, sa_created_at = now, sa_not_before = None,
      sa_deadline = None, sa_limits = action_limits_default, sa_reply_route = wi_reply_route item,
      sa_payload = ResumeWaiting (wi_id item)\<rparr>"

definition enqueue_fired ::
  "('s, 'j, 'e) repository \<Rightarrow> ('n waiting_item, 'j) serde \<Rightarrow> 's wake_sink \<Rightarrow> 's \<Rightarrow> 'n stored_waiting \<Rightarrow>
   timestamp \<Rightarrow> (waiting_error + 'n waiting_item) \<times> 's" where
  "enqueue_fired R C sink s stored now =
     (case enqueue_wake sink s (resume_action (sw_item stored) now) now of
        (Inr _, s1) \<Rightarrow>
          (case wait_put R C s1 (stored\<lparr>sw_item := (sw_item stored)\<lparr>wi_state := WaitResumed,
                   wi_safe_error := None, wi_updated_at := now\<rparr>\<rparr>) of
             (Inl e, s2) \<Rightarrow> (Inl e, s2)
           | (Inr stored', s2) \<Rightarrow> (Inr (sw_item stored'), s2))
      | (Inl e, s1) \<Rightarrow>
          (case wait_put R C s1 (stored\<lparr>sw_item := (sw_item stored)\<lparr>wi_safe_error := Some (safe_error e),
                   wi_updated_at := now\<rparr>\<rparr>) of
             (Inl e', s2) \<Rightarrow> (Inl e', s2)
           | (Inr stored', s2) \<Rightarrow> (Inr (sw_item stored'), s2)))"

definition wait_due :: "timestamp \<Rightarrow> 'n waiting_item \<Rightarrow> bool" where
  "wait_due now item \<longleftrightarrow>
     wi_state item = WaitArmed \<and> (case wi_expires_at item of None \<Rightarrow> False | Some expiry \<Rightarrow> expiry \<le> now)"

fun expire_waits ::
  "('s, 'j, 'e) repository \<Rightarrow> ('n waiting_item, 'j) serde \<Rightarrow> 's \<Rightarrow> timestamp \<Rightarrow>
   'n stored_waiting list \<Rightarrow> (waiting_error + 'n waiting_item list) \<times> 's" where
  "expire_waits R C s now [] = (Inr [], s)"
| "expire_waits R C s now (x # xs) =
     (case wait_put R C s (x\<lparr>sw_item := (sw_item x)\<lparr>wi_state := WaitExpired, wi_updated_at := now\<rparr>\<rparr>) of
        (Inl e, s1) \<Rightarrow> (Inl e, s1)
      | (Inr x', s1) \<Rightarrow>
          (case expire_waits R C s1 now xs of
             (Inl e, s2) \<Rightarrow> (Inl e, s2)
           | (Inr items, s2) \<Rightarrow> (Inr (sw_item x' # items), s2)))"

definition expire_due_locked ::
  "('s, 'j, 'e) repository \<Rightarrow> ('n waiting_item, 'j) serde \<Rightarrow> 's \<Rightarrow> timestamp \<Rightarrow>
   (waiting_error + 'n waiting_item list) \<times> 's" where
  "expire_due_locked R C s now =
     (case wait_load_all R C s of
        Inl e \<Rightarrow> (Inl e, s)
      | Inr xs \<Rightarrow> expire_waits R C s now (filter (\<lambda>x. wait_due now (sw_item x)) xs))"

fun signal_waits ::
  "('s, 'j, 'e) repository \<Rightarrow> ('n waiting_item, 'j) serde \<Rightarrow> 's wake_sink \<Rightarrow> 's \<Rightarrow> 'n wake_event \<Rightarrow>
   'n stored_waiting list \<Rightarrow> (waiting_error + 'n waiting_item list) \<times> 's" where
  "signal_waits R C sink s event [] = (Inr [], s)"
| "signal_waits R C sink s event (x # xs) =
     (case wait_put R C s (x\<lparr>sw_item := (sw_item x)\<lparr>wi_state := WaitFired,
              wi_fired_by := Some (we_id event), wi_updated_at := we_occurred_at event\<rparr>\<rparr>) of
        (Inl _, s1) \<Rightarrow> signal_waits R C sink s1 event xs
      | (Inr x', s1) \<Rightarrow>
          (case enqueue_fired R C sink s1 x' (we_occurred_at event) of
             (Inl e, s2) \<Rightarrow> (Inl e, s2)
           | (Inr item, s2) \<Rightarrow>
               (case signal_waits R C sink s2 event xs of
                  (Inl e, s3) \<Rightarrow> (Inl e, s3)
                | (Inr items, s3) \<Rightarrow> (Inr (item # items), s3))))"

definition wait_signal ::
  "('s, 'j, 'e) repository \<Rightarrow> ('n waiting_item, 'j) serde \<Rightarrow> 's wake_sink \<Rightarrow> (string \<Rightarrow> string) \<Rightarrow>
   waiting_service \<Rightarrow> 's \<Rightarrow> 'n wake_event \<Rightarrow> (waiting_error + 'n waiting_item list) \<times> 's" where
  "wait_signal R C sink lower svc s event =
     (if ws_poisoned svc then (Inl WaitLockPoisoned, s)
      else (case expire_due_locked R C s (we_occurred_at event) of
          (Inl e, s1) \<Rightarrow> (Inl e, s1)
        | (Inr _, s1) \<Rightarrow>
            (case wait_load_all R C s1 of
               Inl e \<Rightarrow> (Inl e, s1)
             | Inr xs \<Rightarrow>
                 signal_waits R C sink s1 event
                   (filter (\<lambda>x. wi_state (sw_item x) = WaitArmed
                        \<and> trigger_matches lower (wi_trigger (sw_item x)) event) xs))))"

fun recover_waits ::
  "('s, 'j, 'e) repository \<Rightarrow> ('n waiting_item, 'j) serde \<Rightarrow> 's wake_sink \<Rightarrow> 's \<Rightarrow> timestamp \<Rightarrow>
   'n stored_waiting list \<Rightarrow> (waiting_error + 'n waiting_item list) \<times> 's" where
  "recover_waits R C sink s now [] = (Inr [], s)"
| "recover_waits R C sink s now (x # xs) =
     (case enqueue_fired R C sink s x now of
        (Inl e, s1) \<Rightarrow> (Inl e, s1)
      | (Inr item, s1) \<Rightarrow>
          (case recover_waits R C sink s1 now xs of
             (Inl e, s2) \<Rightarrow> (Inl e, s2)
           | (Inr items, s2) \<Rightarrow> (Inr (item # items), s2)))"

definition wait_recover ::
  "('s, 'j, 'e) repository \<Rightarrow> ('n waiting_item, 'j) serde \<Rightarrow> 's wake_sink \<Rightarrow> waiting_service \<Rightarrow> 's \<Rightarrow>
   timestamp \<Rightarrow> (waiting_error + 'n waiting_item list) \<times> 's" where
  "wait_recover R C sink svc s now =
     (if ws_poisoned svc then (Inl WaitLockPoisoned, s)
      else (case expire_due_locked R C s now of
          (Inl e, s1) \<Rightarrow> (Inl e, s1)
        | (Inr _, s1) \<Rightarrow>
            (case wait_load_all R C s1 of
               Inl e \<Rightarrow> (Inl e, s1)
             | Inr xs \<Rightarrow>
                 recover_waits R C sink s1 now (filter (\<lambda>x. wi_state (sw_item x) = WaitFired) xs))))"

definition wait_transition ::
  "('s, 'j, 'e) repository \<Rightarrow> ('n waiting_item, 'j) serde \<Rightarrow> waiting_service \<Rightarrow> 's \<Rightarrow> entity_id \<Rightarrow>
   waiting_state \<Rightarrow> timestamp \<Rightarrow> (waiting_error + 'n waiting_item) \<times> 's" where
  "wait_transition R C svc s i next now =
     (if ws_poisoned svc then (Inl WaitLockPoisoned, s)
      else (case wait_required R C s i of
          Inl e \<Rightarrow> (Inl e, s)
        | Inr stored \<Rightarrow>
            if \<not> (wi_state (sw_item stored) \<in> {WaitArmed, WaitFired} \<and> next = WaitCancelled)
            then (Inl WaitInvalidTransition, s)
            else (case wait_put R C s (stored\<lparr>sw_item := (sw_item stored)\<lparr>wi_state := next,
                         wi_updated_at := now\<rparr>\<rparr>) of
                (Inl e, s') \<Rightarrow> (Inl e, s')
              | (Inr stored', s') \<Rightarrow> (Inr (sw_item stored'), s'))))"

definition wait_cancel where
  "wait_cancel R C svc s i now = wait_transition R C svc s i WaitCancelled now"

definition wait_expire_due ::
  "('s, 'j, 'e) repository \<Rightarrow> ('n waiting_item, 'j) serde \<Rightarrow> waiting_service \<Rightarrow> 's \<Rightarrow> timestamp \<Rightarrow>
   (waiting_error + 'n waiting_item list) \<times> 's" where
  "wait_expire_due R C svc s now =
     (if ws_poisoned svc then (Inl WaitLockPoisoned, s) else expire_due_locked R C s now)"

definition wait_list_session ::
  "('s, 'j, 'e) repository \<Rightarrow> ('n waiting_item, 'j) serde \<Rightarrow> 's \<Rightarrow> session_id \<Rightarrow>
   waiting_error + 'n waiting_item list" where
  "wait_list_session R C s sid =
     (case wait_load_all R C s of
        Inl e \<Rightarrow> Inl e
      | Inr xs \<Rightarrow>
          Inr (sort_key wi_created_at
            (map sw_item (filter (\<lambda>x. wi_session_id (sw_item x) = sid) xs))))"

section \<open>Wildcards\<close>

text \<open>What a pattern means: \<open>*\<close> stands for any text, every other character for itself.\<close>

inductive glob :: "string \<Rightarrow> string \<Rightarrow> bool" where
  glob_Nil: "glob [] []"
| glob_char: "c \<noteq> CHR ''*'' \<Longrightarrow> glob p v \<Longrightarrow> glob (c # p) (c # v)"
| glob_star: "glob p v \<Longrightarrow> glob (CHR ''*'' # p) (w @ v)"

inductive_cases glob_NilE: "glob [] v"
inductive_cases glob_ConsE: "glob (c # p) v"

fun parts_match :: "string list \<Rightarrow> string \<Rightarrow> bool" where
  "parts_match [] v = False"
| "parts_match [p] v = (v = p)"
| "parts_match (p # q # ps) v = (\<exists>w u. v = p @ w @ u \<and> parts_match (q # ps) u)"

definition skip_match :: "string list \<Rightarrow> string \<Rightarrow> bool" where
  "skip_match ps v \<longleftrightarrow> (\<exists>w u. v = w @ u \<and> parts_match ps u)"

lemma glob_literal: "CHR ''*'' \<notin> set p \<Longrightarrow> glob (p @ q) v \<longleftrightarrow> (\<exists>u. v = p @ u \<and> glob q u)"
proof (induction p arbitrary: v)
  case (Cons c p)
  then show ?case by (auto intro: glob_char elim: glob_ConsE)
qed simp

lemma glob_star_iff: "glob (CHR ''*'' # p) v \<longleftrightarrow> (\<exists>w u. v = w @ u \<and> glob p u)"
  by (subst glob.simps) auto

lemma glob_join:
  "ps \<noteq> [] \<Longrightarrow> \<forall>p \<in> set ps. CHR ''*'' \<notin> set p \<Longrightarrow>
   glob (join_with (CHR ''*'') ps) v \<longleftrightarrow> parts_match ps v"
proof (induction ps v rule: parts_match.induct)
  case (2 p v)
  then show ?case using glob_literal [of p "[]" v] by (auto intro: glob_Nil elim: glob_NilE)
next
  case (3 p q ps v)
  have "glob (CHR ''*'' # join_with (CHR ''*'') (q # ps)) u
      \<longleftrightarrow> (\<exists>w u'. u = w @ u' \<and> parts_match (q # ps) u')" for u
    using 3 by (simp add: glob_star_iff)
  then show ?case using glob_literal [of p _ v] 3(3) by auto
qed simp

lemma skip_match_extend: "skip_match ps v \<Longrightarrow> skip_match ps (w @ v)"
  unfolding skip_match_def by (metis append.assoc)

lemma skip_match_single: "skip_match [p] v \<longleftrightarrow> ends_with p v"
proof
  assume "ends_with p v"
  then have "v = take (length v - length p) v @ p"
    unfolding ends_with_def by (metis append_take_drop_id)
  then show "skip_match [p] v" unfolding skip_match_def by auto
qed (auto simp: skip_match_def ends_with_def)

text \<open>Taking the leftmost occurrence of a part never loses a match.\<close>

lemma skip_match_greedy:
  "skip_match (p # q # ps) v \<longleftrightarrow>
     (case str_find p v of None \<Rightarrow> False | Some n \<Rightarrow> skip_match (q # ps) (drop (n + length p) v))"
proof (cases "str_find p v")
  case None
  then show ?thesis using str_find_None [of p v] by (auto simp: skip_match_def)
next
  case (Some n)
  have at: "drop n v = p @ drop (n + length p) v"
    using starts_withD [OF conjunct2 [OF str_find_Some [OF Some]]] by (simp add: add.commute)
  have "skip_match (q # ps) (drop (n + length p) v)" if m: "skip_match (p # q # ps) v"
  proof -
    obtain a w u where v: "v = a @ p @ w @ u" and u: "parts_match (q # ps) u"
      using m by (auto simp: skip_match_def)
    have "n \<le> length a" using str_find_le [OF v] Some by auto
    then have "drop (n + length p) v = drop (n + length p) (a @ p) @ w @ u" by (simp add: v)
    then show ?thesis unfolding skip_match_def using u by (metis append.assoc)
  qed
  moreover have "skip_match (p # q # ps) v" if m: "skip_match (q # ps) (drop (n + length p) v)"
  proof -
    obtain w u where "drop (n + length p) v = w @ u" "parts_match (q # ps) u"
      using m by (auto simp: skip_match_def)
    then have "v = take n v @ p @ w @ u" and "parts_match (q # ps) u" using at by (metis append_take_drop_id)+
    then show ?thesis unfolding skip_match_def parts_match.simps by blast
  qed
  ultimately show ?thesis using Some by auto
qed

lemma starts_with_iff: "starts_with p s \<longleftrightarrow> (\<exists>u. s = p @ u)"
  using starts_withD by auto

lemma str_find_starts: "starts_with p s \<Longrightarrow> str_find p s = Some 0"
  by (cases s) (auto simp: starts_with_def)

lemma str_find_bound:
  assumes "str_find p s = Some n"
  shows "n + length p \<le> length s"
proof -
  have n: "n \<le> length s" and "drop n s = p @ drop (length p) (drop n s)"
    using str_find_Some [OF assms] starts_withD by blast+
  then have "length (drop n s) = length p + length (drop (length p) (drop n s))" by (metis length_append)
  then show ?thesis using n by simp
qed

lemma ends_with_drop:
  assumes "p \<noteq> []" and "k \<le> length v"
  shows "ends_with p (drop k v) \<longleftrightarrow> str_find p (drop k v) \<noteq> None \<and> ends_with p v"
proof
  assume e: "ends_with p (drop k v)"
  then have "drop k v = take (length v - k - length p) (drop k v) @ p"
    unfolding ends_with_def by (metis append_take_drop_id length_drop)
  then have "str_find p (drop k v) \<noteq> None" using str_find_None by (metis append_Nil2)
  moreover have "ends_with p v" using e assms(2) by (auto simp: ends_with_def)
  ultimately show "str_find p (drop k v) \<noteq> None \<and> ends_with p v" by simp
next
  assume a: "str_find p (drop k v) \<noteq> None \<and> ends_with p v"
  then obtain n where "str_find p (drop k v) = Some n" by blast
  then have "length p \<le> length v - k" using str_find_bound by fastforce
  then show "ends_with p (drop k v)" using a assms(2) by (simp add: ends_with_def)
qed

lemma wildcard_loop_skip:
  "ps \<noteq> [] \<Longrightarrow> 0 < index \<Longrightarrow> k \<le> length v \<Longrightarrow>
   wildcard_loop pattern v index k ps \<and> ends_with (last ps) v \<longleftrightarrow> skip_match ps (drop k v)"
proof (induction ps arbitrary: index k)
  case (Cons p ps)
  show ?case
  proof (cases ps)
    case Nil
    then show ?thesis
      using Cons.prems ends_with_drop [of p k v]
      by (cases "p = []") (auto simp: skip_match_single ends_with_def split: option.splits)
  next
    case (Cons q qs)
    note ps = Cons
    have step: "k + (n + length p) \<le> length v" if "str_find p (drop k v) = Some n" for n
      using str_find_bound [OF that] Cons.prems(3) by simp
    show ?thesis
    proof (cases "p = []")
      case True
      have "str_find [] u = Some 0" for u by (cases u) (auto simp: starts_with_def)
      then show ?thesis
        using Cons.IH [of "Suc index" k] Cons.prems True ps
        by (simp add: skip_match_greedy)
    next
      case False
      show ?thesis
      proof (cases "str_find p (drop k v)")
        case None
        then show ?thesis using False ps by (simp add: skip_match_greedy)
      next
        case (Some n)
        have loop: "wildcard_loop pattern v index k (p # ps)
            = wildcard_loop pattern v (Suc index) (k + (n + length p)) ps"
          using False Some Cons.prems(2) by simp
        have skip: "skip_match (p # ps) (drop k v) = skip_match ps (drop (k + (n + length p)) v)"
          unfolding ps skip_match_greedy Some by (simp add: add.commute add.left_commute)
        show ?thesis
          unfolding loop skip using Cons.IH [of "Suc index", OF _ _ step [OF Some]] ps by simp
      qed
    qed
  qed
qed simp

lemma split_on_starts:
  "split_on d s = [] # q # qs \<Longrightarrow> starts_with [d] s"
  by (cases s) (auto simp: starts_with_def split: if_splits list.splits)

lemma split_on_starts_part:
  "split_on d s = (c # p) # ps \<Longrightarrow> \<not> starts_with [d] s"
  by (cases s) (auto simp: starts_with_def split: if_splits list.splits)

lemma split_on_ends: "ends_with [d] s \<Longrightarrow> last (split_on d s) = []"
proof (induction s)
  case (Cons c cs)
  show ?case
  proof (cases cs)
    case Nil
    then show ?thesis using Cons.prems by (simp add: ends_with_def)
  next
    case (Cons b bs)
    have "ends_with [d] cs" using Cons.prems Cons by (simp add: ends_with_def Suc_diff_le)
    then have l: "last (split_on d cs) = []" by (rule Cons.IH)
    obtain p ps where sp: "split_on d cs = p # ps" by (meson list.exhaust split_on_not_Nil)
    have "ps \<noteq> []"
    proof
      assume "ps = []"
      then have "cs = []" using l sp join_split [of d cs] by simp
      then show False using Cons by simp
    qed
    then show ?thesis using l sp by (auto split: if_splits)
  qed
qed (simp add: ends_with_def)

lemma wildcard_match_glob: "wildcard_match pattern value \<longleftrightarrow> glob pattern value"
proof -
  let ?ps = "split_on (CHR ''*'') pattern"
  have g: "glob pattern value \<longleftrightarrow> parts_match ?ps value"
    using glob_join [of ?ps "value"] split_on_no_sep [of _ "CHR ''*''" pattern]
    by (simp only: join_split split_on_not_Nil not_False_eq_True simp_thms) blast
  obtain p ps where sp: "?ps = p # ps" by (meson list.exhaust split_on_not_Nil)
  show ?thesis
  proof (cases ps)
    case Nil
    then have "pattern = p" using join_split [of "CHR ''*''" pattern] sp by simp
    then show ?thesis using g sp Nil by (auto simp: wildcard_match_def)
  next
    case (Cons q qs)
    have last: "(ends_with ''*'' pattern \<or> ends_with (last ?ps) value) = ends_with (last (q # qs)) value"
      using split_on_ends [of "CHR ''*''" pattern] sp Cons by (auto simp: ends_with_def)
    have loop: "wildcard_match pattern value \<longleftrightarrow>
        wildcard_loop pattern value 0 0 (p # q # qs) \<and> ends_with (last (q # qs)) value"
      unfolding wildcard_match_def Let_def last using sp Cons by simp
    show ?thesis
    proof (cases p)
      case Nil
      then show ?thesis
        using loop g sp Cons wildcard_loop_skip [of "q # qs" "Suc 0" 0 "value" pattern]
        by (auto simp: skip_match_def)
    next
      case (Cons c cs)
      note p = this
      have ns: "\<not> starts_with ''*'' pattern" using split_on_starts_part sp p by metis
      have first: "wildcard_loop pattern value 0 0 (p # q # qs) \<longleftrightarrow>
          starts_with p value \<and> wildcard_loop pattern value (Suc 0) (length p) (q # qs)"
        using ns p str_find_Some [of p "value"] str_find_starts [of p "value"]
        by (auto split: option.splits)
      have "parts_match (p # q # qs) value \<longleftrightarrow> starts_with p value \<and> skip_match (q # qs) (drop (length p) value)"
        by (auto simp: skip_match_def starts_with_iff) blast+
      moreover have "wildcard_loop pattern value (Suc 0) (length p) (q # qs) \<and> ends_with (last (q # qs)) value
          \<longleftrightarrow> skip_match (q # qs) (drop (length p) value)" if "starts_with p value"
        using starts_withD [OF that]
        by (intro wildcard_loop_skip) (auto, metis length_append le_add1)
      moreover have "glob pattern value \<longleftrightarrow> parts_match (p # q # qs) value"
        using g sp \<open>ps = q # qs\<close> by (simp only:)
      ultimately show ?thesis using loop first by blast
    qed
  qed
qed

section \<open>Specification\<close>

type_synonym 'n wait_table = "entity_id \<Rightarrow> 'n stored_waiting option"

definition waits_of :: "('n waiting_item, 'j) serde \<Rightarrow> 'j view \<Rightarrow> 'n wait_table" where
  "waits_of C v = records_of (\<lambda>x. x) (decode_wait C) v"

text \<open>The changes of one wait that the service makes; \<open>P\<close> holds of the actions that are in the inbox.\<close>

inductive wait_moves ::
  "(string \<Rightarrow> string) \<Rightarrow> (action_id \<Rightarrow> bool) \<Rightarrow> 'n waiting_item \<Rightarrow> 'n waiting_item \<Rightarrow> bool"
  for lower P where
  expire: "wait_due now item \<Longrightarrow>
     wait_moves lower P item (item\<lparr>wi_state := WaitExpired, wi_updated_at := now\<rparr>)"
| fire: "wi_state item = WaitArmed \<Longrightarrow> trigger_matches lower (wi_trigger item) event \<Longrightarrow>
     \<not> wait_due (we_occurred_at event) item \<Longrightarrow>
     wait_moves lower P item (item\<lparr>wi_state := WaitFired, wi_fired_by := Some (we_id event),
       wi_updated_at := we_occurred_at event\<rparr>)"
| resume: "wi_state item = WaitFired \<Longrightarrow> P (wi_action_id item) \<Longrightarrow>
     wait_moves lower P item (item\<lparr>wi_state := WaitResumed, wi_safe_error := None, wi_updated_at := now\<rparr>)"
| refuse: "wi_state item = WaitFired \<Longrightarrow>
     wait_moves lower P item (item\<lparr>wi_safe_error := Some (safe_error e), wi_updated_at := now\<rparr>)"
| cancel: "wi_state item \<in> {WaitArmed, WaitFired} \<Longrightarrow>
     wait_moves lower P item (item\<lparr>wi_state := WaitCancelled, wi_updated_at := now\<rparr>)"

inductive wait_spec ::
  "(string \<Rightarrow> string) \<Rightarrow> 'n wait_table \<times> (action_id \<Rightarrow> bool) \<Rightarrow> 'n wait_table \<times> (action_id \<Rightarrow> bool) \<Rightarrow> bool"
  for lower where
  registered: "W (wi_id item) = None \<Longrightarrow> validate_trigger (wi_trigger item) = Inr () \<Longrightarrow>
     wi_state item = WaitArmed \<Longrightarrow> wi_fired_by item = None \<Longrightarrow> wi_version item = CURRENT_SCHEMA_VERSION \<Longrightarrow>
     \<not> wait_due (wi_created_at item) item \<Longrightarrow>
     wait_spec lower (W, P) (W(wi_id item \<mapsto> \<lparr>sw_item = item, sw_revision = revision_zero\<rparr>), P)"
| changed: "W i = Some x \<Longrightarrow> wait_moves lower P (sw_item x) item' \<Longrightarrow> sw_revision x < n \<Longrightarrow>
     wait_spec lower (W, P) (W(i \<mapsto> \<lparr>sw_item = item', sw_revision = n\<rparr>), P)"
| enqueued: "(\<And>i. P i \<Longrightarrow> P' i) \<Longrightarrow> wait_spec lower (W, P) (W, P')"

text \<open>The changes of the store that the service's operations make, interleaved with changes
  elsewhere that leave the waits alone and lose no action.\<close>

inductive wait_op ::
  "('s, 'j, 'e) repository \<Rightarrow> ('s \<Rightarrow> 'j view) \<Rightarrow> ('s \<Rightarrow> bool) \<Rightarrow> ('n waiting_item, 'j) serde \<Rightarrow>
   's wake_sink \<Rightarrow> ('s \<Rightarrow> action_id \<Rightarrow> bool) \<Rightarrow> (string \<Rightarrow> string) \<Rightarrow> waiting_service \<Rightarrow> 's \<Rightarrow> 's \<Rightarrow> bool"
  for R view ok C sink present lower svc where
  op_register: "wait_register R C s request now i w a = (res, s') \<Longrightarrow>
     wait_op R view ok C sink present lower svc s s'"
| op_signal: "wait_signal R C sink lower svc s event = (items, s') \<Longrightarrow>
     wait_op R view ok C sink present lower svc s s'"
| op_recover: "wait_recover R C sink svc s now = (items, s') \<Longrightarrow>
     wait_op R view ok C sink present lower svc s s'"
| op_cancel: "wait_cancel R C svc s i now = (item, s') \<Longrightarrow>
     wait_op R view ok C sink present lower svc s s'"
| op_expire: "wait_expire_due R C svc s now = (items, s') \<Longrightarrow>
     wait_op R view ok C sink present lower svc s s'"
| op_elsewhere: "ok s' \<Longrightarrow> view s' = view s \<Longrightarrow> (\<And>i. present s i \<Longrightarrow> present s' i) \<Longrightarrow>
     wait_op R view ok C sink present lower svc s s'"

definition wait_inv :: "'n wait_table \<times> (action_id \<Rightarrow> bool) \<Rightarrow> bool" where
  "wait_inv = (\<lambda>(W, P). \<forall>i x. W i = Some x \<longrightarrow>
     (wi_state (sw_item x) = WaitResumed \<longrightarrow> P (wi_action_id (sw_item x)))
     \<and> (wi_state (sw_item x) \<in> {WaitFired, WaitResumed} \<longrightarrow> wi_fired_by (sw_item x) \<noteq> None))"

definition wait_terminal :: "waiting_state \<Rightarrow> bool" where
  "wait_terminal st \<longleftrightarrow> st \<in> {WaitResumed, WaitCancelled, WaitExpired}"

definition wait_identity :: "'n waiting_item \<Rightarrow> _" where
  "wait_identity w = (wi_version w, wi_id w, wi_profile_id w, wi_session_id w, wi_trigger w, wi_wake_id w,
     wi_action_id w, wi_reply_route w, wi_expires_at w, wi_created_at w)"

definition wait_later :: "'n stored_waiting \<Rightarrow> 'n stored_waiting \<Rightarrow> bool" where
  "wait_later x y \<longleftrightarrow>
     wait_identity (sw_item y) = wait_identity (sw_item x)
     \<and> (y = x \<or> sw_revision x < sw_revision y \<and> \<not> wait_terminal (wi_state (sw_item x)))
     \<and> (wi_state (sw_item x) = WaitFired \<longrightarrow> wi_state (sw_item y) \<notin> {WaitArmed, WaitExpired})"

lemma wait_spec_inv: "wait_spec lower S S' \<Longrightarrow> wait_inv S \<Longrightarrow> wait_inv S'"
proof (induction rule: wait_spec.induct)
  case (changed W i x P item' n)
  then show ?case by (auto simp: wait_inv_def elim!: wait_moves.cases)
qed (auto simp: wait_inv_def)

lemma wait_spec_star_inv: "(wait_spec lower)\<^sup>*\<^sup>* S S' \<Longrightarrow> wait_inv S \<Longrightarrow> wait_inv S'"
  by (induction rule: rtranclp_induct) (auto intro: wait_spec_inv)

lemma wait_moves_later:
  "wait_moves lower P (sw_item x) item' \<Longrightarrow> sw_revision x < n \<Longrightarrow>
   wait_later x \<lparr>sw_item = item', sw_revision = n\<rparr>"
  by (erule wait_moves.cases)
    (auto simp: wait_later_def wait_identity_def wait_terminal_def wait_due_def)

lemma wait_later_refl [simp]: "wait_later x x"
  by (auto simp: wait_later_def)

lemma wait_later_trans: "wait_later x y \<Longrightarrow> wait_later y z \<Longrightarrow> wait_later x z"
  unfolding wait_later_def wait_terminal_def
  by (cases "wi_state (sw_item x)"; cases "wi_state (sw_item y)") auto

lemma wait_spec_later:
  "wait_spec lower S S' \<Longrightarrow> fst S i = Some x \<Longrightarrow> \<exists>y. fst S' i = Some y \<and> wait_later x y"
proof (induction rule: wait_spec.induct)
  case (changed W k z P item' n)
  then show ?case using wait_moves_later by auto
qed auto

lemma wait_spec_star_later:
  "(wait_spec lower)\<^sup>*\<^sup>* S S' \<Longrightarrow> fst S i = Some x \<Longrightarrow> \<exists>y. fst S' i = Some y \<and> wait_later x y"
proof (induction rule: rtranclp_induct)
  case (step T U)
  then show ?case by (meson wait_later_trans wait_spec_later)
qed auto

section \<open>The service implements the specification\<close>

lemma decode_wait_fields:
  "decode_wait C vr = Inr x \<Longrightarrow>
     major (wi_version (sw_item x)) = major CURRENT_SCHEMA_VERSION
     \<and> wi_id (sw_item x) = vr_id vr \<and> sw_revision x = vr_revision vr"
  by (auto simp: decode_wait_def split: sum.splits if_splits)

lemma wait_record_fields:
  "wait_record C item n = Inr vr \<Longrightarrow> vr_id vr = wi_id item \<and> vr_revision vr = n"
  by (auto simp: wait_record_def split: sum.splits)

lemma wait_record_decode:
  assumes "serde_ok C" and "wait_record C (sw_item x) (sw_revision x) = Inr vr"
    and "major (wi_version (sw_item x)) = major CURRENT_SCHEMA_VERSION"
  shows "decode_wait C vr = Inr x"
proof -
  obtain j where j: "to_value C (sw_item x) = Inr j"
    using assms(2) by (auto simp: wait_record_def split: sum.splits)
  show ?thesis
    using assms(2,3) j serde_okD [OF assms(1) j] by (auto simp: wait_record_def decode_wait_def)
qed

text \<open>What the service relies on: its repository, a faithful encoding, and a sink that keeps the waits
  as they are and whose accepted actions are present and stay so.\<close>

locale waiting_store = repository_laws R view wf
  for R :: "('s, 'j, 'e) repository" and view :: "'s \<Rightarrow> 'j view" and wf :: "'s \<Rightarrow> bool" +
  fixes C :: "('n waiting_item, 'j) serde"
    and sink :: "'s wake_sink"
    and present :: "'s \<Rightarrow> action_id \<Rightarrow> bool"
  assumes codec: "wf s \<Longrightarrow> serde_ok C"
    and sink_keeps: "wf s \<Longrightarrow> enqueue_wake sink s a now = (res, s') \<Longrightarrow> wf s' \<and> view s' = view s"
    and sink_present: "wf s \<Longrightarrow> enqueue_wake sink s a now = (Inr status, s') \<Longrightarrow> present s' (sa_id a)"
    and sink_mono: "wf s \<Longrightarrow> enqueue_wake sink s a now = (res, s') \<Longrightarrow> present s i \<Longrightarrow> present s' i"
    and put_present: "wf s \<Longrightarrow> repo_put R s r p = (ack, s') \<Longrightarrow> present s i \<Longrightarrow> present s' i"

sublocale waiting_store \<subseteq> typed_store R view wf
  "\<lambda>x. wait_record C (sw_item x) (sw_revision x)" "decode_wait C" "\<lambda>x. x"
  "\<lambda>x. wi_id (sw_item x)" sw_revision
  "\<lambda>x. major (wi_version (sw_item x)) = major CURRENT_SCHEMA_VERSION"
  using codec by unfold_locales (auto dest: decode_wait_fields wait_record_fields wait_record_decode)

context waiting_store
begin

abbreviation waits :: "'s \<Rightarrow> 'n wait_table" where
  "waits s \<equiv> waits_of C (view s)"

abbreviation wabs :: "'s \<Rightarrow> 'n wait_table \<times> (action_id \<Rightarrow> bool)" where
  "wabs s \<equiv> (waits s, present s)"

lemmas waits_tab = waits_of_def [of C, symmetric]

lemmas waits_key = tab_key [unfolded waits_tab]
lemmas waits_supported = tab_good [unfolded waits_tab]

lemma wait_required_waits:
  assumes "wf s" and "wait_required R C s i = Inr x"
  shows "waits s i = Some x" and "wi_id (sw_item x) = i"
  using assms(2) get_tab [OF assms(1), unfolded waits_tab]
  by (auto simp: wait_required_def split: sum.splits option.splits)

lemma wait_load_all_waits:
  assumes "wf s" and "wait_load_all R C s = Inr xs"
  shows wait_load_all_mem: "x \<in> set xs \<Longrightarrow> waits s (wi_id (sw_item x)) = Some x"
    and wait_load_all_distinct: "distinct (map (\<lambda>x. wi_id (sw_item x)) xs)"
    and wait_load_all_complete: "waits s i = Some x \<Longrightarrow> x \<in> set xs"
proof -
  obtain rs where rs: "repo_list R s = Inr rs" "collect_results (map (decode_wait C) rs) = Inr xs"
    using assms(2) by (auto simp: wait_load_all_def split: sum.splits)
  note l = list_tab [OF assms(1) rs, unfolded waits_tab]
  show "x \<in> set xs \<Longrightarrow> waits s (wi_id (sw_item x)) = Some x" using l(1) by auto
  show "distinct (map (\<lambda>x. wi_id (sw_item x)) xs)" using l(2) by (simp add: comp_def)
  show "waits s i = Some x \<Longrightarrow> x \<in> set xs" using l(3) by blast
qed

text \<open>One write of a changed wait.\<close>

lemma wait_put_waits:
  assumes "wf s" and "waits s (wi_id (sw_item x)) = Some x"
    and "wi_id item = wi_id (sw_item x)" and "wi_version item = wi_version (sw_item x)"
    and "wait_put R C s (x\<lparr>sw_item := item\<rparr>) = (res, s')"
  shows "wf s' \<and> (\<forall>i. present s i \<longrightarrow> present s' i)
    \<and> (waits s' = waits s \<and> (\<exists>e. res = Inl e)
      \<or> sw_revision x < sw_revision x + 1
        \<and> waits s' = (waits s)(wi_id (sw_item x) \<mapsto> \<lparr>sw_item = item, sw_revision = sw_revision x + 1\<rparr>)
        \<and> (\<forall>y. res = Inr y \<longrightarrow> y = \<lparr>sw_item = item, sw_revision = sw_revision x + 1\<rparr>))"
proof (cases "\<exists>e. res = Inl e \<and> s' = s")
  case True
  then show ?thesis using assms(1) by auto
next
  case False
  let ?y = "\<lparr>sw_item = item, sw_revision = sw_revision x + 1\<rparr> :: 'n stored_waiting"
  obtain n where n: "checked_next (sw_revision x) = Some n"
    using assms(5) False by (auto simp: wait_put_def split: option.splits)
  note n1 = checked_next_eq [OF n]
  obtain vr where vr: "wait_record C item (sw_revision x + 1) = Inr vr"
    using assms(5) False n n1 by (auto simp: wait_put_def split: sum.splits)
  obtain r0 s0 where put: "repo_put R s vr (Exact (sw_revision x)) = (r0, s0)" by fastforce
  have s0: "s' = s0" "\<And>e. r0 = Inl e \<Longrightarrow> \<exists>e'. res = Inl e'" "\<And>c. r0 = Inr c \<Longrightarrow> res = Inr ?y"
    using assms(5) n n1 vr put by (auto simp: wait_put_def split: sum.splits)
  have good: "major (wi_version (sw_item ?y)) = major CURRENT_SCHEMA_VERSION"
    using waits_supported [OF assms(2)] assms(4) by simp
  have "wf s'" and "waits s' = waits s \<and> (\<exists>e. r0 = Inl e)
      \<or> sw_revision x < sw_revision x + 1 \<and> waits s' = (waits s)(wi_id (sw_item x) \<mapsto> ?y)"
    using put_exact_tab [OF assms(1) _ good put, unfolded waits_tab] vr s0(1) assms(3) by simp_all
  moreover have "present s i \<Longrightarrow> present s' i" for i using put_present [OF assms(1) put] s0(1) by blast
  moreover have "res = Inr y \<Longrightarrow> y = ?y" for y using s0(2,3) by (cases r0) auto
  ultimately show ?thesis using s0(2) by blast
qed

lemma wait_put_spec:
  assumes "wf s" and "waits s (wi_id (sw_item x)) = Some x"
    and "wait_moves lower (present s) (sw_item x) item"
    and "wait_put R C s (x\<lparr>sw_item := item\<rparr>) = (res, s')"
  shows "wf s' \<and> (wait_spec lower)\<^sup>*\<^sup>* (wabs s) (wabs s')"
proof -
  have "wi_id item = wi_id (sw_item x)" "wi_version item = wi_version (sw_item x)"
    using assms(3) by (auto elim: wait_moves.cases)
  note put = wait_put_waits [OF assms(1,2) this assms(4)]
  have mono: "wait_spec lower (waits s', present s) (wabs s')"
    using put by (intro wait_spec.enqueued) auto
  show ?thesis
  proof (cases "waits s' = waits s")
    case True
    then show ?thesis using put mono by auto
  next
    case False
    then have "wait_spec lower (wabs s) (waits s', present s)"
      using put wait_spec.changed [of "waits s" "wi_id (sw_item x)", OF assms(2,3)] by auto
    then show ?thesis using put mono by (meson converse_rtranclp_into_rtranclp r_into_rtranclp)
  qed
qed

lemma enqueue_fired_spec:
  assumes "wf s" and "waits s (wi_id (sw_item x)) = Some x" and "wi_state (sw_item x) = WaitFired"
    and "enqueue_fired R C sink s x now = (res, s')"
  shows "wf s' \<and> (wait_spec lower)\<^sup>*\<^sup>* (wabs s) (wabs s')
    \<and> (\<forall>i. i \<noteq> wi_id (sw_item x) \<longrightarrow> waits s' i = waits s i)
    \<and> (\<forall>item. res = Inr item \<longrightarrow> (\<exists>y. waits s' (wi_id (sw_item x)) = Some y \<and> sw_item y = item
        \<and> (wi_state item = WaitResumed \<or> wi_state item = WaitFired \<and> wi_safe_error item \<noteq> None)))"
proof -
  obtain r1 s1 where e: "enqueue_wake sink s (resume_action (sw_item x) now) now = (r1, s1)" by fastforce
  have s1: "wf s1" "view s1 = view s" "\<And>i. present s i \<Longrightarrow> present s1 i"
    using sink_keeps [OF assms(1) e] sink_mono [OF assms(1) e] by auto
  have enq: "wait_spec lower (wabs s) (wabs s1)" unfolding s1(2) by (rule wait_spec.enqueued) (rule s1(3))
  have x1: "waits s1 (wi_id (sw_item x)) = Some x" using assms(2) s1(2) by simp
  obtain item r2 where put: "wait_put R C s1 (x\<lparr>sw_item := item\<rparr>) = (r2, s')"
    and moves: "wait_moves lower (present s1) (sw_item x) item"
    and item: "wi_id item = wi_id (sw_item x)" "wi_version item = wi_version (sw_item x)"
      "wi_state item = WaitResumed \<or> wi_state item = WaitFired \<and> wi_safe_error item \<noteq> None"
    and res: "\<And>it. res = Inr it \<Longrightarrow> \<exists>y. r2 = Inr y \<and> sw_item y = it"
  proof (cases r1)
    case (Inl err)
    show ?thesis
      by (rule that [of "(sw_item x)\<lparr>wi_safe_error := Some (safe_error err), wi_updated_at := now\<rparr>"
            "fst (wait_put R C s1 (x\<lparr>sw_item := (sw_item x)\<lparr>wi_safe_error := Some (safe_error err), wi_updated_at := now\<rparr>\<rparr>))"])
        (use assms(3,4) e Inl in \<open>auto simp: enqueue_fired_def split: prod.splits sum.splits
            intro: wait_moves.refuse\<close>)
  next
    case (Inr status)
    have "present s1 (wi_action_id (sw_item x))"
      using sink_present [OF assms(1)] e Inr by (metis resume_action_def session_action.select_convs(1))
    then show ?thesis
      by (intro that [of "(sw_item x)\<lparr>wi_state := WaitResumed, wi_safe_error := None, wi_updated_at := now\<rparr>"
            "fst (wait_put R C s1 (x\<lparr>sw_item := (sw_item x)\<lparr>wi_state := WaitResumed, wi_safe_error := None, wi_updated_at := now\<rparr>\<rparr>))"])
        (use assms(3,4) e Inr in \<open>auto simp: enqueue_fired_def split: prod.splits sum.splits
            intro: wait_moves.resume\<close>)
  qed
  have spec: "wf s' \<and> (wait_spec lower)\<^sup>*\<^sup>* (wabs s1) (wabs s')" by (rule wait_put_spec [OF s1(1) x1 moves put])
  note w = wait_put_waits [OF s1(1) x1 item(1,2) put]
  have "waits s' i = waits s i" if "i \<noteq> wi_id (sw_item x)" for i
  proof -
    have "waits s' i = waits s1 i" using w that by (metis fun_upd_other)
    then show ?thesis using s1(2) by simp
  qed
  moreover have "\<exists>y. waits s' (wi_id (sw_item x)) = Some y \<and> sw_item y = it
        \<and> (wi_state it = WaitResumed \<or> wi_state it = WaitFired \<and> wi_safe_error it \<noteq> None)"
    if "res = Inr it" for it
  proof -
    obtain y where y: "r2 = Inr y" "sw_item y = it" using res \<open>res = Inr it\<close> by blast
    then have "waits s' (wi_id (sw_item x)) = Some y \<and> sw_item y = item" using w by auto
    then show ?thesis using y(2) item(3) by auto
  qed
  moreover have "(wait_spec lower)\<^sup>*\<^sup>* (wabs s) (wabs s')"
    using spec enq by (meson converse_rtranclp_into_rtranclp)
  ultimately show ?thesis using spec by simp
qed

end

context waiting_store
begin

abbreviation wait_key :: "'n stored_waiting \<Rightarrow> entity_id" where
  "wait_key x \<equiv> wi_id (sw_item x)"

definition wait_loaded :: "'s \<Rightarrow> 'n stored_waiting list \<Rightarrow> bool" where
  "wait_loaded s xs \<longleftrightarrow> distinct (map wait_key xs) \<and> (\<forall>x \<in> set xs. waits s (wait_key x) = Some x)"

lemma wait_loadedD:
  assumes "wait_loaded s (x # xs)"
  shows "waits s (wait_key x) = Some x" and "wait_loaded s xs" and "wait_key x \<notin> wait_key ` set xs"
  using assms by (auto simp: wait_loaded_def)

lemma wait_loaded_tail:
  assumes "wait_loaded s (x # xs)" and "\<And>i. i \<noteq> wait_key x \<Longrightarrow> waits s' i = waits s i"
  shows "wait_loaded s' xs"
  unfolding wait_loaded_def
proof (intro conjI ballI)
  show "distinct (map wait_key xs)" using assms(1) by (simp add: wait_loaded_def)
  fix y assume y: "y \<in> set xs"
  then have "wait_key y \<noteq> wait_key x" using wait_loadedD(3) [OF assms(1)] by (metis imageI)
  then show "waits s' (wait_key y) = Some y"
    using assms(2) wait_loadedD(2) [OF assms(1)] y by (simp add: wait_loaded_def)
qed

lemma wait_loaded_filter:
  assumes "wf s" and "wait_load_all R C s = Inr xs"
  shows "wait_loaded s (filter P xs)"
  using wait_load_all_distinct [OF assms] wait_load_all_mem [OF assms]
  by (auto simp: wait_loaded_def distinct_map intro: inj_on_subset)

lemma wait_put_frame:
  assumes "wf s" and "waits s (wait_key x) = Some x"
    and "wait_moves lower (present s) (sw_item x) item"
    and "wait_put R C s (x\<lparr>sw_item := item\<rparr>) = (res, s')"
  shows "i \<noteq> wait_key x \<Longrightarrow> waits s' i = waits s i"
    and "res = Inr y \<Longrightarrow> y = \<lparr>sw_item = item, sw_revision = sw_revision x + 1\<rparr> \<and> waits s' (wait_key x) = Some y"
    and "wi_id item = wait_key x"
proof -
  show k: "wi_id item = wait_key x" using assms(3) by (auto elim: wait_moves.cases)
  moreover have "wi_version item = wi_version (sw_item x)" using assms(3) by (auto elim: wait_moves.cases)
  ultimately have put: "waits s' = waits s \<and> (\<exists>e. res = Inl e)
      \<or> waits s' = (waits s)(wait_key x \<mapsto> \<lparr>sw_item = item, sw_revision = sw_revision x + 1\<rparr>)
        \<and> (\<forall>y. res = Inr y \<longrightarrow> y = \<lparr>sw_item = item, sw_revision = sw_revision x + 1\<rparr>)"
    using wait_put_waits [OF assms(1,2) _ _ assms(4)] by blast
  show "i \<noteq> wait_key x \<Longrightarrow> waits s' i = waits s i" using put by (metis fun_upd_other)
  show "res = Inr y \<Longrightarrow> y = \<lparr>sw_item = item, sw_revision = sw_revision x + 1\<rparr> \<and> waits s' (wait_key x) = Some y"
    using put by auto
qed

lemma expire_waits_spec:
  assumes "wf s" and "wait_loaded s xs" and "\<forall>x \<in> set xs. wait_due now (sw_item x)"
    and "expire_waits R C s now xs = (res, s')"
  shows "wf s' \<and> (wait_spec lower)\<^sup>*\<^sup>* (wabs s) (wabs s')
    \<and> (\<forall>i. i \<notin> wait_key ` set xs \<longrightarrow> waits s' i = waits s i)
    \<and> ((\<exists>items. res = Inr items) \<longrightarrow> (\<forall>x \<in> set xs. \<exists>y. waits s' (wait_key x) = Some y
        \<and> sw_item y = (sw_item x)\<lparr>wi_state := WaitExpired, wi_updated_at := now\<rparr>))"
  using assms
proof (induction xs arbitrary: s res)
  case Nil
  then show ?case by auto
next
  case (Cons x xs)
  let ?item = "(sw_item x)\<lparr>wi_state := WaitExpired, wi_updated_at := now\<rparr>"
  note x = wait_loadedD [OF Cons.prems(2)]
  have moves: "wait_moves lower (present s) (sw_item x) ?item"
    using Cons.prems(3) by (auto intro: wait_moves.expire)
  obtain r1 s1 where put: "wait_put R C s (x\<lparr>sw_item := ?item\<rparr>) = (r1, s1)" by fastforce
  note spec = wait_put_spec [OF Cons.prems(1) x(1) moves put]
  note fr = wait_put_frame [OF Cons.prems(1) x(1) moves put]
  have loaded: "wait_loaded s1 xs" by (rule wait_loaded_tail [OF Cons.prems(2) fr(1)])
  show ?case
  proof (cases r1)
    case (Inl e)
    then have "s' = s1" "res = Inl e" using Cons.prems(4) put by auto
    then show ?thesis using spec fr(1) by auto
  next
    case (Inr y)
    obtain r2 where r2: "expire_waits R C s1 now xs = (r2, s')" "(\<exists>items. res = Inr items) \<Longrightarrow> \<exists>items. r2 = Inr items"
      using Cons.prems(4) put Inr by (auto split: prod.splits sum.splits)
    note ih = Cons.IH [OF conjunct1 [OF spec] loaded _ r2(1)]
    have due: "\<forall>x \<in> set xs. wait_due now (sw_item x)" using Cons.prems(3) by simp
    have y: "y = \<lparr>sw_item = ?item, sw_revision = sw_revision x + 1\<rparr>" "waits s1 (wait_key x) = Some y"
      using fr(2) [OF Inr] by auto
    have kept: "waits s' (wait_key x) = Some y" using ih [OF due] x(3) y(2) by metis
    have "\<exists>z. waits s' (wait_key x) = Some z \<and> sw_item z = ?item" using kept y(1) by simp
    moreover have "(wait_spec lower)\<^sup>*\<^sup>* (wabs s) (wabs s')" using spec ih [OF due] by (meson rtranclp_trans)
    moreover have "waits s' i = waits s i" if "i \<notin> wait_key ` set (x # xs)" for i
      using ih [OF due] fr(1) that by auto
    moreover have "\<exists>z. waits s' (wait_key w) = Some z
        \<and> sw_item z = (sw_item w)\<lparr>wi_state := WaitExpired, wi_updated_at := now\<rparr>"
      if "\<exists>items. res = Inr items" "w \<in> set (x # xs)" for w
      using that calculation(1) ih [OF due] r2(2) by (cases "w = x") auto
    ultimately show ?thesis using ih [OF due] by blast
  qed
qed

lemma expire_due_locked_spec:
  assumes "wf s" and "expire_due_locked R C s now = (res, s')"
  shows "wf s' \<and> (wait_spec lower)\<^sup>*\<^sup>* (wabs s) (wabs s')
    \<and> (\<forall>i x. waits s i = Some x \<longrightarrow> \<not> wait_due now (sw_item x) \<longrightarrow> waits s' i = Some x)
    \<and> ((\<exists>items. res = Inr items) \<longrightarrow> (\<forall>i y. waits s' i = Some y \<longrightarrow> \<not> wait_due now (sw_item y)))"
proof (cases "wait_load_all R C s")
  case (Inl e)
  then show ?thesis using assms by (auto simp: expire_due_locked_def)
next
  case (Inr xs)
  let ?due = "filter (\<lambda>x. wait_due now (sw_item x)) xs"
  have run: "expire_waits R C s now ?due = (res, s')" using assms(2) Inr by (simp add: expire_due_locked_def)
  have spec: "wf s' \<and> (wait_spec lower)\<^sup>*\<^sup>* (wabs s) (wabs s')
      \<and> (\<forall>i. i \<notin> wait_key ` set ?due \<longrightarrow> waits s' i = waits s i)
      \<and> ((\<exists>items. res = Inr items) \<longrightarrow> (\<forall>x \<in> set ?due. \<exists>y. waits s' (wait_key x) = Some y
          \<and> sw_item y = (sw_item x)\<lparr>wi_state := WaitExpired, wi_updated_at := now\<rparr>))"
    using wait_loaded_filter [OF assms(1) Inr] by (intro expire_waits_spec [OF assms(1) _ _ run]) auto
  have notkey: "i \<notin> wait_key ` set ?due" if "waits s i = Some x" "\<not> wait_due now (sw_item x)" for i x
    using that wait_load_all_mem [OF assms(1) Inr] by auto
  have notdue: "\<not> wait_due now (sw_item y)" if ok: "\<exists>items. res = Inr items" and y: "waits s' i = Some y" for i y
  proof (cases "i \<in> wait_key ` set ?due")
    case True
    then obtain x where "x \<in> set ?due" "wait_key x = i" by blast
    then have "sw_item y = (sw_item x)\<lparr>wi_state := WaitExpired, wi_updated_at := now\<rparr>" using spec ok y by force
    then show ?thesis by (simp add: wait_due_def)
  next
    case False
    then have "waits s i = Some y" using spec y by simp
    moreover have "y \<in> set xs" using wait_load_all_complete [OF assms(1) Inr] calculation .
    ultimately show ?thesis using False waits_key [OF assms(1)] by force
  qed
  show ?thesis using spec notkey notdue by (metis (no_types, lifting))
qed

lemma signal_waits_spec:
  assumes "wf s" and "wait_loaded s xs"
    and "\<forall>x \<in> set xs. wi_state (sw_item x) = WaitArmed \<and> trigger_matches lower (wi_trigger (sw_item x)) event
      \<and> \<not> wait_due (we_occurred_at event) (sw_item x)"
    and "signal_waits R C sink s event xs = (res, s')"
  shows "wf s' \<and> (wait_spec lower)\<^sup>*\<^sup>* (wabs s) (wabs s')
    \<and> (\<forall>i. i \<notin> wait_key ` set xs \<longrightarrow> waits s' i = waits s i)
    \<and> (\<forall>items item. res = Inr items \<longrightarrow> item \<in> set items \<longrightarrow>
        wi_id item \<in> wait_key ` set xs \<and> (\<exists>y. waits s' (wi_id item) = Some y \<and> sw_item y = item)
        \<and> (wi_state item = WaitResumed \<or> wi_state item = WaitFired \<and> wi_safe_error item \<noteq> None))"
  using assms
proof (induction xs arbitrary: s res)
  case Nil
  then show ?case by auto
next
  case (Cons x xs)
  let ?item = "(sw_item x)\<lparr>wi_state := WaitFired, wi_fired_by := Some (we_id event),
      wi_updated_at := we_occurred_at event\<rparr>"
  note x = wait_loadedD [OF Cons.prems(2)]
  have rest: "\<forall>x \<in> set xs. wi_state (sw_item x) = WaitArmed \<and> trigger_matches lower (wi_trigger (sw_item x)) event
      \<and> \<not> wait_due (we_occurred_at event) (sw_item x)" using Cons.prems(3) by simp
  have moves: "wait_moves lower (present s) (sw_item x) ?item"
    using Cons.prems(3) by (auto intro: wait_moves.fire)
  obtain r1 s1 where put: "wait_put R C s (x\<lparr>sw_item := ?item\<rparr>) = (r1, s1)" by fastforce
  note spec = wait_put_spec [OF Cons.prems(1) x(1) moves put]
  note fr = wait_put_frame [OF Cons.prems(1) x(1) moves put]
  have loaded: "wait_loaded s1 xs" by (rule wait_loaded_tail [OF Cons.prems(2) fr(1)])
  show ?case
  proof (cases r1)
    case (Inl e)
    then have run: "signal_waits R C sink s1 event xs = (res, s')" using Cons.prems(4) put by simp
    note ih = Cons.IH [OF conjunct1 [OF spec] loaded rest run]
    have "(wait_spec lower)\<^sup>*\<^sup>* (wabs s) (wabs s')" using spec ih by (meson rtranclp_trans)
    then show ?thesis using ih fr(1) by auto
  next
    case (Inr y)
    have y: "sw_item y = ?item" "waits s1 (wait_key y) = Some y" "wait_key y = wait_key x"
      using fr(2) [OF Inr] by auto
    obtain r2 s2 where enq: "enqueue_fired R C sink s1 y (we_occurred_at event) = (r2, s2)" by fastforce
    have fired: "wi_state (sw_item y) = WaitFired" using y(1) by simp
    note e = enqueue_fired_spec [OF conjunct1 [OF spec] y(2) fired enq, of lower]
    have spec2: "(wait_spec lower)\<^sup>*\<^sup>* (wabs s) (wabs s2)" using spec e by (meson rtranclp_trans)
    have loaded2: "wait_loaded s2 xs" using e y(3) fr(1) by (intro wait_loaded_tail [OF Cons.prems(2)]) metis
    show ?thesis
    proof (cases r2)
      case (Inl err)
      then have "s' = s2" "res = Inl err" using Cons.prems(4) put Inr enq by auto
      then show ?thesis using e spec2 fr(1) y(3) by auto
    next
      case r2: (Inr item)
      obtain r3 where r3: "signal_waits R C sink s2 event xs = (r3, s')"
        "\<And>items. res = Inr items \<Longrightarrow> \<exists>its. items = item # its \<and> r3 = Inr its"
        using Cons.prems(4) put Inr enq r2 by (auto split: prod.splits sum.splits)
      note ih = Cons.IH [OF conjunct1 [OF e] loaded2 rest r3(1)]
      obtain z where z: "waits s2 (wait_key x) = Some z" "sw_item z = item"
        "wi_state item = WaitResumed \<or> wi_state item = WaitFired \<and> wi_safe_error item \<noteq> None"
        using e r2 y(3) by auto
      have "wait_key z = wait_key x" using waits_key [OF conjunct1 [OF e] z(1)] .
      then have key: "wi_id item = wait_key x" using z(2) by simp
      have z': "waits s' (wait_key x) = Some z" using ih x(3) z(1) by metis
      have "(wait_spec lower)\<^sup>*\<^sup>* (wabs s) (wabs s')" using spec2 ih by (meson rtranclp_trans)
      moreover have "waits s' i = waits s i" if "i \<notin> wait_key ` set (x # xs)" for i
        using ih fr(1) e that y(3) by auto
      moreover have "wi_id it \<in> wait_key ` set (x # xs) \<and> (\<exists>y. waits s' (wi_id it) = Some y \<and> sw_item y = it)
          \<and> (wi_state it = WaitResumed \<or> wi_state it = WaitFired \<and> wi_safe_error it \<noteq> None)"
        if its: "res = Inr items" "it \<in> set items" for items it
      proof -
        obtain tl where tl: "items = item # tl" "r3 = Inr tl" using r3(2) its(1) by blast
        show ?thesis
        proof (cases "it = item")
          case True
          then show ?thesis using key z' z by auto
        next
          case False
          then show ?thesis using ih tl its(2) by auto
        qed
      qed
      ultimately show ?thesis using ih by blast
    qed
  qed
qed

lemma recover_waits_spec:
  assumes "wf s" and "wait_loaded s xs" and "\<forall>x \<in> set xs. wi_state (sw_item x) = WaitFired"
    and "recover_waits R C sink s now xs = (res, s')"
  shows "wf s' \<and> (wait_spec lower)\<^sup>*\<^sup>* (wabs s) (wabs s')
    \<and> (\<forall>i. i \<notin> wait_key ` set xs \<longrightarrow> waits s' i = waits s i)
    \<and> ((\<exists>items. res = Inr items) \<longrightarrow> (\<forall>x \<in> set xs. \<exists>y. waits s' (wait_key x) = Some y
        \<and> (wi_state (sw_item y) = WaitResumed \<or> wi_state (sw_item y) = WaitFired \<and> wi_safe_error (sw_item y) \<noteq> None)))"
  using assms
proof (induction xs arbitrary: s res)
  case Nil
  then show ?case by auto
next
  case (Cons x xs)
  note x = wait_loadedD [OF Cons.prems(2)]
  have rest: "\<forall>x \<in> set xs. wi_state (sw_item x) = WaitFired" using Cons.prems(3) by simp
  obtain r1 s1 where enq: "enqueue_fired R C sink s x now = (r1, s1)" by fastforce
  have fired: "wi_state (sw_item x) = WaitFired" using Cons.prems(3) by simp
  note e = enqueue_fired_spec [OF Cons.prems(1) x(1) fired enq, of lower]
  have loaded: "wait_loaded s1 xs" using e by (intro wait_loaded_tail [OF Cons.prems(2)]) blast
  show ?case
  proof (cases r1)
    case (Inl err)
    then have "s' = s1" "res = Inl err" using Cons.prems(4) enq by auto
    then show ?thesis using e by auto
  next
    case (Inr item)
    obtain r2 where r2: "recover_waits R C sink s1 now xs = (r2, s')" "(\<exists>items. res = Inr items) \<Longrightarrow> \<exists>items. r2 = Inr items"
      using Cons.prems(4) enq Inr by (auto split: prod.splits sum.splits)
    note ih = Cons.IH [OF conjunct1 [OF e] loaded rest r2(1)]
    obtain z where z: "waits s1 (wait_key x) = Some z" "sw_item z = item"
      "wi_state item = WaitResumed \<or> wi_state item = WaitFired \<and> wi_safe_error item \<noteq> None"
      using e Inr by auto
    have z': "waits s' (wait_key x) = Some z" using ih x(3) z(1) by metis
    have "(wait_spec lower)\<^sup>*\<^sup>* (wabs s) (wabs s')" using e ih by (meson rtranclp_trans)
    moreover have "waits s' i = waits s i" if "i \<notin> wait_key ` set (x # xs)" for i using ih e that by auto
    moreover have "\<exists>y. waits s' (wait_key w) = Some y
        \<and> (wi_state (sw_item y) = WaitResumed \<or> wi_state (sw_item y) = WaitFired \<and> wi_safe_error (sw_item y) \<noteq> None)"
      if "\<exists>items. res = Inr items" "w \<in> set (x # xs)" for w
      using that z' z ih r2(2) by auto
    ultimately show ?thesis using ih by blast
  qed
qed

end

context waiting_store
begin

lemma wait_register_spec:
  assumes "wf s" and "wait_register R C s request now i w a = (res, s')"
  shows "wf s' \<and> (wait_spec lower)\<^sup>*\<^sup>* (wabs s) (wabs s')
    \<and> (\<forall>item d. res = Inr (item, d) \<longrightarrow>
        waits s' = (waits s)(i \<mapsto> \<lparr>sw_item = item, sw_revision = revision_zero\<rparr>) \<and> waits s i = None)"
proof (cases "\<exists>e. res = Inl e \<and> s' = s")
  case True
  then show ?thesis using assms(1) by auto
next
  case False
  define item where "item = new_wait request now i w a"
  have valid: "validate_trigger (nw_trigger request) = Inr ()"
    using assms(2) False by (auto simp: wait_register_def split: sum.splits)
  have live: "\<not> (case nw_expires_at request of None \<Rightarrow> False | Some expiry \<Rightarrow> expiry \<le> now)"
    using assms(2) False valid by (auto simp: wait_register_def)
  have body: "(case wait_record C item revision_zero of Inl e \<Rightarrow> (Inl e, s)
        | Inr vr \<Rightarrow> (case repo_put R s vr Missing of
            (Inl e, s') \<Rightarrow> (Inl (wait_repository_error R e), s')
          | (Inr _, s') \<Rightarrow> (Inr (item, release_waiting), s'))) = (res, s')"
    using assms(2) valid live unfolding item_def by (simp add: wait_register_def Let_def)
  obtain vr where vr: "wait_record C item revision_zero = Inr vr" using body False by (auto split: sum.splits)
  obtain r0 s0 where put: "repo_put R s vr Missing = (r0, s0)" by fastforce
  let ?x = "\<lparr>sw_item = item, sw_revision = revision_zero\<rparr> :: 'n stored_waiting"
  have s0: "s' = s0" "\<And>e. r0 = Inl e \<Longrightarrow> \<exists>e. res = Inl e" "\<And>c. r0 = Inr c \<Longrightarrow> res = Inr (item, release_waiting)"
    using body vr put by (auto split: sum.splits)
  have good: "major (wi_version (sw_item ?x)) = major CURRENT_SCHEMA_VERSION" by (simp add: item_def new_wait_def)
  have t: "wf s'" "waits s' = waits s \<and> (\<exists>e. r0 = Inl e) \<or> waits s i = None \<and> waits s' = (waits s)(i \<mapsto> ?x)"
    using put_new_tab [OF assms(1) _ good put, unfolded waits_tab] vr s0(1) by (simp_all add: item_def new_wait_def)
  have reg: "wait_spec lower (wabs s) ((waits s)(i \<mapsto> ?x), present s)" if "waits s i = None"
    using wait_spec.registered [of "waits s" item lower "present s"] that valid live by (simp add: item_def new_wait_def wait_due_def)
  have tail: "wait_spec lower (waits s', present s) (wabs s')"
    using put_present [OF assms(1) put] s0(1) by (intro wait_spec.enqueued) auto
  have "(wait_spec lower)\<^sup>*\<^sup>* (wabs s) (wabs s')"
  proof (cases "waits s' = waits s")
    case True
    then show ?thesis using tail by auto
  next
    case False
    then have "wait_spec lower (wabs s) (waits s', present s)" using t(2) reg by auto
    then show ?thesis using tail by (rule converse_rtranclp_into_rtranclp [OF _ r_into_rtranclp])
  qed
  moreover have "waits s' = (waits s)(i \<mapsto> \<lparr>sw_item = it, sw_revision = revision_zero\<rparr>) \<and> waits s i = None"
    if "res = Inr (it, d)" for it d using that t(2) s0(2,3) by (cases r0) auto
  ultimately show ?thesis using t(1) by blast
qed

lemma wait_signal_spec:
  assumes "wf s" and "wait_signal R C sink lower svc s event = (res, s')"
  shows "wf s' \<and> (wait_spec lower)\<^sup>*\<^sup>* (wabs s) (wabs s')
    \<and> (\<forall>i x. waits s i = Some x \<longrightarrow> \<not> wait_due (we_occurred_at event) (sw_item x)
        \<longrightarrow> \<not> (wi_state (sw_item x) = WaitArmed \<and> trigger_matches lower (wi_trigger (sw_item x)) event)
        \<longrightarrow> waits s' i = Some x)
    \<and> (\<forall>items item. res = Inr items \<longrightarrow> item \<in> set items \<longrightarrow>
        (\<exists>y. waits s' (wi_id item) = Some y \<and> sw_item y = item)
        \<and> (wi_state item = WaitResumed \<or> wi_state item = WaitFired \<and> wi_safe_error item \<noteq> None))"
proof (cases "ws_poisoned svc")
  case True
  then show ?thesis using assms by (auto simp: wait_signal_def)
next
  case False
  obtain r1 s1 where ex: "expire_due_locked R C s (we_occurred_at event) = (r1, s1)" by fastforce
  note e = expire_due_locked_spec [OF assms(1) ex, of lower]
  show ?thesis
  proof (cases "(\<exists>err. r1 = Inl err) \<or> (\<exists>err. wait_load_all R C s1 = Inl err)")
    case True
    then have "s' = s1" "\<exists>err. res = Inl err" using assms(2) False ex by (auto simp: wait_signal_def split: sum.splits)
    then show ?thesis using e by auto
  next
    case no_err: False
    then obtain items0 xs where r1: "r1 = Inr items0" and xs: "wait_load_all R C s1 = Inr xs"
      by (metis sum.exhaust)
    define ms where "ms = filter (\<lambda>x. wi_state (sw_item x) = WaitArmed
        \<and> trigger_matches lower (wi_trigger (sw_item x)) event) xs"
    have run: "signal_waits R C sink s1 event ms = (res, s')"
      using assms(2) False ex r1 xs by (simp add: wait_signal_def ms_def)
    have wf1: "wf s1" using e by blast
    have armed: "\<forall>x \<in> set ms. wi_state (sw_item x) = WaitArmed \<and> trigger_matches lower (wi_trigger (sw_item x)) event
        \<and> \<not> wait_due (we_occurred_at event) (sw_item x)"
      using e r1 wait_load_all_mem [OF wf1 xs] unfolding ms_def by (simp, blast)
    have loaded: "wait_loaded s1 ms" unfolding ms_def by (rule wait_loaded_filter [OF wf1 xs])
    note g = signal_waits_spec [OF wf1 loaded armed run]
    have "waits s' i = Some x" if x: "waits s i = Some x" "\<not> wait_due (we_occurred_at event) (sw_item x)"
      "\<not> (wi_state (sw_item x) = WaitArmed \<and> trigger_matches lower (wi_trigger (sw_item x)) event)" for i x
    proof -
      have x1: "waits s1 i = Some x" using e x by blast
      have "i \<notin> wait_key ` set ms"
      proof
        assume "i \<in> wait_key ` set ms"
        then obtain z where "z \<in> set ms" "wait_key z = i" by blast
        moreover have "waits s1 (wait_key z) = Some z" using loaded \<open>z \<in> set ms\<close> by (simp add: wait_loaded_def)
        ultimately show False using x1 x(3) armed by auto
      qed
      then show ?thesis using g x1 by simp
    qed
    moreover have "(wait_spec lower)\<^sup>*\<^sup>* (wabs s) (wabs s')" using e g by (meson rtranclp_trans)
    ultimately show ?thesis using g by blast
  qed
qed

lemma wait_recover_spec:
  assumes "wf s" and "wait_recover R C sink svc s now = (res, s')"
  shows "wf s' \<and> (wait_spec lower)\<^sup>*\<^sup>* (wabs s) (wabs s')
    \<and> ((\<exists>items. res = Inr items) \<longrightarrow> (\<forall>i y. waits s' i = Some y \<longrightarrow> wi_state (sw_item y) = WaitFired
        \<longrightarrow> wi_safe_error (sw_item y) \<noteq> None))"
proof (cases "ws_poisoned svc")
  case True
  then show ?thesis using assms by (auto simp: wait_recover_def)
next
  case False
  obtain r1 s1 where ex: "expire_due_locked R C s now = (r1, s1)" by fastforce
  note e = expire_due_locked_spec [OF assms(1) ex, of lower]
  show ?thesis
  proof (cases "(\<exists>err. r1 = Inl err) \<or> (\<exists>err. wait_load_all R C s1 = Inl err)")
    case True
    then have "s' = s1" "\<exists>err. res = Inl err" using assms(2) False ex by (auto simp: wait_recover_def split: sum.splits)
    then show ?thesis using e by auto
  next
    case no_err: False
    then obtain items0 xs where r1: "r1 = Inr items0" and xs: "wait_load_all R C s1 = Inr xs"
      by (metis sum.exhaust)
    define ms where "ms = filter (\<lambda>x. wi_state (sw_item x) = WaitFired) xs"
    have run: "recover_waits R C sink s1 now ms = (res, s')"
      using assms(2) False ex r1 xs by (simp add: wait_recover_def ms_def)
    have wf1: "wf s1" using e by blast
    have fired: "\<forall>x \<in> set ms. wi_state (sw_item x) = WaitFired" by (simp add: ms_def)
    have loaded: "wait_loaded s1 ms" unfolding ms_def by (rule wait_loaded_filter [OF wf1 xs])
    note g = recover_waits_spec [OF wf1 loaded fired run, of lower]
    have "wi_safe_error (sw_item y) \<noteq> None"
      if ok: "\<exists>items. res = Inr items" and y: "waits s' i = Some y" "wi_state (sw_item y) = WaitFired" for i y
    proof (cases "i \<in> wait_key ` set ms")
      case True
      then show ?thesis using g ok y by force
    next
      case False
      then have "waits s1 i = Some y" using g y(1) by simp
      then have "y \<in> set ms" "wait_key y = i"
        using wait_load_all_complete [OF wf1 xs] y(2) waits_key [OF wf1] by (auto simp: ms_def)
      then show ?thesis using False by blast
    qed
    moreover have "(wait_spec lower)\<^sup>*\<^sup>* (wabs s) (wabs s')" using e g by (meson rtranclp_trans)
    ultimately show ?thesis using g by blast
  qed
qed

lemma wait_cancel_spec:
  assumes "wf s" and "wait_cancel R C svc s i now = (res, s')"
  shows "wf s' \<and> (wait_spec lower)\<^sup>*\<^sup>* (wabs s) (wabs s')"
proof (cases "s' = s")
  case True
  then show ?thesis using assms(1) by simp
next
  case False
  then obtain x r1 where x: "wait_required R C s i = Inr x" "wi_state (sw_item x) \<in> {WaitArmed, WaitFired}"
    and put: "wait_put R C s (x\<lparr>sw_item := (sw_item x)\<lparr>wi_state := WaitCancelled, wi_updated_at := now\<rparr>\<rparr>) = (r1, s')"
    using assms(2)
    by (auto simp: wait_cancel_def wait_transition_def split: if_splits sum.splits prod.splits)
  note w = wait_required_waits [OF assms(1) x(1)]
  show ?thesis
    using w x(2) by (intro wait_put_spec [OF assms(1) _ wait_moves.cancel put]) auto
qed

lemma wait_op_spec:
  assumes "wait_op R view wf C sink present lower svc s s'" and "wf s"
  shows "wf s' \<and> (wait_spec lower)\<^sup>*\<^sup>* (wabs s) (wabs s')"
  using assms
proof (induction rule: wait_op.induct)
  case (op_register s request now i w a res s')
  then show ?case using wait_register_spec by blast
next
  case (op_signal s event items s')
  then show ?case using wait_signal_spec by blast
next
  case (op_recover s now items s')
  then show ?case using wait_recover_spec by blast
next
  case (op_cancel s i now item s')
  then show ?case using wait_cancel_spec by blast
next
  case (op_expire s now items s')
  then show ?case
    using expire_due_locked_spec by (cases "ws_poisoned svc") (auto simp: wait_expire_due_def)
next
  case (op_elsewhere s' s)
  have "wait_spec lower (wabs s) (wabs s')"
    unfolding op_elsewhere(2) by (rule wait_spec.enqueued) (rule op_elsewhere(3))
  then show ?case using op_elsewhere(1) by blast
qed

lemma wait_run_spec:
  "(wait_op R view wf C sink present lower svc)\<^sup>*\<^sup>* s s' \<Longrightarrow> wf s \<Longrightarrow>
   wf s' \<and> (wait_spec lower)\<^sup>*\<^sup>* (wabs s) (wabs s')"
proof (induction rule: rtranclp_induct)
  case (step t u)
  then show ?case using wait_op_spec by (meson rtranclp_trans)
qed simp

end

section \<open>The service on the embedded store, with the inbox as its sink\<close>

definition wait_wf ::
  "('j, 'b) store_env \<Rightarrow> (action_record, 'j) serde \<Rightarrow> ('n waiting_item, 'j) serde \<Rightarrow> 'b embedded_store \<Rightarrow> bool" where
  "wait_wf E CA CW s \<longleftrightarrow> typed_wf E CW s \<and> serde_ok CA"

lemma wait_wf_inbox: "wait_wf E CA CW s \<Longrightarrow> typed_wf E CA s"
  by (simp add: wait_wf_def typed_wf_def)

lemma embedded_wait_laws:
  "repository_laws (embedded_repository E c) (embedded_view E c) (wait_wf E CA CW)"
  using repository_laws_guarded [OF embedded_typed_laws, of E c CW "serde_ok CA"]
  by (simp add: wait_wf_def [abs_def])

text \<open>The inbox writes only its own collection.\<close>

lemma action_put_new_frame:
  assumes "embedded_wf E s" and "action_put_new (embedded_repository E c) C s r = (res, s')" and "d \<noteq> c"
  shows "embedded_view E d s' = embedded_view E d s"
proof (cases "action_encode C r")
  case (Inl e)
  then show ?thesis using assms(2) by (simp add: action_put_new_def)
next
  case (Inr vr)
  obtain r0 s0 where "repo_put (embedded_repository E c) s vr Missing = (r0, s0)" by fastforce
  then show ?thesis
    using assms Inr embedded_put_frame by (auto simp: action_put_new_def split: sum.splits)
qed

lemma submit_frame:
  assumes "embedded_wf E s" and "submit (embedded_repository E c) C inbox s a now = (res, s')" and "d \<noteq> c"
  shows "embedded_view E d s' = embedded_view E d s"
  using assms(2)
proof (cases rule: submit_cases)
  case (written xs n r0)
  then show ?thesis using action_put_new_frame assms(1,3) by blast
qed simp

lemma action_get_actions:
  assumes "typed_wf E C s" and "action_get (embedded_repository E PendingActions) C inbox s i = Inr found"
  shows "inbox_actions E C s i = found"
  using assms inbox.action_load_acts [OF assms(1)]
  by (auto simp: action_get_def split: if_splits sum.splits)

lemma inbox_enqueue_wake_effect:
  assumes "typed_wf E C s"
    and "inbox_enqueue_wake (embedded_repository E PendingActions) C U inbox s a now = (res, s')"
  shows "typed_wf E C s' \<and> (\<forall>d. d \<noteq> PendingActions \<longrightarrow> embedded_view E d s' = embedded_view E d s)
    \<and> inbox_runs E C inbox s s' \<and> (\<forall>st. res = Inr st \<longrightarrow> inbox_actions E C s' (sa_id a) \<noteq> None)"
proof (cases "action_get (embedded_repository E PendingActions) C inbox s (sa_id a) = Inr None")
  case False
  then show ?thesis
    using assms action_get_actions [OF assms(1)]
    by (auto simp: inbox_enqueue_wake_def split: sum.splits option.splits)
next
  case True
  obtain r1 s1 where sub: "submit (embedded_repository E PendingActions) C inbox s a now = (r1, s1)" by fastforce
  have s1: "s' = s1"
    using assms(2) True sub by (auto simp: inbox_enqueue_wake_def split: sum.splits option.splits)
  note acts = inbox.submit_acts [OF assms(1) sub]
  have wf1: "typed_wf E C s1" using acts by blast
  have runs: "inbox_runs E C inbox s s1" using inbox_op.op_submit [OF sub] by (rule r_into_rtranclp)
  have frame: "\<forall>d. d \<noteq> PendingActions \<longrightarrow> embedded_view E d s1 = embedded_view E d s"
    using submit_frame [OF _ sub] assms(1) by (simp add: typed_wf_def)
  have "inbox_actions E C s1 (sa_id a) \<noteq> None" if "res = Inr st" for st
  proof (cases r1)
    case (Inr r)
    then show ?thesis using acts by auto
  next
    case (Inl e)
    then show ?thesis
      using assms(2) True sub that action_get_actions [OF wf1]
      by (auto simp: inbox_enqueue_wake_def split: sum.splits option.splits)
  qed
  then show ?thesis using wf1 runs frame s1 by blast
qed

lemma inbox_runs_present:
  assumes "typed_wf E C s" and "inbox_runs E C inbox s s'" and "inbox_actions E C s i \<noteq> None"
  shows "inbox_actions E C s' i \<noteq> None"
  using inbox_spec_star_later [OF conjunct2 [OF inbox.inbox_run_spec [OF assms(2,1)]]] assms(3) by blast

interpretation waiting: waiting_store "embedded_repository E WaitingConditions"
  "embedded_view E WaitingConditions" "wait_wf E CA CW" CW
  "inbox_sink (embedded_repository E PendingActions) CA U inbox"
  "\<lambda>s i. inbox_actions E CA s i \<noteq> None"
  for E CA CW U inbox
proof (intro waiting_store.intro embedded_wait_laws waiting_store_axioms.intro)
  fix s a now res s' i r p and ack :: "store_error + commit_receipt" and status
  show "wait_wf E CA CW s \<Longrightarrow> serde_ok CW" by (simp add: wait_wf_def typed_wf_def)
  have effect: "typed_wf E CA s' \<and> (\<forall>d. d \<noteq> PendingActions \<longrightarrow> embedded_view E d s' = embedded_view E d s)
    \<and> inbox_runs E CA inbox s s' \<and> (\<forall>st. res = Inr st \<longrightarrow> inbox_actions E CA s' (sa_id a) \<noteq> None)"
    if "wait_wf E CA CW s"
      "enqueue_wake (inbox_sink (embedded_repository E PendingActions) CA U inbox) s a now = (res, s')"
    for s' res
    using inbox_enqueue_wake_effect [OF wait_wf_inbox [OF that(1)]] that(2) by (simp add: inbox_sink_def)
  show "wait_wf E CA CW s' \<and> embedded_view E WaitingConditions s' = embedded_view E WaitingConditions s"
    if "wait_wf E CA CW s"
      "enqueue_wake (inbox_sink (embedded_repository E PendingActions) CA U inbox) s a now = (res, s')"
    using effect [OF that] that(1) by (simp add: wait_wf_def typed_wf_def)
  show "inbox_actions E CA s' (sa_id a) \<noteq> None"
    if "wait_wf E CA CW s"
      "enqueue_wake (inbox_sink (embedded_repository E PendingActions) CA U inbox) s a now = (Inr status, s')"
    using effect [OF that] by blast
  show "inbox_actions E CA s' i \<noteq> None"
    if "wait_wf E CA CW s"
      "enqueue_wake (inbox_sink (embedded_repository E PendingActions) CA U inbox) s a now = (res, s')"
      "inbox_actions E CA s i \<noteq> None"
    using effect [OF that(1,2)] inbox_runs_present [OF wait_wf_inbox [OF that(1)] _ that(3)] by blast
  show "inbox_actions E CA s' i \<noteq> None"
    if "wait_wf E CA CW s" "repo_put (embedded_repository E WaitingConditions) s r p = (ack, s')"
      "inbox_actions E CA s i \<noteq> None"
    using embedded_put_frame [OF _ that(2), of PendingActions] that(1,3) by (simp add: wait_wf_def typed_wf_def)
qed

abbreviation service_waits where
  "service_waits E CW s \<equiv> waits_of CW (embedded_view E WaitingConditions s)"

text \<open>The waiting service and the inbox running side by side on one store.\<close>

inductive wake_step for E CA CW U lower svc inbox where
  waiting_step: "wait_op (embedded_repository E WaitingConditions) (embedded_view E WaitingConditions)
       (wait_wf E CA CW) CW (inbox_sink (embedded_repository E PendingActions) CA U inbox)
       (\<lambda>s i. inbox_actions E CA s i \<noteq> None) lower svc s s' \<Longrightarrow>
     wake_step E CA CW U lower svc inbox s s'"
| inbox_step: "inbox_op (embedded_repository E PendingActions) (embedded_view E PendingActions)
       (typed_wf E CA) CA inbox s s' \<Longrightarrow> wait_wf E CA CW s' \<Longrightarrow>
     embedded_view E WaitingConditions s' = embedded_view E WaitingConditions s \<Longrightarrow>
     wake_step E CA CW U lower svc inbox s s'"

lemma wake_step_wait_op:
  assumes "wake_step E CA CW U lower svc inbox s s'" and "wait_wf E CA CW s"
  shows "wait_op (embedded_repository E WaitingConditions) (embedded_view E WaitingConditions)
       (wait_wf E CA CW) CW (inbox_sink (embedded_repository E PendingActions) CA U inbox)
       (\<lambda>s i. inbox_actions E CA s i \<noteq> None) lower svc s s'"
  using assms
proof (cases rule: wake_step.cases)
  case inbox_step
  then show ?thesis
    using inbox_runs_present [OF wait_wf_inbox [OF assms(2)] r_into_rtranclp [where r = "inbox_op _ _ _ _ _"]]
    by (intro wait_op.op_elsewhere) auto
qed

section \<open>Properties of the waiting service\<close>

lemma wake_run_spec:
  assumes "(wake_step E CA CW U lower svc inbox)\<^sup>*\<^sup>* s s'" and "wait_wf E CA CW s"
  shows "wait_wf E CA CW s' \<and> (wait_spec lower)\<^sup>*\<^sup>*
    (service_waits E CW s, \<lambda>i. inbox_actions E CA s i \<noteq> None)
    (service_waits E CW s', \<lambda>i. inbox_actions E CA s' i \<noteq> None)"
  using assms
proof (induction rule: rtranclp_induct)
  case (step t u)
  then show ?case
    using waiting.wait_op_spec [OF wake_step_wait_op [OF step(2)]] by (meson rtranclp_trans)
qed simp

text \<open>A concrete service and store, used to instantiate the hypotheses.\<close>

lemma empty_store_wait_wf [simp]: "wait_wf plain_env left_serde right_serde empty_store"
  by (simp add: wait_wf_def typed_wf_def)

type_synonym sample_payload = "action_record + nat waiting_item"

definition sample_request :: "nat new_waiting_item" where
  "sample_request = \<lparr>nw_profile_id = EntityId 7, nw_session_id = EntityId 9,
     nw_trigger = UserResponseTrigger (EntityId 9), nw_reply_route = None, nw_expires_at = Some 50\<rparr>"

definition sample_event :: "nat wake_event" where
  "sample_event = \<lparr>we_id = EntityId 4, we_occurred_at = 5, we_kind = UserResponseEvent (EntityId 9)\<rparr>"

abbreviation sample_waits :: "(sample_payload embedded_store, sample_payload, store_error) repository" where
  "sample_waits \<equiv> embedded_repository plain_env WaitingConditions"

abbreviation sample_sink :: "sample_payload embedded_store wake_sink" where
  "sample_sink \<equiv> inbox_sink (embedded_repository plain_env PendingActions) left_serde unary_ulid sample_inbox"

definition sample_service :: waiting_service where
  "sample_service = \<lparr>ws_poisoned = False\<rparr>"

definition sample_armed :: "sample_payload embedded_store" where
  "sample_armed = snd (wait_register sample_waits right_serde empty_store sample_request 1
     (EntityId 1) (EntityId 2) (EntityId 3))"

definition sample_signalled :: "(waiting_error + nat waiting_item list) \<times> sample_payload embedded_store" where
  "sample_signalled = wait_signal sample_waits right_serde sample_sink (\<lambda>t. t) sample_service sample_armed sample_event"

lemmas wait_eval = wait_register_def wait_signal_def wait_recover_def wait_cancel_def wait_transition_def
  expire_due_locked_def wait_load_all_def wait_required_def wait_put_def wait_record_def decode_wait_def
  wait_due_def enqueue_fired_def resume_action_def new_wait_def validate_trigger_def trigger_matches_def
  inbox_sink_def inbox_enqueue_wake_def action_get_def left_serde_def right_serde_def
  sample_request_def sample_event_def sample_service_def sample_eval waits_of_def

lemma sample_armed_waits:
  "service_waits plain_env right_serde sample_armed (EntityId 1)
   = Some \<lparr>sw_item = new_wait sample_request 1 (EntityId 1) (EntityId 2) (EntityId 3), sw_revision = 0\<rparr>"
  by (simp add: sample_armed_def wait_eval)

lemma sample_signalled_eval:
  "\<exists>item. fst sample_signalled = Inr [item] \<and> wi_state item = WaitResumed \<and> wi_id item = EntityId 1"
  "\<exists>x. service_waits plain_env right_serde (snd sample_signalled) (EntityId 1) = Some x
     \<and> wi_state (sw_item x) = WaitResumed \<and> wi_action_id (sw_item x) = EntityId 3"
  by (simp_all add: sample_signalled_def sample_armed_def wait_eval)

lemma wake_runs_sample:
  "(wake_step plain_env left_serde right_serde unary_ulid (\<lambda>t. t) sample_service sample_inbox)\<^sup>*\<^sup>* empty_store sample_armed"
  "(wake_step plain_env left_serde right_serde unary_ulid (\<lambda>t. t) sample_service sample_inbox)\<^sup>*\<^sup>* sample_armed (snd sample_signalled)"
  unfolding sample_armed_def sample_signalled_def
  by (rule r_into_rtranclp, rule wake_step.waiting_step, rule wait_op.op_register, rule prod.collapse [symmetric],
      rule r_into_rtranclp, rule wake_step.waiting_step, rule wait_op.op_signal, rule prod.collapse [symmetric])

text \<open>C14. Every operation of the waiting service, alone or interleaved with the inbox's, whatever it
  returns and whichever write or enqueue fails, changes the waits only as \<open>wait_spec\<close> allows: a wait
  is fired only by a matching event that is not past its expiry, expired only when due, and marked
  resumed only when its resume action is in the inbox.\<close>

theorem waiting_refines_spec:
  assumes "wait_wf E CA CW s" and "(wake_step E CA CW U lower svc inbox)\<^sup>*\<^sup>* s s'"
  shows "wait_wf E CA CW s' \<and> (wait_spec lower)\<^sup>*\<^sup>*
    (service_waits E CW s, \<lambda>i. inbox_actions E CA s i \<noteq> None)
    (service_waits E CW s', \<lambda>i. inbox_actions E CA s' i \<noteq> None)"
  using wake_run_spec assms by blast

theorem waiting_refines_spec_witness:
  "(wait_spec (\<lambda>t. t))\<^sup>*\<^sup>* (Map.empty, \<lambda>i. False)
     (service_waits plain_env right_serde sample_armed, \<lambda>i. inbox_actions plain_env left_serde sample_armed i \<noteq> None)
   \<and> service_waits plain_env right_serde sample_armed (EntityId 1) \<noteq> None"
  using waiting_refines_spec [OF empty_store_wait_wf wake_runs_sample(1)] sample_armed_waits
  by (simp add: waits_of_def actions_of_def)



text \<open>C16. Waits are never lost, re-armed or revived: over any run a wait keeps its identity, trigger and
  expiry, every change raises its revision, a fired wait is not armed or expired again, and a
  resumed, cancelled or expired wait does not change at all.\<close>

theorem waits_monotone:
  assumes "wait_wf E CA CW s" and "(wake_step E CA CW U lower svc inbox)\<^sup>*\<^sup>* s s'"
    and "service_waits E CW s i = Some x"
  shows "\<exists>y. service_waits E CW s' i = Some y \<and> wait_later x y"
  using wait_spec_star_later [OF conjunct2 [OF wake_run_spec [OF assms(2,1)]], of i x] assms(3) by simp

theorem waits_monotone_witness:
  "\<exists>y. service_waits plain_env right_serde (snd sample_signalled) (EntityId 1) = Some y
     \<and> wait_later \<lparr>sw_item = new_wait sample_request 1 (EntityId 1) (EntityId 2) (EntityId 3), sw_revision = 0\<rparr> y"
  using waits_monotone [OF conjunct1 [OF wake_run_spec [OF wake_runs_sample(1) empty_store_wait_wf]]
      wake_runs_sample(2) sample_armed_waits] .



text \<open>Recovery forgets no fired wait: after a successful recovery a wait that is still fired carries
  the reason it could not be resumed.\<close>

theorem wait_recover_complete:
  assumes "wait_wf E CA CW s"
    and "wait_recover (embedded_repository E WaitingConditions) CW
      (inbox_sink (embedded_repository E PendingActions) CA U inbox) svc s now = (Inr items, s')"
    and "service_waits E CW s' i = Some y" and "wi_state (sw_item y) = WaitFired"
  shows "wi_safe_error (sw_item y) \<noteq> None"
  using waiting.wait_recover_spec [OF assms(1,2)] assms(3,4) by blast

text \<open>C18. The wildcard matcher, which searches for the leftmost occurrence of each part, decides exactly
  the usual meaning of a pattern.\<close>

theorem wildcard_match_correct: "wildcard_match pattern value \<longleftrightarrow> glob pattern value"
  by (rule wildcard_match_glob)

text \<open>The store in which the write that marks the wait resumed fails, after the resume action was
  enqueued: the wait stays fired.\<close>

definition sample_interrupted :: "sample_payload embedded_store" where
  "sample_interrupted = snd (wait_signal sample_waits right_serde sample_sink (\<lambda>t. t) sample_service
     (sample_armed\<lparr>es_sql := (\<lambda>n c. if n = 3 \<and> c = SqlCommit then Some [] else None)\<rparr>) sample_event)"

definition sample_stuck_sink :: "sample_payload embedded_store wake_sink" where
  "sample_stuck_sink = inbox_sink (embedded_repository plain_env PendingActions) left_serde unary_ulid
     (sample_inbox\<lparr>inbox_poisoned := True\<rparr>)"

lemma sample_interrupted_wf: "wait_wf plain_env left_serde right_serde sample_interrupted"
proof -
  let ?s = "sample_armed\<lparr>es_sql := (\<lambda>n c. if n = 3 \<and> c = SqlCommit then Some [] else None)\<rparr>"
  have "wait_wf plain_env left_serde right_serde sample_armed"
    using wake_run_spec [OF wake_runs_sample(1) empty_store_wait_wf] by blast
  then have "wait_wf plain_env left_serde right_serde ?s"
    by (simp add: wait_wf_def typed_wf_def embedded_wf_def)
  from conjunct1 [OF waiting.wait_signal_spec [OF this prod.collapse [symmetric]]]
  show ?thesis unfolding sample_interrupted_def .
qed

theorem wait_recover_complete_witness:
  "\<exists>y. service_waits plain_env right_serde (snd (wait_recover sample_waits right_serde sample_stuck_sink
        sample_service sample_interrupted 6)) (EntityId 1) = Some y
     \<and> wi_state (sw_item y) = WaitFired \<and> wi_safe_error (sw_item y) \<noteq> None"
proof -
  let ?run = "wait_recover sample_waits right_serde sample_stuck_sink sample_service sample_interrupted 6"
  have "\<exists>items. fst ?run = Inr items"
    and "\<exists>y. service_waits plain_env right_serde (snd ?run) (EntityId 1) = Some y \<and> wi_state (sw_item y) = WaitFired"
    by (simp_all add: sample_interrupted_def sample_armed_def sample_stuck_sink_def wait_eval)
  then obtain items y where run: "?run = (Inr items, snd ?run)"
    and y: "service_waits plain_env right_serde (snd ?run) (EntityId 1) = Some y" "wi_state (sw_item y) = WaitFired"
    by (metis prod.collapse)
  show ?thesis
    using wait_recover_complete [OF sample_interrupted_wf run [unfolded sample_stuck_sink_def]] y
    by (simp add: sample_stuck_sink_def)
qed


end
