(* ===== verification/Delivery.thy ===== *)
theory Delivery
  imports Typed_Store
begin

text \<open>
  \<open>crates/delivery/src/lib.rs\<close>: the durable outbox between agent work and the channel adapters, with
  the message types of \<open>crates/channel-core/src/lib.rs\<close> it stores. Every operation runs under the
  outbox's mutex and is one step. The changes an operation makes to an item are functions of the
  item (\<open>claim_item\<close>, \<open>acknowledge_item\<close>, \<open>fail_item\<close>, \<open>recover_item\<close>, \<open>cancel_item\<close>), which the
  operations write back with the next revision.
\<close>

section \<open>Data\<close>

record channel_route =
  cr_channel :: string
  cr_external_account :: string
  cr_conversation :: string
  cr_thread :: "string option"
  cr_reply_to_message :: "string option"

record outbound_message =
  om_route :: channel_route
  om_idempotency_key :: string
  om_text :: string
  om_artifacts :: "artifact_id list"

record send_receipt =
  platform_message_id :: string
  accepted_at :: timestamp
  duplicate_possible :: bool

datatype retry_class = Retryable | RateLimited | Reconnect | PermanentClass

record adapter_failure =
  af_class :: retry_class
  af_safe_message :: string
  af_retry_after_ms :: "u64 option"

datatype delivery_source =
    DeliveryInteractive entity_id
  | DeliveryScheduled job_id
  | DeliveryChild entity_id
  | DeliveryCommitment commitment_id
  | DeliveryAttention entity_id
  | DeliveryRefinement entity_id
  | DeliveryGoal goal_id

datatype delivery_state =
    DeliveryPending | DeliveryClaimed | DeliveryRetryScheduled | DeliverySent
  | DeliveryPermanentFailure | DeliveryCancelled

definition delivery_is_terminal :: "delivery_state \<Rightarrow> bool" where
  "delivery_is_terminal st \<longleftrightarrow> st \<in> {DeliverySent, DeliveryPermanentFailure, DeliveryCancelled}"

record delivery_item =
  di_id :: delivery_id
  di_stable_key :: string
  di_profile_id :: profile_id
  di_session_id :: session_id
  di_turn_id :: "turn_id option"
  di_final_id :: "entry_id option"
  di_source :: delivery_source
  di_route :: channel_route
  di_text :: string
  di_artifacts :: "artifact_id list"
  di_state :: delivery_state
  di_attempt_count :: u32
  di_not_before :: timestamp
  di_safe_error :: "string option"
  di_receipt :: "send_receipt option"
  di_platform_idempotency :: bool
  di_possible_duplicate :: bool
  di_claim_token :: "entity_id option"
  di_claim_expires_at :: "timestamp option"
  di_created_at :: timestamp
  di_updated_at :: timestamp
  di_revision :: revision

record delivery_projection =
  dp_delivery_id :: delivery_id
  dp_state :: string
  dp_terminal :: bool
  dp_turn_id :: "turn_id option"
  dp_final_id :: "entry_id option"
  dp_acknowledged :: bool

fun delivery_state_name :: "delivery_state \<Rightarrow> string" where
  "delivery_state_name DeliveryPending = ''pending''"
| "delivery_state_name DeliveryClaimed = ''claimed''"
| "delivery_state_name DeliveryRetryScheduled = ''retry_scheduled''"
| "delivery_state_name DeliverySent = ''sent''"
| "delivery_state_name DeliveryPermanentFailure = ''permanent_failure''"
| "delivery_state_name DeliveryCancelled = ''cancelled''"

definition projection :: "delivery_item \<Rightarrow> delivery_projection" where
  "projection item =
     \<lparr>dp_delivery_id = di_id item, dp_state = delivery_state_name (di_state item),
      dp_terminal = delivery_is_terminal (di_state item), dp_turn_id = di_turn_id item,
      dp_final_id = di_final_id item, dp_acknowledged = (di_state item = DeliverySent)\<rparr>"

record new_delivery =
  nd_stable_key :: string
  nd_profile_id :: profile_id
  nd_session_id :: session_id
  nd_turn_id :: "turn_id option"
  nd_final_id :: "entry_id option"
  nd_source :: delivery_source
  nd_route :: channel_route
  nd_text :: string
  nd_artifacts :: "artifact_id list"
  nd_platform_idempotency :: bool
  nd_not_before :: timestamp

record delivery_claim =
  dc_item :: delivery_item
  dc_token :: entity_id

record delivery_config =
  max_pending :: nat
  max_text_bytes :: nat
  max_artifacts :: nat
  max_attempts :: u32
  initial_backoff_ms :: int
  max_backoff_ms :: int
  claim_lease_ms :: int

definition delivery_config_default :: delivery_config where
  "delivery_config_default =
     \<lparr>max_pending = 1024, max_text_bytes = 256 * 1024, max_artifacts = 32, max_attempts = 8,
      initial_backoff_ms = 1000, max_backoff_ms = 15 * 60 * 1000, claim_lease_ms = 60000\<rparr>"

datatype delivery_error =
    DeliveryInvalid
  | DeliveryFull
  | DeliveryNotFound
  | StableKeyConflict
  | StaleClaim
  | DeliveryIllegalTransition
  | DeliveryRevisionOverflow
  | DeliveryRepositoryError string
  | DeliveryCorrupt string
  | DeliveryLockPoisoned

record stored_delivery =
  sd_item :: delivery_item
  sd_storage_revision :: revision

record delivery_outbox =
  outbox_config :: delivery_config
  outbox_poisoned :: bool

section \<open>Validation\<close>

definition outbox_new :: "delivery_config \<Rightarrow> delivery_error + delivery_outbox" where
  "outbox_new config =
     (if max_pending config = 0 \<or> max_text_bytes config = 0 \<or> max_artifacts config = 0
         \<or> max_attempts config = 0 \<or> initial_backoff_ms config \<le> 0
         \<or> max_backoff_ms config < initial_backoff_ms config \<or> claim_lease_ms config \<le> 0
      then Inl DeliveryInvalid
      else Inr \<lparr>outbox_config = config, outbox_poisoned = False\<rparr>)"

definition validate_new :: "new_delivery \<Rightarrow> delivery_config \<Rightarrow> delivery_error + unit" where
  "validate_new new config =
     (if is_blank (nd_stable_key new) \<or> length (nd_stable_key new) > 256
         \<or> is_blank (nd_text new) \<or> length (nd_text new) > max_text_bytes config
         \<or> length (nd_artifacts new) > max_artifacts config
         \<or> is_blank (cr_channel (nd_route new)) \<or> is_blank (cr_external_account (nd_route new))
         \<or> is_blank (cr_conversation (nd_route new))
      then Inl DeliveryInvalid else Inr ())"

definition same_delivery :: "delivery_item \<Rightarrow> new_delivery \<Rightarrow> bool" where
  "same_delivery item new \<longleftrightarrow>
     di_profile_id item = nd_profile_id new \<and> di_session_id item = nd_session_id new
     \<and> di_turn_id item = nd_turn_id new \<and> di_final_id item = nd_final_id new
     \<and> di_source item = nd_source new \<and> di_route item = nd_route new
     \<and> di_text item = nd_text new \<and> di_artifacts item = nd_artifacts new
     \<and> di_platform_idempotency item = nd_platform_idempotency new"

definition verify_claim :: "delivery_item \<Rightarrow> delivery_claim \<Rightarrow> delivery_error + unit" where
  "verify_claim item claim =
     (if di_state item \<noteq> DeliveryClaimed \<or> di_claim_token item \<noteq> Some (dc_token claim)
      then Inl StaleClaim else Inr ())"

fun char_boundary_below :: "string \<Rightarrow> nat \<Rightarrow> nat" where
  "char_boundary_below v 0 = 0"
| "char_boundary_below v (Suc n) =
     (if is_char_boundary v (Suc n) then Suc n else char_boundary_below v n)"

definition bounded_error :: "string \<Rightarrow> string" where
  "bounded_error text =
     (let v = trim text in
      if length v \<le> 512 then v else take (char_boundary_below v 512) v)"

definition backoff_ms :: "delivery_config \<Rightarrow> u32 \<Rightarrow> int" where
  "backoff_ms config attempt =
     (let exponent = min (unat attempt - 1) 62 in
      min (i64_saturating_mul (initial_backoff_ms config) (2 ^ exponent)) (max_backoff_ms config))"

section \<open>What the operations do to an item\<close>

definition new_item :: "new_delivery \<Rightarrow> timestamp \<Rightarrow> delivery_id \<Rightarrow> delivery_item" where
  "new_item new now new_id =
     \<lparr>di_id = new_id, di_stable_key = nd_stable_key new, di_profile_id = nd_profile_id new,
      di_session_id = nd_session_id new, di_turn_id = nd_turn_id new, di_final_id = nd_final_id new,
      di_source = nd_source new, di_route = nd_route new, di_text = nd_text new,
      di_artifacts = nd_artifacts new, di_state = DeliveryPending, di_attempt_count = 0,
      di_not_before = nd_not_before new, di_safe_error = None, di_receipt = None,
      di_platform_idempotency = nd_platform_idempotency new, di_possible_duplicate = False,
      di_claim_token = None, di_claim_expires_at = None, di_created_at = now, di_updated_at = now,
      di_revision = revision_zero\<rparr>"

definition claim_item :: "delivery_config \<Rightarrow> timestamp \<Rightarrow> entity_id \<Rightarrow> delivery_item \<Rightarrow> delivery_item" where
  "claim_item config now token item =
     item\<lparr>di_state := DeliveryClaimed,
          di_attempt_count := saturating_succ_u32 (di_attempt_count item),
          di_claim_token := Some token,
          di_claim_expires_at := Some (i64_saturating_add now (claim_lease_ms config)),
          di_safe_error := None\<rparr>"

definition acknowledge_item :: "send_receipt \<Rightarrow> delivery_item \<Rightarrow> delivery_item" where
  "acknowledge_item receipt item =
     item\<lparr>di_state := DeliverySent,
          di_receipt := Some (receipt\<lparr>duplicate_possible :=
            duplicate_possible receipt \<or> di_possible_duplicate item\<rparr>),
          di_safe_error := None, di_claim_token := None, di_claim_expires_at := None\<rparr>"

definition fail_retryable :: "delivery_config \<Rightarrow> adapter_failure \<Rightarrow> delivery_item \<Rightarrow> bool" where
  "fail_retryable config failure item \<longleftrightarrow>
     af_class failure \<noteq> PermanentClass \<and> di_attempt_count item < max_attempts config"

definition fail_backoff :: "delivery_config \<Rightarrow> adapter_failure \<Rightarrow> delivery_item \<Rightarrow> int" where
  "fail_backoff config failure item =
     (case af_retry_after_ms failure of
        None \<Rightarrow> backoff_ms config (di_attempt_count item)
      | Some ms \<Rightarrow> if uint ms \<le> i64_max then uint ms else backoff_ms config (di_attempt_count item))"

definition fail_item ::
  "delivery_config \<Rightarrow> adapter_failure \<Rightarrow> timestamp \<Rightarrow> delivery_item \<Rightarrow> delivery_item" where
  "fail_item config failure now item =
     item\<lparr>di_state := (if fail_retryable config failure item then DeliveryRetryScheduled
                       else DeliveryPermanentFailure),
          di_safe_error := Some (bounded_error (af_safe_message failure)),
          di_claim_token := None, di_claim_expires_at := None,
          di_not_before :=
            (if fail_retryable config failure item
             then i64_saturating_add now (min (fail_backoff config failure item) (max_backoff_ms config))
             else di_not_before item)\<rparr>"

definition claim_expired :: "timestamp \<Rightarrow> delivery_item \<Rightarrow> bool" where
  "claim_expired now item \<longleftrightarrow>
     di_state item = DeliveryClaimed
     \<and> (case di_claim_expires_at item of None \<Rightarrow> False | Some expiry \<Rightarrow> expiry \<le> now)"

definition recover_item :: "delivery_config \<Rightarrow> timestamp \<Rightarrow> delivery_item \<Rightarrow> delivery_item" where
  "recover_item config now item =
     item\<lparr>di_state := (if di_attempt_count item \<ge> max_attempts config then DeliveryPermanentFailure
                       else DeliveryRetryScheduled),
          di_possible_duplicate := di_possible_duplicate item \<or> \<not> di_platform_idempotency item,
          di_safe_error := Some ''delivery claim expired before acknowledgement'',
          di_claim_token := None, di_claim_expires_at := None, di_not_before := now\<rparr>"

definition cancel_item :: "string \<Rightarrow> delivery_item \<Rightarrow> delivery_item" where
  "cancel_item reason item =
     item\<lparr>di_state := DeliveryCancelled, di_safe_error := Some (bounded_error reason),
          di_claim_token := None, di_claim_expires_at := None\<rparr>"

section \<open>Persistence\<close>

definition delivery_repository_error :: "('s, 'j, 'e) repository \<Rightarrow> 'e \<Rightarrow> delivery_error" where
  "delivery_repository_error R e = DeliveryRepositoryError (repo_display R e)"

definition delivery_encode ::
  "(delivery_item, 'j) serde \<Rightarrow> delivery_item \<Rightarrow> delivery_error + 'j versioned_record" where
  "delivery_encode C item =
     (case to_value C item of
        Inl e \<Rightarrow> Inl (DeliveryCorrupt e)
      | Inr payload \<Rightarrow>
          Inr \<lparr>vr_version = CURRENT_SCHEMA_VERSION, vr_id = di_id item, vr_revision = di_revision item,
               vr_updated_at = di_updated_at item, vr_payload = payload\<rparr>)"

definition delivery_decode ::
  "(delivery_item, 'j) serde \<Rightarrow> 'j versioned_record \<Rightarrow> delivery_error + stored_delivery" where
  "delivery_decode C vr =
     (case from_value C (vr_payload vr) of
        Inl e \<Rightarrow> Inl (DeliveryCorrupt e)
      | Inr item \<Rightarrow>
          if di_id item \<noteq> vr_id vr \<or> di_revision item \<noteq> vr_revision vr
          then Inl (DeliveryCorrupt ''record identity or revision mismatch'')
          else Inr \<lparr>sd_item = item, sd_storage_revision = vr_revision vr\<rparr>)"

definition delivery_load ::
  "('s, 'j, 'e) repository \<Rightarrow> (delivery_item, 'j) serde \<Rightarrow> 's \<Rightarrow> delivery_id \<Rightarrow>
   delivery_error + stored_delivery option" where
  "delivery_load R C s i =
     (case repo_get R s i of
        Inl e \<Rightarrow> Inl (delivery_repository_error R e)
      | Inr None \<Rightarrow> Inr None
      | Inr (Some vr) \<Rightarrow> (case delivery_decode C vr of Inl e \<Rightarrow> Inl e | Inr x \<Rightarrow> Inr (Some x)))"

definition delivery_required ::
  "('s, 'j, 'e) repository \<Rightarrow> (delivery_item, 'j) serde \<Rightarrow> 's \<Rightarrow> delivery_id \<Rightarrow>
   delivery_error + stored_delivery" where
  "delivery_required R C s i =
     (case delivery_load R C s i of
        Inl e \<Rightarrow> Inl e
      | Inr None \<Rightarrow> Inl DeliveryNotFound
      | Inr (Some x) \<Rightarrow> Inr x)"

definition delivery_load_all ::
  "('s, 'j, 'e) repository \<Rightarrow> (delivery_item, 'j) serde \<Rightarrow> 's \<Rightarrow>
   delivery_error + stored_delivery list" where
  "delivery_load_all R C s =
     (case repo_list R s of
        Inl e \<Rightarrow> Inl (delivery_repository_error R e)
      | Inr vrs \<Rightarrow> collect_results (map (delivery_decode C) vrs))"

definition touch_item :: "revision \<Rightarrow> timestamp \<Rightarrow> delivery_item \<Rightarrow> delivery_item" where
  "touch_item n now item = item\<lparr>di_revision := n, di_updated_at := now\<rparr>"

definition put_existing ::
  "('s, 'j, 'e) repository \<Rightarrow> (delivery_item, 'j) serde \<Rightarrow> 's \<Rightarrow> delivery_item \<Rightarrow> revision \<Rightarrow> timestamp \<Rightarrow>
   (delivery_error + delivery_item) \<times> 's" where
  "put_existing R C s item storage_revision now =
     (case checked_next storage_revision of
        None \<Rightarrow> (Inl DeliveryRevisionOverflow, s)
      | Some n \<Rightarrow>
          (case delivery_encode C (touch_item n now item) of
             Inl e \<Rightarrow> (Inl e, s)
           | Inr vr \<Rightarrow>
               (case repo_put R s vr (Exact storage_revision) of
                  (Inl e, s') \<Rightarrow> (Inl (delivery_repository_error R e), s')
                | (Inr _, s') \<Rightarrow> (Inr (touch_item n now item), s'))))"

section \<open>Operations\<close>

definition enqueue_delivery ::
  "('s, 'j, 'e) repository \<Rightarrow> (delivery_item, 'j) serde \<Rightarrow> delivery_outbox \<Rightarrow> 's \<Rightarrow> new_delivery \<Rightarrow>
   timestamp \<Rightarrow> delivery_id \<Rightarrow> (delivery_error + delivery_item) \<times> 's" where
  "enqueue_delivery R C outbox s new now new_id =
     (case validate_new new (outbox_config outbox) of Inl e \<Rightarrow> (Inl e, s) | Inr _ \<Rightarrow>
      if outbox_poisoned outbox then (Inl DeliveryLockPoisoned, s)
      else (case delivery_load_all R C s of Inl e \<Rightarrow> (Inl e, s) | Inr records \<Rightarrow>
       (case find (\<lambda>x. di_stable_key (sd_item x) = nd_stable_key new) records of
          Some existing \<Rightarrow>
            (if same_delivery (sd_item existing) new then Inr (sd_item existing)
             else Inl StableKeyConflict, s)
        | None \<Rightarrow>
            if length (filter (\<lambda>x. \<not> delivery_is_terminal (di_state (sd_item x))) records)
               \<ge> max_pending (outbox_config outbox)
            then (Inl DeliveryFull, s)
            else (case delivery_encode C (new_item new now new_id) of
                Inl e \<Rightarrow> (Inl e, s)
              | Inr vr \<Rightarrow>
                  (case repo_put R s vr Missing of
                     (Inl e, s') \<Rightarrow> (Inl (delivery_repository_error R e), s')
                   | (Inr _, s') \<Rightarrow> (Inr (new_item new now new_id), s'))))))"

definition claimable :: "timestamp \<Rightarrow> (delivery_item \<Rightarrow> bool) \<Rightarrow> delivery_item \<Rightarrow> bool" where
  "claimable now matches_route item \<longleftrightarrow>
     di_state item \<in> {DeliveryPending, DeliveryRetryScheduled} \<and> di_not_before item \<le> now
     \<and> matches_route item"

definition claim_order :: "delivery_item \<Rightarrow> timestamp \<times> timestamp" where
  "claim_order item = (di_not_before item, di_created_at item)"

definition claim_next_matching ::
  "('s, 'j, 'e) repository \<Rightarrow> (delivery_item, 'j) serde \<Rightarrow> delivery_outbox \<Rightarrow> 's \<Rightarrow> timestamp \<Rightarrow>
   (delivery_item \<Rightarrow> bool) \<Rightarrow> entity_id \<Rightarrow> (delivery_error + delivery_claim option) \<times> 's" where
  "claim_next_matching R C outbox s now matches_route token =
     (if outbox_poisoned outbox then (Inl DeliveryLockPoisoned, s)
      else (case delivery_load_all R C s of Inl e \<Rightarrow> (Inl e, s) | Inr records \<Rightarrow>
       (case find (\<lambda>x. claimable now matches_route (sd_item x))
               (sort_key (\<lambda>x. claim_order (sd_item x)) records) of
          None \<Rightarrow> (Inr None, s)
        | Some stored \<Rightarrow>
            (case put_existing R C s (claim_item (outbox_config outbox) now token (sd_item stored))
                    (sd_storage_revision stored) now of
               (Inl e, s') \<Rightarrow> (Inl e, s')
             | (Inr item, s') \<Rightarrow> (Inr (Some \<lparr>dc_item = item, dc_token = token\<rparr>), s')))))"

definition claim_next where
  "claim_next R C outbox s now token = claim_next_matching R C outbox s now (\<lambda>_. True) token"

definition claim_next_for_account ::
  "('s, 'j, 'e) repository \<Rightarrow> (delivery_item, 'j) serde \<Rightarrow> delivery_outbox \<Rightarrow> 's \<Rightarrow> string \<Rightarrow> string \<Rightarrow>
   timestamp \<Rightarrow> entity_id \<Rightarrow> (delivery_error + delivery_claim option) \<times> 's" where
  "claim_next_for_account R C outbox s channel external_account now token =
     (if is_blank channel \<or> is_blank external_account then (Inl DeliveryInvalid, s)
      else claim_next_matching R C outbox s now
        (\<lambda>item. cr_channel (di_route item) = channel
             \<and> cr_external_account (di_route item) = external_account) token)"

definition outbound :: "delivery_claim \<Rightarrow> outbound_message" where
  "outbound claim =
     \<lparr>om_route = di_route (dc_item claim), om_idempotency_key = di_stable_key (dc_item claim),
      om_text = di_text (dc_item claim), om_artifacts = di_artifacts (dc_item claim)\<rparr>"

definition acknowledge_delivery ::
  "('s, 'j, 'e) repository \<Rightarrow> (delivery_item, 'j) serde \<Rightarrow> delivery_outbox \<Rightarrow> 's \<Rightarrow> delivery_claim \<Rightarrow>
   send_receipt \<Rightarrow> timestamp \<Rightarrow> (delivery_error + delivery_item) \<times> 's" where
  "acknowledge_delivery R C outbox s claim receipt now =
     (if outbox_poisoned outbox then (Inl DeliveryLockPoisoned, s)
      else (case delivery_required R C s (di_id (dc_item claim)) of Inl e \<Rightarrow> (Inl e, s) | Inr stored \<Rightarrow>
       (case verify_claim (sd_item stored) claim of Inl e \<Rightarrow> (Inl e, s) | Inr _ \<Rightarrow>
        put_existing R C s (acknowledge_item receipt (sd_item stored)) (sd_storage_revision stored) now)))"

definition fail_delivery ::
  "('s, 'j, 'e) repository \<Rightarrow> (delivery_item, 'j) serde \<Rightarrow> delivery_outbox \<Rightarrow> 's \<Rightarrow> delivery_claim \<Rightarrow>
   adapter_failure \<Rightarrow> timestamp \<Rightarrow> (delivery_error + delivery_item) \<times> 's" where
  "fail_delivery R C outbox s claim failure now =
     (if outbox_poisoned outbox then (Inl DeliveryLockPoisoned, s)
      else (case delivery_required R C s (di_id (dc_item claim)) of Inl e \<Rightarrow> (Inl e, s) | Inr stored \<Rightarrow>
       (case verify_claim (sd_item stored) claim of Inl e \<Rightarrow> (Inl e, s) | Inr _ \<Rightarrow>
        put_existing R C s (fail_item (outbox_config outbox) failure now (sd_item stored))
          (sd_storage_revision stored) now)))"

fun recover_loop ::
  "('s, 'j, 'e) repository \<Rightarrow> (delivery_item, 'j) serde \<Rightarrow> delivery_config \<Rightarrow> 's \<Rightarrow> timestamp \<Rightarrow>
   stored_delivery list \<Rightarrow> (delivery_error + delivery_item list) \<times> 's" where
  "recover_loop R C config s now [] = (Inr [], s)"
| "recover_loop R C config s now (x # xs) =
     (case put_existing R C s (recover_item config now (sd_item x)) (sd_storage_revision x) now of
        (Inl e, s1) \<Rightarrow> (Inl e, s1)
      | (Inr item, s1) \<Rightarrow>
          (case recover_loop R C config s1 now xs of
             (Inl e, s2) \<Rightarrow> (Inl e, s2)
           | (Inr items, s2) \<Rightarrow> (Inr (item # items), s2)))"

definition recover_expired ::
  "('s, 'j, 'e) repository \<Rightarrow> (delivery_item, 'j) serde \<Rightarrow> delivery_outbox \<Rightarrow> 's \<Rightarrow> timestamp \<Rightarrow>
   (delivery_error + delivery_item list) \<times> 's" where
  "recover_expired R C outbox s now =
     (if outbox_poisoned outbox then (Inl DeliveryLockPoisoned, s)
      else (case delivery_load_all R C s of Inl e \<Rightarrow> (Inl e, s) | Inr records \<Rightarrow>
       recover_loop R C (outbox_config outbox) s now
         (filter (\<lambda>x. claim_expired now (sd_item x)) records)))"

definition cancel_delivery ::
  "('s, 'j, 'e) repository \<Rightarrow> (delivery_item, 'j) serde \<Rightarrow> delivery_outbox \<Rightarrow> 's \<Rightarrow> delivery_id \<Rightarrow> string \<Rightarrow>
   timestamp \<Rightarrow> (delivery_error + delivery_item) \<times> 's" where
  "cancel_delivery R C outbox s i reason now =
     (if outbox_poisoned outbox then (Inl DeliveryLockPoisoned, s)
      else (case delivery_required R C s i of Inl e \<Rightarrow> (Inl e, s) | Inr stored \<Rightarrow>
       if delivery_is_terminal (di_state (sd_item stored)) \<or> is_blank reason
       then (Inl DeliveryIllegalTransition, s)
       else put_existing R C s (cancel_item reason (sd_item stored)) (sd_storage_revision stored) now))"

definition get_delivery ::
  "('s, 'j, 'e) repository \<Rightarrow> (delivery_item, 'j) serde \<Rightarrow> delivery_outbox \<Rightarrow> 's \<Rightarrow> delivery_id \<Rightarrow>
   delivery_error + delivery_item option" where
  "get_delivery R C outbox s i =
     (if outbox_poisoned outbox then Inl DeliveryLockPoisoned
      else (case delivery_load R C s i of Inl e \<Rightarrow> Inl e | Inr x \<Rightarrow> Inr (map_option sd_item x)))"

definition list_deliveries ::
  "('s, 'j, 'e) repository \<Rightarrow> (delivery_item, 'j) serde \<Rightarrow> delivery_outbox \<Rightarrow> 's \<Rightarrow>
   delivery_error + delivery_item list" where
  "list_deliveries R C outbox s =
     (if outbox_poisoned outbox then Inl DeliveryLockPoisoned
      else (case delivery_load_all R C s of Inl e \<Rightarrow> Inl e | Inr xs \<Rightarrow> Inr (map sd_item xs)))"

section \<open>Bounds\<close>

lemma char_boundary_below_le: "char_boundary_below v n \<le> n"
  by (induction n) (auto simp: le_SucI)

lemma char_boundary_below_boundary: "is_char_boundary v (char_boundary_below v n)"
  by (induction n) (auto simp: is_char_boundary_def)

lemma is_char_boundary_all: "is_char_boundary v (length v)"
  by (simp add: is_char_boundary_def)

lemma bounded_error_prefix:
  "length (bounded_error text) \<le> 512 \<and> is_char_boundary (trim text) (length (bounded_error text))
   \<and> (\<exists>rest. trim text = bounded_error text @ rest)"
proof (cases "length (trim text) \<le> 512")
  case True
  then show ?thesis by (simp add: bounded_error_def Let_def is_char_boundary_all)
next
  case False
  have "char_boundary_below (trim text) 512 \<le> 512" by (rule char_boundary_below_le)
  then show ?thesis
    using False char_boundary_below_boundary [of "trim text" 512]
    by (auto simp: bounded_error_def Let_def min_def intro: exI [of _ "drop (char_boundary_below (trim text) 512) (trim text)"])
qed

text \<open>A usable configuration: \<open>outbox_new\<close> accepted it, and its durations are 64-bit.\<close>

definition config_ok :: "delivery_config \<Rightarrow> bool" where
  "config_ok config \<longleftrightarrow>
     (\<exists>outbox. outbox_new config = Inr outbox)
     \<and> is_i64 (initial_backoff_ms config) \<and> is_i64 (max_backoff_ms config) \<and> is_i64 (claim_lease_ms config)"

lemma config_okD:
  assumes "config_ok config"
  shows "0 < max_attempts config" and "0 < initial_backoff_ms config"
    and "initial_backoff_ms config \<le> max_backoff_ms config" and "0 < claim_lease_ms config"
    and "max_backoff_ms config \<le> i64_max"
  using assms
  by (auto simp: config_ok_def outbox_new_def is_i64_def word_gt_0 split: if_splits)

text \<open>The saturating product never loses the exact exponential, capped by the configured maximum.\<close>

lemma backoff_ms_exact:
  assumes "config_ok config"
  shows "backoff_ms config attempt =
    min (initial_backoff_ms config * 2 ^ min (unat attempt - 1) 62) (max_backoff_ms config)"
proof -
  define p where "p = initial_backoff_ms config * 2 ^ min (unat attempt - 1) 62"
  have "0 \<le> p" using config_okD(2) [OF assms] by (simp add: p_def)
  moreover have "backoff_ms config attempt = min (sat_i64 p) (max_backoff_ms config)"
    by (simp add: backoff_ms_def Let_def i64_saturating_mul_def p_def)
  ultimately show ?thesis
    using config_okD(5) [OF assms] unfolding p_def [symmetric]
    by (auto simp: sat_i64_def i64_min_def min_def max_def)
qed

lemma backoff_ms_bounds:
  assumes "config_ok config"
  shows "initial_backoff_ms config \<le> backoff_ms config attempt \<and> backoff_ms config attempt \<le> max_backoff_ms config"
proof -
  have "initial_backoff_ms config * 1 \<le> initial_backoff_ms config * 2 ^ min (unat attempt - 1) 62"
    using config_okD(2) [OF assms] by (intro mult_left_mono) simp_all
  then show ?thesis
    using config_okD(3) [OF assms] by (simp add: backoff_ms_exact [OF assms])
qed

section \<open>Specification\<close>

type_synonym delivery_table = "delivery_id \<Rightarrow> delivery_item option"

definition deliveries_of :: "(delivery_item, 'j) serde \<Rightarrow> 'j view \<Rightarrow> delivery_table" where
  "deliveries_of C v = records_of sd_item (delivery_decode C) v"

definition live_deliveries :: "delivery_table \<Rightarrow> delivery_id set" where
  "live_deliveries D = {i. \<exists>x. D i = Some x \<and> \<not> delivery_is_terminal (di_state x)}"

inductive delivery_moves :: "delivery_config \<Rightarrow> delivery_item \<Rightarrow> delivery_item \<Rightarrow> bool" for config where
  claimed: "claimable now (\<lambda>_. True) x \<Longrightarrow> delivery_moves config x (claim_item config now token x)"
| acknowledged: "di_state x = DeliveryClaimed \<Longrightarrow> di_claim_token x = Some token \<Longrightarrow>
     delivery_moves config x (acknowledge_item receipt x)"
| failed: "di_state x = DeliveryClaimed \<Longrightarrow> di_claim_token x = Some token \<Longrightarrow>
     delivery_moves config x (fail_item config failure now x)"
| recovered: "claim_expired now x \<Longrightarrow> delivery_moves config x (recover_item config now x)"
| cancelled: "\<not> delivery_is_terminal (di_state x) \<Longrightarrow> delivery_moves config x (cancel_item reason x)"

inductive delivery_spec :: "delivery_config \<Rightarrow> delivery_table \<Rightarrow> delivery_table \<Rightarrow> bool" for config where
  enqueued: "validate_new new config = Inr () \<Longrightarrow> D i = None \<Longrightarrow>
     (\<And>j x. D j = Some x \<Longrightarrow> di_stable_key x \<noteq> nd_stable_key new) \<Longrightarrow>
     card (live_deliveries D) < max_pending config \<Longrightarrow>
     delivery_spec config D (D(i \<mapsto> new_item new now i))"
| changed: "D i = Some x \<Longrightarrow> delivery_moves config x y \<Longrightarrow> di_revision x < n \<Longrightarrow>
     delivery_spec config D (D(i \<mapsto> touch_item n now y))"

text \<open>The item a worker should be given: due, on its route, and none earlier.\<close>

definition oldest_due :: "delivery_table \<Rightarrow> timestamp \<Rightarrow> (delivery_item \<Rightarrow> bool) \<Rightarrow> delivery_item \<Rightarrow> bool" where
  "oldest_due D now m x \<longleftrightarrow>
     D (di_id x) = Some x \<and> claimable now m x
     \<and> (\<forall>j y. D j = Some y \<longrightarrow> claimable now m y \<longrightarrow> claim_order x \<le> claim_order y)"

inductive outbox_op ::
  "('s, 'j, 'e) repository \<Rightarrow> ('s \<Rightarrow> 'j view) \<Rightarrow> ('s \<Rightarrow> bool) \<Rightarrow> (delivery_item, 'j) serde \<Rightarrow>
   delivery_outbox \<Rightarrow> 's \<Rightarrow> 's \<Rightarrow> bool"
  for R view ok C outbox where
  op_enqueue: "enqueue_delivery R C outbox s new now i = (res, s') \<Longrightarrow> outbox_op R view ok C outbox s s'"
| op_claim: "claim_next R C outbox s now token = (claim, s') \<Longrightarrow> outbox_op R view ok C outbox s s'"
| op_claim_account: "claim_next_for_account R C outbox s channel account now token = (claim, s') \<Longrightarrow>
     outbox_op R view ok C outbox s s'"
| op_acknowledge: "acknowledge_delivery R C outbox s given receipt now = (res, s') \<Longrightarrow>
     outbox_op R view ok C outbox s s'"
| op_fail: "fail_delivery R C outbox s given failure now = (res, s') \<Longrightarrow> outbox_op R view ok C outbox s s'"
| op_recover: "recover_expired R C outbox s now = (items, s') \<Longrightarrow> outbox_op R view ok C outbox s s'"
| op_cancel: "cancel_delivery R C outbox s i reason now = (res, s') \<Longrightarrow> outbox_op R view ok C outbox s s'"
| op_elsewhere: "ok s' \<Longrightarrow> view s' = view s \<Longrightarrow> outbox_op R view ok C outbox s s'"

lemmas item_updates = claim_item_def acknowledge_item_def fail_item_def recover_item_def cancel_item_def

lemma touch_item_simps [simp]:
  "di_id (touch_item n now x) = di_id x" "di_state (touch_item n now x) = di_state x"
  "di_stable_key (touch_item n now x) = di_stable_key x" "di_revision (touch_item n now x) = n"
  "di_attempt_count (touch_item n now x) = di_attempt_count x"
  "di_claim_token (touch_item n now x) = di_claim_token x"
  "di_claim_expires_at (touch_item n now x) = di_claim_expires_at x"
  "di_possible_duplicate (touch_item n now x) = di_possible_duplicate x"
  "di_receipt (touch_item n now x) = di_receipt x"
  "di_not_before (touch_item n now x) = di_not_before x"
  by (simp_all add: touch_item_def)

text \<open>What an item promises; the attempts are bounded, a claim token is held exactly while claimed,
  and a receipt says when the message may have been sent twice.\<close>

definition item_inv :: "delivery_config \<Rightarrow> delivery_item \<Rightarrow> bool" where
  "item_inv config x \<longleftrightarrow>
     di_attempt_count x \<le> max_attempts config
     \<and> (di_state x \<in> {DeliveryPending, DeliveryRetryScheduled} \<longrightarrow> di_attempt_count x < max_attempts config)
     \<and> (di_state x = DeliveryClaimed \<longleftrightarrow> di_claim_token x \<noteq> None)
     \<and> (di_state x = DeliverySent \<longleftrightarrow> di_receipt x \<noteq> None)
     \<and> (\<forall>r. di_receipt x = Some r \<longrightarrow> di_possible_duplicate x \<longrightarrow> duplicate_possible r)"

definition outbox_inv :: "delivery_config \<Rightarrow> delivery_table \<Rightarrow> bool" where
  "outbox_inv config D \<longleftrightarrow>
     finite (dom D)
     \<and> (\<forall>i x. D i = Some x \<longrightarrow> di_id x = i \<and> item_inv config x)
     \<and> (\<forall>i j x y. D i = Some x \<longrightarrow> D j = Some y \<longrightarrow> di_stable_key x = di_stable_key y \<longrightarrow> i = j)
     \<and> card (live_deliveries D) \<le> max_pending config"

text \<open>The content of an item, which never changes.\<close>

definition item_content :: "delivery_item \<Rightarrow> _" where
  "item_content x = (di_id x, di_stable_key x, di_profile_id x, di_session_id x, di_turn_id x,
     di_final_id x, di_source x, di_route x, di_text x, di_artifacts x, di_platform_idempotency x,
     di_created_at x)"

definition delivery_later :: "delivery_item \<Rightarrow> delivery_item \<Rightarrow> bool" where
  "delivery_later x y \<longleftrightarrow>
     item_content y = item_content x \<and> di_attempt_count x \<le> di_attempt_count y
     \<and> (di_possible_duplicate x \<longrightarrow> di_possible_duplicate y)
     \<and> (y = x \<or> di_revision x < di_revision y \<and> \<not> delivery_is_terminal (di_state x))"

lemma saturating_succ_u32_le: "(x :: u32) < m \<Longrightarrow> saturating_succ_u32 x \<le> m"
  by (simp add: word_le_nat_alt word_less_nat_alt unat_saturating_succ_u32)

lemma saturating_succ_u32_ge: "x \<le> saturating_succ_u32 x"
proof -
  have "unat x < 2 ^ 32" using unsigned_less [of x] by simp
  then show ?thesis by (simp add: word_le_nat_alt unat_saturating_succ_u32)
qed

lemma delivery_moves_live: "delivery_moves config x y \<Longrightarrow> \<not> delivery_is_terminal (di_state x)"
  by (erule delivery_moves.cases) (auto simp: claimable_def claim_expired_def delivery_is_terminal_def)

lemma delivery_moves_content:
  "delivery_moves config x y \<Longrightarrow> item_content (touch_item n now y) = item_content x"
  by (erule delivery_moves.cases) (simp_all add: item_content_def item_updates touch_item_def)

lemma delivery_moves_inv: "delivery_moves config x y \<Longrightarrow> item_inv config x \<Longrightarrow> item_inv config (touch_item n now y)"
proof (induction rule: delivery_moves.induct)
  case (claimed t x token)
  then show ?case
    using saturating_succ_u32_le [of "di_attempt_count x" "max_attempts config"]
    by (auto simp: item_inv_def claimable_def claim_item_def)
next
  case (acknowledged x token receipt)
  then show ?case by (auto simp: item_inv_def acknowledge_item_def)
next
  case (failed x token failure t)
  then show ?case by (auto simp: item_inv_def fail_item_def fail_retryable_def)
next
  case (recovered t x)
  then show ?case by (auto simp: item_inv_def recover_item_def claim_expired_def)
next
  case (cancelled x reason)
  then show ?case by (auto simp: item_inv_def cancel_item_def delivery_is_terminal_def)
qed

lemma delivery_moves_later:
  assumes "delivery_moves config x y" and "di_revision x < n"
  shows "delivery_later x (touch_item n now y)"
proof -
  have "di_attempt_count x \<le> di_attempt_count y"
    using assms(1) saturating_succ_u32_ge by (auto simp: item_updates elim!: delivery_moves.cases)
  moreover have "di_possible_duplicate x \<longrightarrow> di_possible_duplicate y"
    using assms(1) by (auto simp: item_updates elim!: delivery_moves.cases)
  ultimately show ?thesis
    using delivery_moves_live [OF assms(1)] delivery_moves_content [OF assms(1)] assms(2)
    by (simp add: delivery_later_def)
qed

lemma delivery_later_refl [simp]: "delivery_later x x"
  by (simp add: delivery_later_def)

lemma delivery_later_trans: "delivery_later x y \<Longrightarrow> delivery_later y z \<Longrightarrow> delivery_later x z"
  by (auto simp: delivery_later_def)

lemma item_content_key: "item_content x = item_content y \<Longrightarrow> di_id x = di_id y \<and> di_stable_key x = di_stable_key y"
  by (simp add: item_content_def)

lemma live_deliveries_finite: "finite (dom D) \<Longrightarrow> finite (live_deliveries D)"
  by (rule finite_subset [of _ "dom D"]) (auto simp: live_deliveries_def)

lemma new_item_inv: "0 < max_attempts config \<Longrightarrow> item_inv config (new_item new now i)"
  by (simp add: item_inv_def new_item_def)

lemma outbox_inv_upd:
  assumes "outbox_inv config D" and "di_id y = i" and "item_inv config y"
    and "\<And>j x. D j = Some x \<Longrightarrow> j \<noteq> i \<Longrightarrow> di_stable_key x \<noteq> di_stable_key y"
    and "card (live_deliveries (D(i \<mapsto> y))) \<le> max_pending config"
  shows "outbox_inv config (D(i \<mapsto> y))"
proof -
  have "k = j" if k: "(D(i \<mapsto> y)) k = Some a" and j: "(D(i \<mapsto> y)) j = Some b"
      and "di_stable_key a = di_stable_key b" for k j a b
    using assms(1) assms(4) [of k a] assms(4) [of j b] that
    by (cases "k = i"; cases "j = i") (simp_all add: outbox_inv_def)
  moreover have "di_id a = k \<and> item_inv config a" if "(D(i \<mapsto> y)) k = Some a" for k a
    using assms(1-3) that by (cases "k = i") (simp_all add: outbox_inv_def)
  moreover have "finite (dom (D(i \<mapsto> y)))" using assms(1) by (simp add: outbox_inv_def)
  ultimately show ?thesis using assms(5) unfolding outbox_inv_def by blast
qed

lemma outbox_invD:
  assumes "outbox_inv config D"
  shows "finite (dom D)" and "D i = Some x \<Longrightarrow> di_id x = i" and "D i = Some x \<Longrightarrow> item_inv config x"
    and "D i = Some x \<Longrightarrow> D j = Some y \<Longrightarrow> di_stable_key x = di_stable_key y \<Longrightarrow> i = j"
    and "card (live_deliveries D) \<le> max_pending config"
  using assms unfolding outbox_inv_def by blast+

lemma delivery_spec_inv:
  assumes "delivery_spec config D D'" and "outbox_inv config D" and "0 < max_attempts config"
  shows "outbox_inv config D'"
  using assms(1,2)
proof (induction rule: delivery_spec.induct)
  case (enqueued new D i now)
  have live: "live_deliveries (D(i \<mapsto> new_item new now i)) = insert i (live_deliveries D)"
    using enqueued(2) by (auto simp: live_deliveries_def new_item_def delivery_is_terminal_def)
  have "i \<notin> live_deliveries D" using enqueued(2) by (simp add: live_deliveries_def)
  moreover have "finite (live_deliveries D)"
    using enqueued.prems by (simp add: outbox_inv_def live_deliveries_finite)
  ultimately have "card (live_deliveries (D(i \<mapsto> new_item new now i))) \<le> max_pending config"
    using enqueued(4) by (simp add: live)
  moreover have "di_stable_key (new_item new now i) = nd_stable_key new" "di_id (new_item new now i) = i"
    by (simp_all add: new_item_def)
  ultimately show ?case
    using enqueued(3) by (intro outbox_inv_upd [OF enqueued.prems _ new_item_inv [OF assms(3)]]) auto
next
  case (changed D i x y n now)
  have c: "di_id (touch_item n now y) = di_id x" "di_stable_key (touch_item n now y) = di_stable_key x"
    using item_content_key [OF delivery_moves_content [OF changed(2), of n now]] by auto
  have "live_deliveries (D(i \<mapsto> touch_item n now y)) \<subseteq> live_deliveries D"
    using changed(1) delivery_moves_live [OF changed(2)] by (auto simp: live_deliveries_def split: if_splits)
  then have "card (live_deliveries (D(i \<mapsto> touch_item n now y))) \<le> card (live_deliveries D)"
    using outbox_invD(1) [OF changed.prems] by (intro card_mono live_deliveries_finite)
  then have card: "card (live_deliveries (D(i \<mapsto> touch_item n now y))) \<le> max_pending config"
    using outbox_invD(5) [OF changed.prems] by linarith
  show ?case
  proof (rule outbox_inv_upd [OF changed.prems _ delivery_moves_inv [OF changed(2)] _ card])
    show "di_id (touch_item n now y) = i" using c(1) outbox_invD(2) [OF changed.prems changed(1)] by simp
    show "item_inv config x" by (rule outbox_invD(3) [OF changed.prems changed(1)])
    show "di_stable_key z \<noteq> di_stable_key (touch_item n now y)" if "D j = Some z" "j \<noteq> i" for j z
      using outbox_invD(4) [OF changed.prems that(1) changed(1)] that(2) c(2) by auto
  qed
qed

lemma delivery_spec_star_inv:
  "(delivery_spec config)\<^sup>*\<^sup>* D D' \<Longrightarrow> outbox_inv config D \<Longrightarrow> 0 < max_attempts config \<Longrightarrow> outbox_inv config D'"
  by (induction rule: rtranclp_induct) (auto intro: delivery_spec_inv)

lemma outbox_inv_empty: "outbox_inv config Map.empty"
  by (simp add: outbox_inv_def live_deliveries_def)

lemma delivery_spec_later:
  "delivery_spec config D D' \<Longrightarrow> D i = Some x \<Longrightarrow> \<exists>y. D' i = Some y \<and> delivery_later x y"
  by (induction rule: delivery_spec.induct) (auto intro: delivery_moves_later)

lemma delivery_spec_star_later:
  "(delivery_spec config)\<^sup>*\<^sup>* D D' \<Longrightarrow> D i = Some x \<Longrightarrow> \<exists>y. D' i = Some y \<and> delivery_later x y"
proof (induction rule: rtranclp_induct)
  case (step T U)
  then show ?case by (meson delivery_later_trans delivery_spec_later)
qed auto

section \<open>The outbox implements the specification\<close>

lemma delivery_decode_fields:
  "delivery_decode C vr = Inr x \<Longrightarrow>
     di_id (sd_item x) = vr_id vr \<and> di_revision (sd_item x) = vr_revision vr
     \<and> sd_storage_revision x = di_revision (sd_item x)"
  by (auto simp: delivery_decode_def split: sum.splits if_splits)

lemma delivery_encode_fields:
  "delivery_encode C x = Inr vr \<Longrightarrow> vr_id vr = di_id x \<and> vr_revision vr = di_revision x"
  by (auto simp: delivery_encode_def split: sum.splits)

lemma delivery_encode_decode:
  assumes "serde_ok C" and "delivery_encode C x = Inr vr"
  shows "\<exists>y. delivery_decode C vr = Inr y \<and> sd_item y = x"
proof -
  obtain j where j: "to_value C x = Inr j" using assms(2) by (auto simp: delivery_encode_def split: sum.splits)
  show ?thesis
    using assms(2) j serde_okD [OF assms(1) j] by (auto simp: delivery_encode_def delivery_decode_def)
qed

locale outbox_store = repository_laws R view wf
  for R :: "('s, 'j, 'e) repository" and view :: "'s \<Rightarrow> 'j view" and wf :: "'s \<Rightarrow> bool" +
  fixes C :: "(delivery_item, 'j) serde"
  assumes codec: "wf s \<Longrightarrow> serde_ok C"

sublocale outbox_store \<subseteq> typed_store R view wf "delivery_encode C" "delivery_decode C" sd_item
  di_id di_revision "\<lambda>_. True"
  using codec by unfold_locales (auto dest: delivery_encode_fields delivery_encode_decode delivery_decode_fields)

context outbox_store
begin

abbreviation items :: "'s \<Rightarrow> delivery_table" where
  "items s \<equiv> deliveries_of C (view s)"

lemmas items_tab = deliveries_of_def [of C, symmetric]
lemmas items_key = tab_key [unfolded items_tab]

lemma delivery_required_items:
  assumes "wf s" and "delivery_required R C s i = Inr x"
  shows "items s i = Some (sd_item x)" and "di_id (sd_item x) = i"
    and "sd_storage_revision x = di_revision (sd_item x)"
proof -
  obtain vr where vr: "repo_get R s i = Inr (Some vr)" "delivery_decode C vr = Inr x"
    using assms(2) by (auto simp: delivery_required_def delivery_load_def split: sum.splits option.splits)
  show "items s i = Some (sd_item x)" and "di_id (sd_item x) = i"
    using get_tab [OF assms(1) vr, unfolded items_tab] by auto
  show "sd_storage_revision x = di_revision (sd_item x)" using delivery_decode_fields [OF vr(2)] by simp
qed

lemma delivery_load_all_items:
  assumes "wf s" and "delivery_load_all R C s = Inr xs"
  shows load_items_mem: "x \<in> set xs \<Longrightarrow> items s (di_id (sd_item x)) = Some (sd_item x)
      \<and> sd_storage_revision x = di_revision (sd_item x)"
    and load_items_distinct: "distinct (map (\<lambda>x. di_id (sd_item x)) xs)"
    and load_items_complete: "items s i = Some d \<Longrightarrow> \<exists>x \<in> set xs. sd_item x = d"
    and load_items_loaded: "loaded_from s (filter P xs)"
proof -
  obtain rs where rs: "repo_list R s = Inr rs" "collect_results (map (delivery_decode C) rs) = Inr xs"
    using assms(2) by (auto simp: delivery_load_all_def split: sum.splits)
  note l = list_tab [OF assms(1) rs, unfolded items_tab]
  show "distinct (map (\<lambda>x. di_id (sd_item x)) xs)" using l(2) by (simp add: comp_def)
  show "items s i = Some d \<Longrightarrow> \<exists>x \<in> set xs. sd_item x = d" by (rule l(3))
  show "loaded_from s (filter P xs)" by (rule loaded_from_filter [OF assms(1) rs])
  assume x: "x \<in> set xs"
  then obtain vr where "delivery_decode C vr = Inr x"
    using collect_results_mapD [OF rs(2)] by (metis in_set_conv_nth)
  moreover have "items s (di_id (sd_item x)) = Some (sd_item x)" using l(1) x by blast
  ultimately show "items s (di_id (sd_item x)) = Some (sd_item x)
      \<and> sd_storage_revision x = di_revision (sd_item x)"
    using delivery_decode_fields by blast
qed

lemma put_existing_items:
  assumes "wf s" and "items s (di_id x) = Some x" and "di_id y = di_id x"
    and "put_existing R C s y (di_revision x) now = (res, s')"
  shows "wf s' \<and> (items s' = items s \<and> (\<exists>e. res = Inl e)
      \<or> di_revision x < di_revision x + 1
        \<and> items s' = (items s)(di_id x \<mapsto> touch_item (di_revision x + 1) now y)
        \<and> (\<forall>z. res = Inr z \<longrightarrow> z = touch_item (di_revision x + 1) now y))"
proof (cases "\<exists>e. res = Inl e \<and> s' = s")
  case True
  then show ?thesis using assms(1) by auto
next
  case False
  obtain n where n: "checked_next (di_revision x) = Some n"
    using assms(4) False by (auto simp: put_existing_def split: option.splits)
  note n1 = checked_next_eq [OF n]
  let ?y = "touch_item (di_revision x + 1) now y"
  obtain vr where vr: "delivery_encode C ?y = Inr vr"
    using assms(4) False n n1 by (auto simp: put_existing_def split: sum.splits)
  obtain r0 s0 where put: "repo_put R s vr (Exact (di_revision x)) = (r0, s0)" by fastforce
  have s0: "s' = s0" "\<And>e. r0 = Inl e \<Longrightarrow> \<exists>e'. res = Inl e'" "\<And>z. res = Inr z \<Longrightarrow> z = ?y"
    using assms(4) n n1 vr put by (auto simp: put_existing_def split: sum.splits)
  have "wf s'" and "items s' = items s \<and> (\<exists>e. r0 = Inl e)
      \<or> di_revision x < di_revision x + 1 \<and> items s' = (items s)(di_id x \<mapsto> ?y)"
    using put_exact_tab [OF assms(1) vr _ put, unfolded items_tab] s0(1) assms(3) by simp_all
  then show ?thesis using s0(2,3) by blast
qed

lemma put_existing_spec:
  assumes "wf s" and "items s (di_id x) = Some x" and "delivery_moves config x y"
    and "put_existing R C s y (di_revision x) now = (res, s')"
  shows "wf s' \<and> (delivery_spec config)\<^sup>*\<^sup>* (items s) (items s')
    \<and> (\<forall>i. i \<noteq> di_id x \<longrightarrow> items s' i = items s i)
    \<and> (\<forall>z. res = Inr z \<longrightarrow> z = touch_item (di_revision x + 1) now y
          \<and> items s' = (items s)(di_id x \<mapsto> z))"
proof -
  have "di_id y = di_id x" using item_content_key [OF delivery_moves_content [OF assms(3)]] by simp
  note put = put_existing_items [OF assms(1,2) this assms(4)]
  show ?thesis
  proof (cases "items s' = items s \<and> (\<exists>e. res = Inl e)")
    case True
    then show ?thesis using put by auto
  next
    case False
    then have upd: "di_revision x < di_revision x + 1"
      "items s' = (items s)(di_id x \<mapsto> touch_item (di_revision x + 1) now y)"
      "\<And>z. res = Inr z \<Longrightarrow> z = touch_item (di_revision x + 1) now y" using put by blast+
    have "delivery_spec config (items s) (items s')"
      unfolding upd(2) using delivery_spec.changed [of "items s" "di_id x" x config y] assms(2,3) upd(1) by blast
    then show ?thesis using put upd by auto
  qed
qed

end

context outbox_store
begin

lemma verify_claim_Inr:
  "verify_claim x claim = Inr u \<longleftrightarrow> di_state x = DeliveryClaimed \<and> di_claim_token x = Some (dc_token claim)"
  by (simp add: verify_claim_def)

lemma live_items_count:
  assumes "wf s" and "delivery_load_all R C s = Inr xs"
  shows "length (filter (\<lambda>x. \<not> delivery_is_terminal (di_state (sd_item x))) xs) = card (live_deliveries (items s))"
proof (rule length_filter_card [OF load_items_distinct [OF assms]])
  show "(\<not> delivery_is_terminal (di_state (sd_item x))) = (di_id (sd_item x) \<in> live_deliveries (items s))"
    if "x \<in> set xs" for x
    using load_items_mem [OF assms that] by (auto simp: live_deliveries_def)
  show "live_deliveries (items s) \<subseteq> (\<lambda>x. di_id (sd_item x)) ` set xs"
    using load_items_complete [OF assms] items_key [OF assms(1)] by (fastforce simp: live_deliveries_def)
qed

lemma put_new_items:
  assumes "wf s" and "delivery_encode C x = Inr vr" and "repo_put R s vr Missing = (r0, s')"
  shows "wf s' \<and> (items s' = items s \<and> (\<exists>e. r0 = Inl e)
    \<or> items s (di_id x) = None \<and> items s' = (items s)(di_id x \<mapsto> x))"
  using put_new_tab [OF assms(1,2) _ assms(3), unfolded items_tab] by simp

lemma enqueue_delivery_cases:
  assumes "wf s" and "enqueue_delivery R C outbox s new now i = (res, s')"
  obtains (refused) e where "res = Inl e" "s' = s"
    | (replayed) x where "items s (di_id x) = Some x" "di_stable_key x = nd_stable_key new" "same_delivery x new"
        "res = Inr x" "s' = s"
    | (written) vr r0 where "validate_new new (outbox_config outbox) = Inr ()"
        "\<And>j x. items s j = Some x \<Longrightarrow> di_stable_key x \<noteq> nd_stable_key new"
        "card (live_deliveries (items s)) < max_pending (outbox_config outbox)"
        "delivery_encode C (new_item new now i) = Inr vr" "repo_put R s vr Missing = (r0, s')"
        "\<And>e. r0 = Inl e \<Longrightarrow> res = Inl (delivery_repository_error R e)"
        "\<And>n. r0 = Inr n \<Longrightarrow> res = Inr (new_item new now i)"
proof (cases "\<exists>e. res = Inl e \<and> s' = s")
  case True
  then show ?thesis using refused by blast
next
  case False
  obtain xs where v: "validate_new new (outbox_config outbox) = Inr ()" and xs: "delivery_load_all R C s = Inr xs"
    using assms(2) False by (auto simp: enqueue_delivery_def split: sum.splits if_splits)
  show ?thesis
  proof (cases "find (\<lambda>x. di_stable_key (sd_item x) = nd_stable_key new) xs")
    case (Some x)
    then have x: "x \<in> set xs" "di_stable_key (sd_item x) = nd_stable_key new" by (auto simp: find_Some_iff)
    moreover have "same_delivery (sd_item x) new" "res = Inr (sd_item x)" "s' = s"
      using assms(2) False v xs Some by (auto simp: enqueue_delivery_def split: if_splits)
    ultimately show ?thesis using replayed [of "sd_item x"] load_items_mem [OF assms(1) xs x(1)] by blast
  next
    case None
    then have keys: "di_stable_key x \<noteq> nd_stable_key new" if "items s j = Some x" for j x
      using load_items_complete [OF assms(1) xs that] by (auto simp: find_None_iff)
    have room: "card (live_deliveries (items s)) < max_pending (outbox_config outbox)"
      using assms(2) False v xs None live_items_count [OF assms(1) xs]
      by (auto simp: enqueue_delivery_def split: if_splits)
    then obtain vr where vr: "delivery_encode C (new_item new now i) = Inr vr"
      using assms(2) False v xs None live_items_count [OF assms(1) xs]
      by (auto simp: enqueue_delivery_def split: if_splits sum.splits)
    obtain r0 s0 where put: "repo_put R s vr Missing = (r0, s0)" by fastforce
    have "s' = s0" "\<And>e. r0 = Inl e \<Longrightarrow> res = Inl (delivery_repository_error R e)"
      "\<And>n. r0 = Inr n \<Longrightarrow> res = Inr (new_item new now i)"
      using assms(2) False v xs None live_items_count [OF assms(1) xs] room vr put
      by (auto simp: enqueue_delivery_def split: if_splits sum.splits)
    then show ?thesis using put by (intro written [OF v _ room vr]) (auto dest: keys)
  qed
qed

lemma new_item_same: "same_delivery (new_item new now i) new" "di_stable_key (new_item new now i) = nd_stable_key new"
  "di_id (new_item new now i) = i"
  by (simp_all add: same_delivery_def new_item_def)

lemma enqueue_delivery_spec:
  assumes "wf s" and "enqueue_delivery R C outbox s new now i = (res, s')"
  shows "wf s' \<and> (delivery_spec (outbox_config outbox))\<^sup>*\<^sup>* (items s) (items s')
    \<and> (\<forall>x. res = Inr x \<longrightarrow> items s' (di_id x) = Some x \<and> di_stable_key x = nd_stable_key new \<and> same_delivery x new)
    \<and> ((\<exists>j x. items s j = Some x \<and> di_stable_key x = nd_stable_key new) \<longrightarrow> s' = s)"
  using assms
proof (cases rule: enqueue_delivery_cases)
  case (written vr r0)
  note put = put_new_items [OF assms(1) written(4,5), unfolded new_item_same(3)]
  show ?thesis
  proof (cases "items s' = items s \<and> (\<exists>e. r0 = Inl e)")
    case True
    then show ?thesis using put written(2,6) by auto
  next
    case False
    then have upd: "items s i = None" "items s' = (items s)(i \<mapsto> new_item new now i)" using put by blast+
    have "delivery_spec (outbox_config outbox) (items s) (items s')"
      unfolding upd(2) using written(2) by (intro delivery_spec.enqueued written(1,3) upd(1)) auto
    then show ?thesis using put written(2,6,7) upd new_item_same by (cases r0) auto
  qed
qed (use assms(1) in auto)

lemma claim_next_matching_spec:
  assumes "wf s" and "claim_next_matching R C outbox s now m token = (res, s')"
  shows "wf s' \<and> (delivery_spec (outbox_config outbox))\<^sup>*\<^sup>* (items s) (items s')
    \<and> (\<forall>c. res = Inr (Some c) \<longrightarrow> (\<exists>x. oldest_due (items s) now m x
          \<and> dc_item c = touch_item (di_revision x + 1) now (claim_item (outbox_config outbox) now token x)
          \<and> dc_token c = token \<and> items s' = (items s)(di_id x \<mapsto> dc_item c)))
    \<and> (res = Inr None \<longrightarrow> s' = s \<and> (\<forall>j y. items s j = Some y \<longrightarrow> \<not> claimable now m y))"
proof (cases "\<exists>e. res = Inl e \<and> s' = s")
  case True
  then show ?thesis using assms(1) by auto
next
  case False
  obtain xs where xs: "\<not> outbox_poisoned outbox" "delivery_load_all R C s = Inr xs"
    using assms(2) False by (auto simp: claim_next_matching_def split: sum.splits if_splits)
  let ?P = "\<lambda>x. claimable now m (sd_item x)" and ?f = "\<lambda>x. claim_order (sd_item x)"
  show ?thesis
  proof (cases "find ?P (sort_key ?f xs)")
    case None
    then have "\<not> claimable now m y" if "items s j = Some y" for j y
      using load_items_complete [OF assms(1) xs(2) that] by (auto simp: find_sort_key_None)
    moreover have "res = Inr None" "s' = s"
      using assms(2) xs None by (simp_all add: claim_next_matching_def)
    ultimately show ?thesis using assms(1) by simp
  next
    case (Some x)
    note f = find_sort_key_Some [OF Some]
    have x: "items s (di_id (sd_item x)) = Some (sd_item x)" "sd_storage_revision x = di_revision (sd_item x)"
      using load_items_mem [OF assms(1) xs(2) f(1)] by auto
    have "claim_order (sd_item x) \<le> claim_order y" if "items s j = Some y" "claimable now m y" for j y
      using load_items_complete [OF assms(1) xs(2) that(1)] that(2) f(3) by blast
    then have least: "oldest_due (items s) now m (sd_item x)" using x(1) f(2) by (simp add: oldest_due_def)
    have "claimable now (\<lambda>_. True) (sd_item x)" using f(2) by (simp add: claimable_def)
    then have moves: "delivery_moves (outbox_config outbox) (sd_item x)
        (claim_item (outbox_config outbox) now token (sd_item x))" by (rule delivery_moves.claimed)
    obtain r1 s1 where put: "put_existing R C s (claim_item (outbox_config outbox) now token (sd_item x))
        (di_revision (sd_item x)) now = (r1, s1)" by fastforce
    have "s' = s1" "\<And>e. r1 = Inl e \<Longrightarrow> res = Inl e"
      "\<And>y. r1 = Inr y \<Longrightarrow> res = Inr (Some \<lparr>dc_item = y, dc_token = token\<rparr>)"
      using assms(2) xs Some put x(2) by (auto simp: claim_next_matching_def split: sum.splits)
    then show ?thesis
      using put_existing_spec [OF assms(1) x(1) moves put] least by (cases r1) auto
  qed
qed

lemma settle_spec:
  assumes "wf s" and "delivery_required R C s i = Inr x"
    and "delivery_moves (outbox_config outbox) (sd_item x) y"
    and "put_existing R C s y (sd_storage_revision x) now = (res, s')"
  shows "wf s' \<and> (delivery_spec (outbox_config outbox))\<^sup>*\<^sup>* (items s) (items s')
    \<and> (\<forall>j. j \<noteq> i \<longrightarrow> items s' j = items s j)
    \<and> (\<forall>z. res = Inr z \<longrightarrow> z = touch_item (di_revision (sd_item x) + 1) now y \<and> items s' = (items s)(i \<mapsto> z))"
proof -
  note x = delivery_required_items [OF assms(1,2)]
  show ?thesis using put_existing_spec [OF assms(1) _ assms(3), of now res s'] assms(4) x by simp
qed

lemma acknowledge_delivery_spec:
  assumes "wf s" and "acknowledge_delivery R C outbox s claim receipt now = (res, s')"
  shows "wf s' \<and> (delivery_spec (outbox_config outbox))\<^sup>*\<^sup>* (items s) (items s')
    \<and> (\<forall>j. j \<noteq> di_id (dc_item claim) \<longrightarrow> items s' j = items s j)
    \<and> (\<forall>x. items s (di_id (dc_item claim)) = Some x
          \<longrightarrow> \<not> (di_state x = DeliveryClaimed \<and> di_claim_token x = Some (dc_token claim))
          \<longrightarrow> s' = s \<and> (\<exists>e. res = Inl e))
    \<and> (\<forall>z. res = Inr z \<longrightarrow> (\<exists>x. items s (di_id (dc_item claim)) = Some x
          \<and> z = touch_item (di_revision x + 1) now (acknowledge_item receipt x)
          \<and> items s' (di_id (dc_item claim)) = Some z))"
proof (cases "\<exists>e. res = Inl e \<and> s' = s")
  case True
  then show ?thesis using assms(1) by auto
next
  case False
  obtain x where x: "delivery_required R C s (di_id (dc_item claim)) = Inr x"
      "verify_claim (sd_item x) claim = Inr ()"
      "put_existing R C s (acknowledge_item receipt (sd_item x)) (sd_storage_revision x) now = (res, s')"
    using assms(2) False by (auto simp: acknowledge_delivery_def split: sum.splits if_splits)
  note v = x(2) [unfolded verify_claim_Inr]
  note moves = delivery_moves.acknowledged [OF conjunct1 [OF v] conjunct2 [OF v], where config = "outbox_config outbox"]
  show ?thesis
    using settle_spec [OF assms(1) x(1) moves x(3)] delivery_required_items [OF assms(1) x(1)] v by simp
qed

lemma fail_delivery_spec:
  assumes "wf s" and "fail_delivery R C outbox s claim failure now = (res, s')"
  shows "wf s' \<and> (delivery_spec (outbox_config outbox))\<^sup>*\<^sup>* (items s) (items s')
    \<and> (\<forall>j. j \<noteq> di_id (dc_item claim) \<longrightarrow> items s' j = items s j)
    \<and> (\<forall>x. items s (di_id (dc_item claim)) = Some x
          \<longrightarrow> \<not> (di_state x = DeliveryClaimed \<and> di_claim_token x = Some (dc_token claim))
          \<longrightarrow> s' = s \<and> (\<exists>e. res = Inl e))
    \<and> (\<forall>z. res = Inr z \<longrightarrow> (\<exists>x. items s (di_id (dc_item claim)) = Some x
          \<and> z = touch_item (di_revision x + 1) now (fail_item (outbox_config outbox) failure now x)
          \<and> items s' (di_id (dc_item claim)) = Some z))"
proof (cases "\<exists>e. res = Inl e \<and> s' = s")
  case True
  then show ?thesis using assms(1) by auto
next
  case False
  obtain x where x: "delivery_required R C s (di_id (dc_item claim)) = Inr x"
      "verify_claim (sd_item x) claim = Inr ()"
      "put_existing R C s (fail_item (outbox_config outbox) failure now (sd_item x)) (sd_storage_revision x) now
        = (res, s')"
    using assms(2) False by (auto simp: fail_delivery_def split: sum.splits if_splits)
  note v = x(2) [unfolded verify_claim_Inr]
  note moves = delivery_moves.failed [OF conjunct1 [OF v] conjunct2 [OF v]]
  show ?thesis
    using settle_spec [OF assms(1) x(1) moves x(3)] delivery_required_items [OF assms(1) x(1)] v by simp
qed

lemma cancel_delivery_spec:
  assumes "wf s" and "cancel_delivery R C outbox s i reason now = (res, s')"
  shows "wf s' \<and> (delivery_spec (outbox_config outbox))\<^sup>*\<^sup>* (items s) (items s')"
proof (cases "\<exists>e. res = Inl e \<and> s' = s")
  case True
  then show ?thesis using assms(1) by auto
next
  case False
  obtain x where x: "delivery_required R C s i = Inr x" "\<not> delivery_is_terminal (di_state (sd_item x))"
      "put_existing R C s (cancel_item reason (sd_item x)) (sd_storage_revision x) now = (res, s')"
    using assms(2) False by (auto simp: cancel_delivery_def split: sum.splits if_splits)
  show ?thesis using settle_spec [OF assms(1) x(1) delivery_moves.cancelled [OF x(2)] x(3), of outbox] by blast
qed

lemma recover_loop_spec:
  assumes "wf s" and "loaded_from s xs"
    and "\<forall>x \<in> set xs. claim_expired now (sd_item x) \<and> sd_storage_revision x = di_revision (sd_item x)"
    and "recover_loop R C config s now xs = (res, s')"
  shows "wf s' \<and> (delivery_spec config)\<^sup>*\<^sup>* (items s) (items s')
    \<and> (\<forall>i. i \<notin> (\<lambda>x. di_id (sd_item x)) ` set xs \<longrightarrow> items s' i = items s i)
    \<and> ((\<exists>ys. res = Inr ys) \<longrightarrow> (\<forall>x \<in> set xs. items s' (di_id (sd_item x))
         = Some (touch_item (di_revision (sd_item x) + 1) now (recover_item config now (sd_item x)))))"
  using assms
proof (induction xs arbitrary: s res)
  case Nil
  then show ?case by auto
next
  case (Cons x xs)
  have x: "items s (di_id (sd_item x)) = Some (sd_item x)" "sd_storage_revision x = di_revision (sd_item x)"
    and fresh: "di_id (sd_item x) \<notin> (\<lambda>x. di_id (sd_item x)) ` set xs"
    using loaded_fromD [OF Cons.prems(2), unfolded items_tab] Cons.prems(3) by (auto simp: comp_def)
  have moves: "delivery_moves config (sd_item x) (recover_item config now (sd_item x))"
    using Cons.prems(3) by (intro delivery_moves.recovered) simp
  obtain r1 s1 where put: "put_existing R C s (recover_item config now (sd_item x)) (di_revision (sd_item x)) now
      = (r1, s1)" by fastforce
  note s1 = put_existing_spec [OF Cons.prems(1) x(1) moves put]
  show ?case
  proof (cases r1)
    case (Inl e)
    then have "res = Inl e" "s' = s1" using Cons.prems(4) put x(2) by simp_all
    then show ?thesis using s1 Inl by auto
  next
    case (Inr y)
    obtain r2 where rest: "recover_loop R C config s1 now xs = (r2, s')"
      and r2: "(\<exists>ys. res = Inr ys) \<Longrightarrow> (\<exists>ys. r2 = Inr ys)"
      using Cons.prems(4) put x(2) Inr by (auto split: prod.splits sum.splits)
    have loaded: "loaded_from s1 xs"
      by (rule loaded_from_tail [OF Cons.prems(2)]) (use s1 in \<open>simp add: items_tab\<close>)
    have wf1: "wf s1" and y: "items s1 (di_id (sd_item x))
        = Some (touch_item (di_revision (sd_item x) + 1) now (recover_item config now (sd_item x)))"
      using s1 Inr by simp_all
    have due: "\<forall>z \<in> set xs. claim_expired now (sd_item z) \<and> sd_storage_revision z = di_revision (sd_item z)"
      using Cons.prems(3) by simp
    note ih = Cons.IH [OF wf1 loaded due rest]
    have "(delivery_spec config)\<^sup>*\<^sup>* (items s) (items s')" using s1 ih by (meson rtranclp_trans)
    moreover have "items s' i = items s i" if "i \<notin> (\<lambda>x. di_id (sd_item x)) ` set (x # xs)" for i
      using ih s1 that by simp
    moreover have "items s' (di_id (sd_item x))
        = Some (touch_item (di_revision (sd_item x) + 1) now (recover_item config now (sd_item x)))"
      using ih fresh y by metis
    ultimately show ?thesis using ih r2 by auto
  qed
qed

lemma recover_expired_spec:
  assumes "wf s" and "recover_expired R C outbox s now = (res, s')"
  shows "wf s' \<and> (delivery_spec (outbox_config outbox))\<^sup>*\<^sup>* (items s) (items s')
    \<and> (\<forall>i x. items s i = Some x \<longrightarrow> \<not> claim_expired now x \<longrightarrow> items s' i = Some x)
    \<and> ((\<exists>ys. res = Inr ys) \<longrightarrow> (\<forall>i x. items s i = Some x \<longrightarrow> claim_expired now x \<longrightarrow> items s' i
         = Some (touch_item (di_revision x + 1) now (recover_item (outbox_config outbox) now x))))"
proof (cases "\<exists>e. res = Inl e \<and> s' = s")
  case True
  then show ?thesis using assms(1) by auto
next
  case False
  obtain xs where xs: "delivery_load_all R C s = Inr xs" "recover_loop R C (outbox_config outbox) s now
      (filter (\<lambda>x. claim_expired now (sd_item x)) xs) = (res, s')"
    using assms(2) False by (auto simp: recover_expired_def split: sum.splits if_splits)
  note mem = load_items_mem [OF assms(1) xs(1)]
  have "\<forall>x \<in> set (filter (\<lambda>x. claim_expired now (sd_item x)) xs).
      claim_expired now (sd_item x) \<and> sd_storage_revision x = di_revision (sd_item x)" using mem by simp
  note loop = recover_loop_spec [OF assms(1) load_items_loaded [OF assms(1) xs(1)] this xs(2)]
  have kept: "items s' i = Some x" if "items s i = Some x" "\<not> claim_expired now x" for i x
  proof -
    have "i \<notin> (\<lambda>x. di_id (sd_item x)) ` set (filter (\<lambda>x. claim_expired now (sd_item x)) xs)"
      using mem that by fastforce
    then show ?thesis using loop that(1) by simp
  qed
  have redone: "items s' i = Some (touch_item (di_revision x + 1) now (recover_item (outbox_config outbox) now x))"
    if ok: "\<exists>ys. res = Inr ys" and x: "items s i = Some x" and due: "claim_expired now x" for i x
  proof -
    obtain y where "y \<in> set xs" "sd_item y = x" using load_items_complete [OF assms(1) xs(1) x] by blast
    then show ?thesis using loop ok due items_key [OF assms(1) x] by auto
  qed
  show ?thesis using loop kept redone by blast
qed

lemma outbox_op_spec:
  assumes "outbox_op R view wf C outbox s s'" and "wf s"
  shows "wf s' \<and> (delivery_spec (outbox_config outbox))\<^sup>*\<^sup>* (items s) (items s')"
  using assms
proof (induction rule: outbox_op.induct)
  case (op_enqueue s new now i res s')
  then show ?case using enqueue_delivery_spec by blast
next
  case (op_claim s now token claim s')
  then show ?case using claim_next_matching_spec unfolding claim_next_def by blast
next
  case (op_claim_account s channel account now token claim s')
  then show ?case
    using claim_next_matching_spec [OF op_claim_account.prems]
    by (auto simp: claim_next_for_account_def split: if_splits)
next
  case (op_acknowledge s given receipt now res s')
  then show ?case using acknowledge_delivery_spec by blast
next
  case (op_fail s given failure now res s')
  then show ?case using fail_delivery_spec by blast
next
  case (op_recover s now ys s')
  then show ?case using recover_expired_spec by blast
next
  case (op_cancel s i reason now res s')
  then show ?case using cancel_delivery_spec by blast
next
  case (op_elsewhere s' s)
  then show ?case by simp
qed

lemma outbox_run_spec:
  assumes "(outbox_op R view wf C outbox)\<^sup>*\<^sup>* s s'" and "wf s"
  shows "wf s' \<and> (delivery_spec (outbox_config outbox))\<^sup>*\<^sup>* (items s) (items s')"
  using assms
proof (induction rule: rtranclp_induct)
  case (step t u)
  then show ?case by (meson outbox_op_spec rtranclp_trans)
qed simp

end

section \<open>The outbox on the embedded store\<close>

interpretation outbox: outbox_store "embedded_repository E Deliveries" "embedded_view E Deliveries"
  "typed_wf E C" C for E C
  by (intro outbox_store.intro embedded_typed_laws outbox_store_axioms.intro) (simp add: typed_wf_def)

abbreviation outbox_items where
  "outbox_items E C s \<equiv> deliveries_of C (embedded_view E Deliveries s)"

abbreviation outbox_runs where
  "outbox_runs E C outbox \<equiv> (outbox_op (embedded_repository E Deliveries)
     (embedded_view E Deliveries) (typed_wf E C) C outbox)\<^sup>*\<^sup>*"

lemma outbox_reachable_inv:
  assumes "typed_wf E C s" and "outbox_items E C s = Map.empty" and "0 < max_attempts (outbox_config outbox)"
    and "outbox_runs E C outbox s s'"
  shows "outbox_inv (outbox_config outbox) (outbox_items E C s')"
  using delivery_spec_star_inv [OF conjunct2 [OF outbox.outbox_run_spec [OF assms(4,1)]]]
    assms(2,3) outbox_inv_empty by metis

section \<open>Correctness\<close>

definition sample_outbox :: delivery_outbox where
  "sample_outbox = \<lparr>outbox_config = delivery_config_default, outbox_poisoned = False\<rparr>"

definition sample_new_delivery :: new_delivery where
  "sample_new_delivery = \<lparr>nd_stable_key = ''k1'', nd_profile_id = EntityId 7, nd_session_id = EntityId 9,
     nd_turn_id = None, nd_final_id = None, nd_source = DeliveryScheduled (EntityId 5),
     nd_route = \<lparr>cr_channel = ''c'', cr_external_account = ''a'', cr_conversation = ''v'', cr_thread = None,
       cr_reply_to_message = None\<rparr>,
     nd_text = ''hi'', nd_artifacts = [], nd_platform_idempotency = False, nd_not_before = 0\<rparr>"

abbreviation sample_deliveries :: "(delivery_item embedded_store, delivery_item, store_error) repository" where
  "sample_deliveries \<equiv> embedded_repository plain_env Deliveries"

definition sample_outboxed :: "delivery_item embedded_store" where
  "sample_outboxed = snd (enqueue_delivery sample_deliveries plain_serde sample_outbox empty_store
     sample_new_delivery 1 (EntityId 1))"

definition sample_delivery :: delivery_item where
  "sample_delivery = new_item sample_new_delivery 1 (EntityId 1)"

definition sample_claimed :: "(delivery_error + delivery_claim option) \<times> delivery_item embedded_store" where
  "sample_claimed = claim_next sample_deliveries plain_serde sample_outbox sample_outboxed 2 (EntityId 8)"

definition sample_claim :: delivery_claim where
  "sample_claim = \<lparr>dc_item = touch_item 1 2 (claim_item delivery_config_default 2 (EntityId 8) sample_delivery),
     dc_token = EntityId 8\<rparr>"

lemmas outbox_eval = enqueue_delivery_def claim_next_def claim_next_matching_def acknowledge_delivery_def
  recover_expired_def validate_new_def delivery_load_all_def delivery_required_def delivery_load_def
  delivery_encode_def delivery_decode_def put_existing_def touch_item_def new_item_def claim_item_def
  claimable_def claim_order_def delivery_is_terminal_def verify_claim_def acknowledge_item_def
  recover_item_def claim_expired_def checked_next_def checked_succ_def sample_outbox_def sample_new_delivery_def
  delivery_config_default_def plain_serde_def saturating_succ_u32_def i64_saturating_add_def sat_i64_def i64_max_def i64_min_def
  deliveries_of_def records_of_def typed_def embedded_view_def table_view_def is_blank_visible
  embedded_repository_def list_records_def Let_def as_str.simps revision_zero_def
  store_eval replicate_numeral word_le_nat_alt

lemma sample_outboxed_item:
  "outbox_items plain_env plain_serde sample_outboxed (EntityId 1) = Some sample_delivery"
  by (simp add: sample_outboxed_def sample_delivery_def outbox_eval)

lemma sample_claimed_eval: "fst sample_claimed = Inr (Some sample_claim)"
  by (simp add: sample_claimed_def sample_outboxed_def sample_claim_def sample_delivery_def outbox_eval)

lemma sample_claimed_item:
  "outbox_items plain_env plain_serde (snd sample_claimed) (EntityId 1) = Some (dc_item sample_claim)"
  by (simp add: sample_claimed_def sample_outboxed_def sample_claim_def sample_delivery_def outbox_eval)

lemma no_deliveries: "outbox_items plain_env plain_serde empty_store = Map.empty"
  by (simp add: deliveries_of_def)

lemma sample_outbox_runs:
  "outbox_runs plain_env plain_serde sample_outbox empty_store sample_outboxed"
  "outbox_runs plain_env plain_serde sample_outbox sample_outboxed (snd sample_claimed)"
  unfolding sample_outboxed_def sample_claimed_def
  by (rule r_into_rtranclp, rule outbox_op.op_enqueue, rule prod.collapse [symmetric],
      rule r_into_rtranclp, rule outbox_op.op_claim, rule prod.collapse [symmetric])

lemma sample_outbox_wf:
  "typed_wf plain_env plain_serde sample_outboxed" "typed_wf plain_env plain_serde (snd sample_claimed)"
  using outbox.outbox_run_spec [OF sample_outbox_runs(1)] outbox.outbox_run_spec [OF sample_outbox_runs(2)]
  by simp_all

lemma sample_attempts: "0 < max_attempts (outbox_config sample_outbox)"
  by (simp add: sample_outbox_def delivery_config_default_def)

text \<open>C30. Every operation of the outbox, whatever it returns and whichever write fails, changes the
  deliveries only as \<open>delivery_spec\<close> allows: a delivery is created pending under a new key while
  there is room, and moves by claim, acknowledgement, failure, recovery of an expired claim or
  cancellation, each from the states that allow it and each with a new revision.\<close>

theorem outbox_refines_spec:
  assumes "typed_wf E C s" and "outbox_runs E C outbox s s'"
  shows "typed_wf E C s' \<and> (delivery_spec (outbox_config outbox))\<^sup>*\<^sup>* (outbox_items E C s) (outbox_items E C s')"
  by (rule outbox.outbox_run_spec [OF assms(2,1)])

theorem outbox_refines_spec_witness:
  "(delivery_spec delivery_config_default)\<^sup>*\<^sup>* Map.empty (outbox_items plain_env plain_serde (snd sample_claimed))
   \<and> outbox_items plain_env plain_serde (snd sample_claimed) (EntityId 1) = Some (dc_item sample_claim)"
  using outbox_refines_spec [OF empty_store_typed_wf rtranclp_trans [OF sample_outbox_runs]]
    sample_claimed_item by (simp add: deliveries_of_def sample_outbox_def)

text \<open>C31. The outbox is bounded and unambiguous: in every state reached from an empty outbox, a delivery
  was attempted at most \<open>max_attempts\<close> times and strictly fewer while it still waits to be sent, a
  claim token exists exactly while it is claimed and a receipt exactly when it was sent, no two
  deliveries share a stable key, and at most \<open>max_pending\<close> are unfinished.\<close>

theorem outbox_bounds:
  assumes "typed_wf E C s" and "outbox_items E C s = Map.empty" and "outbox_new config = Inr outbox"
    and "outbox_runs E C outbox s s'" and "outbox_items E C s' i = Some x"
  shows "di_attempt_count x \<le> max_attempts config
    \<and> (di_state x \<in> {DeliveryPending, DeliveryRetryScheduled} \<longrightarrow> di_attempt_count x < max_attempts config)
    \<and> (di_state x = DeliveryClaimed \<longleftrightarrow> di_claim_token x \<noteq> None)
    \<and> (di_state x = DeliverySent \<longleftrightarrow> di_receipt x \<noteq> None)
    \<and> (\<forall>j y. outbox_items E C s' j = Some y \<longrightarrow> di_stable_key y = di_stable_key x \<longrightarrow> j = i)
    \<and> card (live_deliveries (outbox_items E C s')) \<le> max_pending config"
proof -
  have c: "outbox_config outbox = config" "0 < max_attempts config"
    using assms(3) by (auto simp: outbox_new_def word_gt_0 split: if_splits)
  have "outbox_inv config (outbox_items E C s')"
    using outbox_reachable_inv [OF assms(1,2) _ assms(4)] c by simp
  note inv = outbox_invD [OF this]
  show ?thesis using inv(3) [OF assms(5)] inv(4) [OF _ assms(5)] inv(5) by (auto simp: item_inv_def)
qed

theorem outbox_bounds_witness:
  "di_attempt_count (dc_item sample_claim) \<le> 8
   \<and> card (live_deliveries (outbox_items plain_env plain_serde (snd sample_claimed))) \<le> 1024"
proof -
  have new: "outbox_new delivery_config_default = Inr sample_outbox"
    by (simp add: outbox_new_def sample_outbox_def delivery_config_default_def)
  show ?thesis
    using outbox_bounds [OF empty_store_typed_wf no_deliveries new rtranclp_trans [OF sample_outbox_runs]
        sample_claimed_item]
    by (simp add: delivery_config_default_def)
qed

text \<open>C33. A stable key is enqueued exactly once: an accepted enqueue returns a delivery that is stored
  under that key with the submitted content, and when the key is already present nothing is written,
  so a replay returns the first delivery and a different content is refused.\<close>

theorem enqueue_exactly_once:
  assumes "typed_wf E C s"
    and "enqueue_delivery (embedded_repository E Deliveries) C outbox s new now i = (res, s')"
  shows "(\<forall>x. res = Inr x \<longrightarrow> outbox_items E C s' (di_id x) = Some x
      \<and> di_stable_key x = nd_stable_key new \<and> same_delivery x new)
    \<and> ((\<exists>j x. outbox_items E C s j = Some x \<and> di_stable_key x = nd_stable_key new) \<longrightarrow> s' = s)"
  using outbox.enqueue_delivery_spec [OF assms] by blast

theorem enqueue_exactly_once_witness:
  "enqueue_delivery sample_deliveries plain_serde sample_outbox sample_outboxed sample_new_delivery 5 (EntityId 2)
   = (Inr sample_delivery, sample_outboxed)"
proof -
  let ?run = "enqueue_delivery sample_deliveries plain_serde sample_outbox sample_outboxed sample_new_delivery 5 (EntityId 2)"
  have "fst ?run = Inr sample_delivery"
    by (simp add: sample_outboxed_def sample_delivery_def same_delivery_def outbox_eval)
  moreover have "snd ?run = sample_outboxed"
    using enqueue_exactly_once [OF sample_outbox_wf(1) prod.collapse [symmetric]] sample_outboxed_item
    by (metis sample_delivery_def outbox.new_item_same(2))
  ultimately show ?thesis by (simp add: prod_eq_iff)
qed

text \<open>C34. Deliveries are never lost or rewritten: over any run a delivery keeps its identity, key, route
  and content, its attempts never decrease, the mark that it may have been sent twice is never
  cleared, every change raises its revision, and once sent, failed or cancelled it does not change.\<close>

theorem deliveries_monotone:
  assumes "typed_wf E C s" and "outbox_runs E C outbox s s'" and "outbox_items E C s i = Some x"
  shows "\<exists>y. outbox_items E C s' i = Some y \<and> delivery_later x y"
  using delivery_spec_star_later [OF conjunct2 [OF outbox.outbox_run_spec [OF assms(2,1)]] assms(3)] .

theorem deliveries_monotone_witness:
  "\<exists>y. outbox_items plain_env plain_serde (snd sample_claimed) (EntityId 1) = Some y \<and> delivery_later sample_delivery y"
  by (rule deliveries_monotone [OF sample_outbox_wf(1) sample_outbox_runs(2) sample_outboxed_item])

text \<open>C35. A worker is given the oldest due delivery of its channel account, claimed under the fresh token
  with one more attempt, and only that delivery changes; it is told there is none only when no due
  delivery of the account exists, and then nothing changes.\<close>

theorem claim_oldest_for_account:
  assumes "typed_wf E C s"
    and "claim_next_for_account (embedded_repository E Deliveries) C outbox s channel account now token = (Inr c, s')"
  shows "let on_route = (\<lambda>x. cr_channel (di_route x) = channel \<and> cr_external_account (di_route x) = account) in
    case c of
      None \<Rightarrow> s' = s \<and> (\<forall>j y. outbox_items E C s j = Some y \<longrightarrow> \<not> claimable now on_route y)
    | Some claim \<Rightarrow> (\<exists>x. oldest_due (outbox_items E C s) now on_route x
        \<and> dc_item claim = touch_item (di_revision x + 1) now (claim_item (outbox_config outbox) now token x)
        \<and> dc_token claim = token
        \<and> outbox_items E C s' = (outbox_items E C s)(di_id x \<mapsto> dc_item claim))"
proof -
  have "claim_next_matching (embedded_repository E Deliveries) C outbox s now
      (\<lambda>x. cr_channel (di_route x) = channel \<and> cr_external_account (di_route x) = account) token = (Inr c, s')"
    using assms(2) by (simp add: claim_next_for_account_def split: if_splits)
  then show ?thesis
    using outbox.claim_next_matching_spec [OF assms(1)] by (cases c) (fastforce simp: Let_def)+
qed

theorem claim_oldest_for_account_witness:
  "\<exists>x claim s'. claim_next_for_account sample_deliveries plain_serde sample_outbox sample_outboxed ''c'' ''a'' 2
      (EntityId 8) = (Inr (Some claim), s')
    \<and> outbox_items plain_env plain_serde sample_outboxed (di_id x) = Some x
    \<and> dc_item claim = touch_item (di_revision x + 1) 2 (claim_item delivery_config_default 2 (EntityId 8) x)"
proof -
  let ?run = "claim_next_for_account sample_deliveries plain_serde sample_outbox sample_outboxed ''c'' ''a'' 2 (EntityId 8)"
  have "\<exists>claim. fst ?run = Inr (Some claim)"
    by (simp add: claim_next_for_account_def sample_outboxed_def outbox_eval)
  then obtain claim where run: "?run = (Inr (Some claim), snd ?run)" by (metis prod.collapse)
  have conf: "outbox_config sample_outbox = delivery_config_default" by (simp add: sample_outbox_def)
  show ?thesis
    using claim_oldest_for_account [OF sample_outbox_wf(1) run] run
    by (simp add: Let_def oldest_due_def conf) blast
qed

text \<open>C32. A possible double send is never hidden: when a claim expired unacknowledged on a platform
  without idempotent sends and recovery succeeded, then whatever happens later, a receipt recorded
  for that delivery says that the message may have been duplicated.\<close>

theorem possible_duplicate_reported:
  assumes "typed_wf E C s0" and "outbox_items E C s0 = Map.empty" and "outbox_new config = Inr outbox"
    and "outbox_runs E C outbox s0 s"
    and "outbox_items E C s i = Some x" and "claim_expired now x" and "\<not> di_platform_idempotency x"
    and "recover_expired (embedded_repository E Deliveries) C outbox s now = (Inr ys, s1)"
    and "outbox_runs E C outbox s1 s2" and "outbox_items E C s2 i = Some y" and "di_receipt y = Some r"
  shows "duplicate_possible r"
proof -
  have c: "0 < max_attempts (outbox_config outbox)"
    using assms(3) by (auto simp: outbox_new_def word_gt_0 split: if_splits)
  have wf: "typed_wf E C s" using outbox.outbox_run_spec [OF assms(4,1)] by blast
  note rec = outbox.recover_expired_spec [OF wf assms(8)]
  have marked: "outbox_items E C s1 i = Some (touch_item (di_revision x + 1) now
      (recover_item (outbox_config outbox) now x))" using rec assms(5,6) by blast
  have "di_possible_duplicate (touch_item (di_revision x + 1) now (recover_item (outbox_config outbox) now x))"
    using assms(7) by (simp add: recover_item_def)
  then have "di_possible_duplicate y"
    using delivery_spec_star_later [OF conjunct2 [OF outbox.outbox_run_spec [OF assms(9)]] marked] rec assms(10)
    by (auto simp: delivery_later_def)
  moreover have "outbox_runs E C outbox s0 s2"
    using assms(4,9) outbox_op.op_recover [OF assms(8)] by (meson rtranclp.rtrancl_into_rtrancl rtranclp_trans)
  then have "item_inv (outbox_config outbox) y"
    using outbox_invD(3) [OF outbox_reachable_inv [OF assms(1,2) c] assms(10)] by blast
  ultimately show ?thesis using assms(11) by (simp add: item_inv_def)
qed

text \<open>Retries back off exponentially without overflow: for every configuration the outbox accepts and
  every attempt number, the delay is exactly \<open>initial * 2 ^ (attempt - 1)\<close> capped at the maximum, so
  it never falls below the initial delay and never decreases from one attempt to the next.\<close>

theorem backoff_exact:
  assumes "config_ok config"
  shows "backoff_ms config attempt =
      min (initial_backoff_ms config * 2 ^ min (unat attempt - 1) 62) (max_backoff_ms config)
    \<and> initial_backoff_ms config \<le> backoff_ms config attempt
    \<and> backoff_ms config attempt \<le> backoff_ms config (saturating_succ_u32 attempt)"
proof -
  have "min (unat attempt - 1) 62 \<le> min (unat (saturating_succ_u32 attempt) - 1) 62"
    using saturating_succ_u32_ge [of attempt] by (simp add: word_le_nat_alt)
  then have "initial_backoff_ms config * 2 ^ min (unat attempt - 1) 62
      \<le> initial_backoff_ms config * 2 ^ min (unat (saturating_succ_u32 attempt) - 1) 62"
    using config_okD(2) [OF assms] by (intro mult_left_mono power_increasing) simp_all
  then show ?thesis
    using backoff_ms_bounds [OF assms, of attempt] by (simp add: backoff_ms_exact [OF assms] min_def)
qed

theorem backoff_exact_witness:
  "backoff_ms delivery_config_default 3 = 4000"
proof -
  have "config_ok delivery_config_default"
    by (simp add: config_ok_def outbox_new_def delivery_config_default_def is_i64_def i64_max_def i64_min_def)
  from conjunct1 [OF backoff_exact [OF this, of 3]]
  show ?thesis by (simp add: delivery_config_default_def)
qed

text \<open>A lost acknowledgement: the claim expires, recovery reschedules the delivery, and a second worker
  sends it.\<close>

definition sample_recovered :: "(delivery_error + delivery_item list) \<times> delivery_item embedded_store" where
  "sample_recovered = recover_expired sample_deliveries plain_serde sample_outbox (snd sample_claimed) 70000"

definition sample_reclaimed :: "(delivery_error + delivery_claim option) \<times> delivery_item embedded_store" where
  "sample_reclaimed = claim_next sample_deliveries plain_serde sample_outbox (snd sample_recovered) 70001 (EntityId 9)"

definition sample_sent :: "(delivery_error + delivery_item) \<times> delivery_item embedded_store" where
  "sample_sent = (case fst sample_reclaimed of
     Inr (Some claim) \<Rightarrow> acknowledge_delivery sample_deliveries plain_serde sample_outbox (snd sample_reclaimed) claim
       \<lparr>platform_message_id = ''m'', accepted_at = 70002, duplicate_possible = False\<rparr> 70002
   | _ \<Rightarrow> (Inl DeliveryInvalid, snd sample_reclaimed))"

lemmas sample_sent_defs = sample_sent_def sample_reclaimed_def sample_recovered_def sample_claimed_def
  sample_outboxed_def

lemma sample_sent_eval:
  "\<exists>ys. fst sample_recovered = Inr ys"
  "\<exists>y r. outbox_items plain_env plain_serde (snd sample_sent) (EntityId 1) = Some y \<and> di_receipt y = Some r
     \<and> di_state y = DeliverySent"
  by (simp_all add: sample_sent_defs outbox_eval)

lemma sample_sent_runs: "outbox_runs plain_env plain_serde sample_outbox (snd sample_recovered) (snd sample_sent)"
proof -
  have "outbox_op sample_deliveries (embedded_view plain_env Deliveries) (typed_wf plain_env plain_serde)
      plain_serde sample_outbox (snd sample_recovered) (snd sample_reclaimed)"
    unfolding sample_reclaimed_def by (rule outbox_op.op_claim, rule prod.collapse [symmetric])
  moreover have "outbox_runs plain_env plain_serde sample_outbox (snd sample_reclaimed) (snd sample_sent)"
    by (auto simp: sample_sent_def split: sum.splits option.splits
        intro: r_into_rtranclp outbox_op.op_acknowledge [OF prod.collapse [symmetric]])
  ultimately show ?thesis by (rule converse_rtranclp_into_rtranclp)
qed

theorem possible_duplicate_reported_witness:
  "\<exists>y r. outbox_items plain_env plain_serde (snd sample_sent) (EntityId 1) = Some y
     \<and> di_state y = DeliverySent \<and> di_receipt y = Some r \<and> duplicate_possible r"
proof -
  obtain ys where rec: "recover_expired sample_deliveries plain_serde sample_outbox (snd sample_claimed) 70000
      = (Inr ys, snd sample_recovered)"
    using sample_sent_eval(1) by (metis prod.collapse sample_recovered_def)
  obtain y r where y: "outbox_items plain_env plain_serde (snd sample_sent) (EntityId 1) = Some y"
    "di_receipt y = Some r" "di_state y = DeliverySent" using sample_sent_eval(2) by blast
  have new: "outbox_new delivery_config_default = Inr sample_outbox"
    by (simp add: outbox_new_def sample_outbox_def delivery_config_default_def)
  have due: "claim_expired 70000 (dc_item sample_claim)" "\<not> di_platform_idempotency (dc_item sample_claim)"
    by (simp_all add: sample_claim_def sample_delivery_def outbox_eval)
  show ?thesis
    using possible_duplicate_reported [OF empty_store_typed_wf no_deliveries new
        rtranclp_trans [OF sample_outbox_runs] sample_claimed_item due rec sample_sent_runs y(1,2)] y by blast
qed

end
