(* ===== verification/Schedule_Time.thy ===== *)
theory Schedule_Time
  imports Action_Store
begin

text \<open>
  The calendar arithmetic of \<open>crates/scheduler/src/lib.rs\<close>: schedules, the next occurrence of an
  interval or of a calendar expression, and the occurrences a late scheduler finds due. Time zones
  come from a package outside the repository, so the zone lookup, the range of representable
  instants and the wall-clock fields of an instant are the parameter \<open>calendar_env\<close>. The loops over
  minutes and over due occurrences are bounded by the constants of the source and are total
  functions.
\<close>

section \<open>Text functions of the standard library\<close>

text \<open>\<open>str::split_once\<close> on a character and \<open>str::parse::<u32>\<close>.\<close>

fun split_once :: "char \<Rightarrow> string \<Rightarrow> (string \<times> string) option" where
  "split_once c [] = None"
| "split_once c (d # ds) =
     (if d = c then Some ([], ds)
      else (case split_once c ds of None \<Rightarrow> None | Some (a, b) \<Rightarrow> Some (d # a, b)))"

definition is_digit :: "char \<Rightarrow> bool" where
  "is_digit c \<longleftrightarrow> 48 \<le> (of_char c :: nat) \<and> (of_char c :: nat) \<le> 57"

definition digits_value :: "string \<Rightarrow> nat" where
  "digits_value ds = foldl (\<lambda>n c. 10 * n + (of_char c - 48)) 0 ds"

definition parse_u32 :: "string \<Rightarrow> nat option" where
  "parse_u32 text =
     (let ds = (if starts_with ''+'' text then drop 1 text else text) in
      if ds = [] \<or> \<not> list_all is_digit ds \<or> digits_value ds \<ge> 2 ^ 32 then None
      else Some (digits_value ds))"

text \<open>\<open>str::split_whitespace\<close>.\<close>

fun take_word :: "string \<Rightarrow> string \<times> string" where
  "take_word [] = ([], [])"
| "take_word (c # cs) =
     (if whitespace_len (c # cs) > 0 then ([], c # cs)
      else (case take_word cs of (w, rest) \<Rightarrow> (c # w, rest)))"

lemma take_word_append: "take_word s = (w, rest) \<Longrightarrow> s = w @ rest"
  by (induction s arbitrary: w rest) (auto split: if_splits prod.splits)

lemma whitespace_len_trim_start: "whitespace_len (trim_start s) = 0"
proof (induction s rule: trim_start.induct)
  case (1 s)
  show ?case
  proof (cases "whitespace_len s = 0")
    case True
    then show ?thesis by (subst trim_start.simps) simp
  next
    case False
    then show ?thesis using 1 by (subst trim_start.simps) simp
  qed
qed

function split_whitespace :: "string \<Rightarrow> string list" where
  "split_whitespace s =
     (if trim_start s = [] then []
      else fst (take_word (trim_start s)) # split_whitespace (snd (take_word (trim_start s))))"
  by pat_completeness auto
termination
proof (relation "measure length", goal_cases)
  case 1
  show ?case by simp
next
  case (2 s)
  obtain c cs where t: "trim_start s = c # cs" using 2 by (cases "trim_start s") auto
  obtain w rest where w: "take_word cs = (w, rest)" by fastforce
  have "take_word (trim_start s) = (c # w, rest)"
    using whitespace_len_trim_start [of s] w by (simp add: t)
  moreover have "length rest \<le> length cs" using take_word_append [OF w] by simp
  ultimately show ?case using length_trim_start [of s] t by simp
qed

declare split_whitespace.simps [simp del]

section \<open>Schedules\<close>

datatype schedule_spec =
    Once timestamp
  | Interval u64 timestamp
  | Calendar string string

datatype missed_run_policy = SkipMissed | RunOnce | ReplayBounded u16

datatype scheduler_error =
    SchedulerRepository string
  | SchedulerCorrupt string
  | SchedulerLockPoisoned
  | InvalidSchedule string
  | JobNotFound
  | JobInvalidTransition
  | TimeOverflow

text \<open>Wall-clock fields of an instant in a zone, as \<open>chrono\<close> reports them.\<close>

record local_time =
  lt_minute :: nat
  lt_hour :: nat
  lt_day :: nat
  lt_month :: nat
  lt_weekday :: nat

record 'z calendar_env =
  zone_from_str :: "string \<Rightarrow> 'z option"
  instant_ok :: "int \<Rightarrow> bool"
  local_in_zone :: "'z \<Rightarrow> int \<Rightarrow> local_time"

record calendar_expression =
  ce_minute :: "nat set"
  ce_hour :: "nat set"
  ce_day :: "nat set"
  ce_month :: "nat set"
  ce_weekday :: "nat set"

definition parse_cron_value :: "string \<Rightarrow> nat \<Rightarrow> nat \<Rightarrow> scheduler_error + nat" where
  "parse_cron_value text minimum maximum =
     (case parse_u32 text of
        None \<Rightarrow> Inl (InvalidSchedule ''invalid calendar value'')
      | Some v \<Rightarrow>
          if minimum \<le> v \<and> v \<le> maximum then Inr v
          else Inl (InvalidSchedule ''calendar value is outside its field range''))"

definition cron_step :: "string \<Rightarrow> string \<times> nat" where
  "cron_step part =
     (case split_once (CHR ''/'') part of
        None \<Rightarrow> (part, 1)
      | Some (base, step) \<Rightarrow> (base, case parse_u32 step of None \<Rightarrow> 0 | Some n \<Rightarrow> n))"

definition cron_range :: "string \<Rightarrow> nat \<Rightarrow> nat \<Rightarrow> scheduler_error + nat \<times> nat" where
  "cron_range base minimum maximum =
     (if base = ''*'' then Inr (minimum, maximum)
      else (case split_once (CHR ''-'') base of
          Some (a, b) \<Rightarrow>
            (case parse_cron_value a minimum maximum of Inl e \<Rightarrow> Inl e | Inr start \<Rightarrow>
             (case parse_cron_value b minimum maximum of Inl e \<Rightarrow> Inl e | Inr stop \<Rightarrow>
              Inr (start, stop)))
        | None \<Rightarrow>
            (case parse_cron_value base minimum maximum of Inl e \<Rightarrow> Inl e | Inr v \<Rightarrow> Inr (v, v))))"

text \<open>\<open>(start..=end).step_by(step)\<close>, with Sunday's second number mapped to the first.\<close>

definition cron_values :: "bool \<Rightarrow> nat \<Rightarrow> nat \<Rightarrow> nat \<Rightarrow> nat list" where
  "cron_values sunday_alias start stop step =
     map (\<lambda>k. let candidate = start + k * step in if sunday_alias \<and> candidate = 7 then 0 else candidate)
       [0..<Suc ((stop - start) div step)]"

fun cron_parts :: "string list \<Rightarrow> nat \<Rightarrow> nat \<Rightarrow> bool \<Rightarrow> nat set \<Rightarrow> scheduler_error + nat set" where
  "cron_parts [] minimum maximum sunday_alias acc = Inr acc"
| "cron_parts (part # parts) minimum maximum sunday_alias acc =
     (case cron_step part of (base, step) \<Rightarrow>
      if step = 0 then Inl (InvalidSchedule ''invalid calendar step'')
      else (case cron_range base minimum maximum of Inl e \<Rightarrow> Inl e | Inr (start, stop) \<Rightarrow>
       if start > stop then Inl (InvalidSchedule ''descending calendar range'')
       else cron_parts parts minimum maximum sunday_alias
         (acc \<union> set (cron_values sunday_alias start stop step))))"

definition cron_field_parse :: "string \<Rightarrow> nat \<Rightarrow> nat \<Rightarrow> bool \<Rightarrow> scheduler_error + nat set" where
  "cron_field_parse text minimum maximum sunday_alias =
     (case cron_parts (split_on (CHR '','') text) minimum maximum sunday_alias {} of
        Inl e \<Rightarrow> Inl e
      | Inr vs \<Rightarrow> if vs = {} then Inl (InvalidSchedule ''empty calendar field'') else Inr vs)"

definition calendar_parse :: "string \<Rightarrow> scheduler_error + calendar_expression" where
  "calendar_parse expression =
     (case split_whitespace expression of
        [m, h, d, mo, w] \<Rightarrow>
          (case cron_field_parse m 0 59 False of Inl e \<Rightarrow> Inl e | Inr minute \<Rightarrow>
           (case cron_field_parse h 0 23 False of Inl e \<Rightarrow> Inl e | Inr hour \<Rightarrow>
            (case cron_field_parse d 1 31 False of Inl e \<Rightarrow> Inl e | Inr day \<Rightarrow>
             (case cron_field_parse mo 1 12 False of Inl e \<Rightarrow> Inl e | Inr month \<Rightarrow>
              (case cron_field_parse w 0 7 True of Inl e \<Rightarrow> Inl e | Inr weekday \<Rightarrow>
               Inr \<lparr>ce_minute = minute, ce_hour = hour, ce_day = day, ce_month = month,
                    ce_weekday = weekday\<rparr>)))))
      | _ \<Rightarrow> Inl (InvalidSchedule ''calendar expression must have five fields''))"

definition calendar_matches :: "calendar_expression \<Rightarrow> local_time \<Rightarrow> bool" where
  "calendar_matches cal date \<longleftrightarrow>
     lt_minute date \<in> ce_minute cal \<and> lt_hour date \<in> ce_hour cal \<and> lt_day date \<in> ce_day cal
     \<and> lt_month date \<in> ce_month cal \<and> lt_weekday date \<in> ce_weekday cal"

definition MAX_MINUTES :: int where "MAX_MINUTES = 60 * 24 * 366 * 5"

function calendar_search ::
  "'z calendar_env \<Rightarrow> calendar_expression \<Rightarrow> 'z \<Rightarrow> int \<Rightarrow> int \<Rightarrow> scheduler_error + timestamp" where
  "calendar_search env cal zone first_minute offset =
     (if offset \<ge> MAX_MINUTES
      then Inl (InvalidSchedule ''calendar has no occurrence within five years'')
      else (case i64_checked_mul offset 60000 of None \<Rightarrow> Inl TimeOverflow | Some shift \<Rightarrow>
       (case i64_checked_add first_minute shift of None \<Rightarrow> Inl TimeOverflow | Some millis \<Rightarrow>
        if \<not> instant_ok env millis then Inl TimeOverflow
        else if calendar_matches cal (local_in_zone env zone millis) then Inr millis
        else calendar_search env cal zone first_minute (offset + 1))))"
  by pat_completeness auto
termination
  by (relation "measure (\<lambda>(_, _, _, _, offset). nat (MAX_MINUTES - offset))") auto

declare calendar_search.simps [simp del]

definition next_calendar ::
  "'z calendar_env \<Rightarrow> string \<Rightarrow> string \<Rightarrow> timestamp \<Rightarrow> scheduler_error + timestamp" where
  "next_calendar env expression time_zone after =
     (case calendar_parse expression of Inl e \<Rightarrow> Inl e | Inr cal \<Rightarrow>
      (case zone_from_str env time_zone of
         None \<Rightarrow> Inl (InvalidSchedule ''invalid IANA time zone'')
       | Some zone \<Rightarrow>
           (case i64_checked_add (after div 60000) 1 of None \<Rightarrow> Inl TimeOverflow | Some minute \<Rightarrow>
            (case i64_checked_mul minute 60000 of None \<Rightarrow> Inl TimeOverflow | Some first_minute \<Rightarrow>
             calendar_search env cal zone first_minute 0))))"

definition initial_run ::
  "'z calendar_env \<Rightarrow> schedule_spec \<Rightarrow> timestamp \<Rightarrow> scheduler_error + timestamp option" where
  "initial_run env schedule now =
     (case schedule of
        Once at \<Rightarrow> Inr (Some at)
      | Interval every_ms anchor \<Rightarrow>
          if anchor \<ge> now then Inr (Some anchor)
          else (case i64_checked_sub now anchor of None \<Rightarrow> Inl TimeOverflow | Some elapsed \<Rightarrow>
           (case i64_try_from every_ms of None \<Rightarrow> Inl TimeOverflow | Some every \<Rightarrow>
            (case Option.bind (i64_checked_add elapsed (every - 1)) (\<lambda>v. i64_checked_div v every) of
               None \<Rightarrow> Inl TimeOverflow
             | Some periods \<Rightarrow>
                 (case i64_checked_mul periods every of None \<Rightarrow> Inl TimeOverflow | Some shift \<Rightarrow>
                  (case i64_checked_add anchor shift of
                     None \<Rightarrow> Inl TimeOverflow
                   | Some t \<Rightarrow> Inr (Some t))))))
      | Calendar expression time_zone \<Rightarrow>
          (case next_calendar env expression time_zone now of Inl e \<Rightarrow> Inl e | Inr t \<Rightarrow> Inr (Some t)))"

definition next_after ::
  "'z calendar_env \<Rightarrow> schedule_spec \<Rightarrow> timestamp \<Rightarrow> scheduler_error + timestamp option" where
  "next_after env schedule after =
     (case schedule of
        Once _ \<Rightarrow> Inr None
      | Interval every_ms anchor \<Rightarrow>
          (case i64_try_from every_ms of None \<Rightarrow> Inl TimeOverflow | Some every \<Rightarrow>
           (case i64_checked_sub after anchor of None \<Rightarrow> Inl TimeOverflow | Some elapsed \<Rightarrow>
            (case (if elapsed < 0 then Some 0
                   else Option.bind (i64_checked_div elapsed every) (\<lambda>v. i64_checked_add v 1)) of
               None \<Rightarrow> Inl TimeOverflow
             | Some periods \<Rightarrow>
                 (case i64_checked_mul periods every of None \<Rightarrow> Inl TimeOverflow | Some shift \<Rightarrow>
                  (case i64_checked_add anchor shift of
                     None \<Rightarrow> Inl TimeOverflow
                   | Some t \<Rightarrow> Inr (Some t))))))
      | Calendar expression time_zone \<Rightarrow>
          (case next_calendar env expression time_zone after of Inl e \<Rightarrow> Inl e | Inr t \<Rightarrow> Inr (Some t)))"

function due_loop ::
  "'z calendar_env \<Rightarrow> schedule_spec \<Rightarrow> timestamp \<Rightarrow> timestamp option \<Rightarrow> timestamp list \<Rightarrow>
   scheduler_error + timestamp list" where
  "due_loop env schedule now candidate occurrences =
     (case candidate of
        None \<Rightarrow> Inr occurrences
      | Some v \<Rightarrow>
          if v > now then Inr occurrences
          else if length (occurrences @ [v]) \<ge> 65536 then Inr (occurrences @ [v])
          else (case next_after env schedule v of
              Inl e \<Rightarrow> Inl e
            | Inr c \<Rightarrow> due_loop env schedule now c (occurrences @ [v])))"
  by pat_completeness auto
termination
  by (relation "measure (\<lambda>(_, _, _, _, occurrences). 65536 - length occurrences)") auto

declare due_loop.simps [simp del]

definition due_occurrences ::
  "'z calendar_env \<Rightarrow> schedule_spec \<Rightarrow> timestamp \<Rightarrow> timestamp \<Rightarrow> scheduler_error + timestamp list" where
  "due_occurrences env schedule first now = due_loop env schedule now (Some first) []"

definition validate_schedule :: "'z calendar_env \<Rightarrow> schedule_spec \<Rightarrow> scheduler_error + unit" where
  "validate_schedule env schedule =
     (case schedule of
        Once _ \<Rightarrow> Inr ()
      | Interval every_ms _ \<Rightarrow>
          if every_ms > 0 then Inr () else Inl (InvalidSchedule ''interval must be non-zero'')
      | Calendar expression time_zone \<Rightarrow>
          (case calendar_parse expression of Inl e \<Rightarrow> Inl e | Inr _ \<Rightarrow>
           (case zone_from_str env time_zone of
              None \<Rightarrow> Inl (InvalidSchedule ''invalid IANA time zone'')
            | Some _ \<Rightarrow> Inr ())))"

definition add_millis :: "timestamp \<Rightarrow> u64 \<Rightarrow> scheduler_error + timestamp" where
  "add_millis time millis =
     (case i64_try_from millis of None \<Rightarrow> Inl TimeOverflow | Some ms \<Rightarrow>
      (case i64_checked_add time ms of None \<Rightarrow> Inl TimeOverflow | Some t \<Rightarrow> Inr t))"

section \<open>Occurrences\<close>

text \<open>The recurring instants of a schedule: multiples of the interval after its anchor, or the minutes
  whose wall clock in the zone satisfies the calendar expression.\<close>

definition occurs :: "'z calendar_env \<Rightarrow> schedule_spec \<Rightarrow> timestamp \<Rightarrow> bool" where
  "occurs env schedule t =
     (case schedule of
        Once _ \<Rightarrow> False
      | Interval every_ms anchor \<Rightarrow> (\<exists>k. t = anchor + int k * uint every_ms)
      | Calendar expression time_zone \<Rightarrow>
          (\<exists>cal zone. calendar_parse expression = Inr cal \<and> zone_from_str env time_zone = Some zone
             \<and> 60000 dvd t \<and> calendar_matches cal (local_in_zone env zone t)))"

lemma occurs_Interval: "occurs env (Interval every_ms anchor) (anchor + int k * uint every_ms)"
  by (auto simp: occurs_def)

lemma i64_checked_div_nonneg: "i64_checked_div a b = Some q \<Longrightarrow> 0 \<le> a \<Longrightarrow> 0 \<le> b \<Longrightarrow> b \<noteq> 0 \<and> q = a div b"
  by (auto simp: i64_checked_div_def i64_checked_Some split: if_splits)

lemma i64_try_from_Some: "i64_try_from n = Some m \<Longrightarrow> m = uint n \<and> 0 \<le> m"
  by (auto simp: i64_checked_defs)

text \<open>On the grid of an interval, a multiple just above a point is the least above it.\<close>

lemma grid_least_above:
  fixes e :: int
  assumes "0 < e" and "q * e \<le> x" and "x < q * e + e" and "x < int k * e"
  shows "(q + 1) * e \<le> int k * e"
proof -
  have "q * e < int k * e" using assms(2,4) by linarith
  then have "q < int k" using assms(1) by (simp add: mult_less_cancel_right)
  then have "(q + 1) * e \<le> int k * e" using assms(1) by (intro mult_right_mono) simp_all
  then show ?thesis .
qed

lemma next_after_interval:
  assumes "next_after env (Interval every_ms anchor) after = Inr r"
  obtains t where "r = Some t" "after < t" "occurs env (Interval every_ms anchor) t"
    "\<And>u. occurs env (Interval every_ms anchor) u \<Longrightarrow> after < u \<Longrightarrow> t \<le> u"
proof -
  let ?e = "uint every_ms" and ?d = "after - anchor"
  obtain periods t where r: "r = Some t" and t: "t = anchor + periods * ?e"
    and p: "(if ?d < 0 then Some 0 else Option.bind (i64_checked_div ?d ?e) (\<lambda>v. i64_checked_add v 1)) = Some periods"
    using assms by (auto simp: next_after_def i64_checked_defs split: option.splits)
  show thesis
  proof (cases "?d < 0")
    case True
    then have "t = anchor" using p t by simp
    moreover have "occurs env (Interval every_ms anchor) anchor"
      using occurs_Interval [of env every_ms anchor 0] by simp
    moreover have "anchor \<le> u" if "occurs env (Interval every_ms anchor) u" for u
      using that by (auto simp: occurs_def)
    ultimately show thesis using True that [OF r] by simp
  next
    case False
    then have pos: "?e \<noteq> 0" and per: "periods = ?d div ?e + 1"
      using p i64_checked_div_nonneg [of ?d ?e] by (auto simp: bind_eq_Some_conv i64_checked_defs)
    have e: "0 < ?e" using pos by (simp add: less_le)
    have q: "?d div ?e * ?e \<le> ?d" "?d < ?d div ?e * ?e + ?e" "0 \<le> ?d div ?e"
    proof -
      have "?d = ?d div ?e * ?e + ?d mod ?e" by (rule div_mult_mod_eq [symmetric])
      moreover have "0 \<le> ?d mod ?e" "?d mod ?e < ?e" using e by simp_all
      ultimately show "?d div ?e * ?e \<le> ?d" "?d < ?d div ?e * ?e + ?e" by linarith+
      show "0 \<le> ?d div ?e" using e False by (simp add: pos_imp_zdiv_nonneg_iff)
    qed
    have "after < t" using q(2) by (simp add: t per algebra_simps)
    moreover have "occurs env (Interval every_ms anchor) t"
      using occurs_Interval [of env every_ms anchor "nat (?d div ?e + 1)"] q(3) by (simp add: t per)
    moreover have "t \<le> u" if occ: "occurs env (Interval every_ms anchor) u" and "after < u" for u
    proof -
      obtain k where k: "u = anchor + int k * ?e" using occ by (auto simp: occurs_def)
      then show ?thesis
        using grid_least_above [OF e q(1,2), of k] \<open>after < u\<close> by (simp add: t per)
    qed
    ultimately show thesis using that [OF r] by blast
  qed
qed

lemma calendar_search_Inr:
  assumes "calendar_search env cal zone f offset = Inr t"
  shows "\<exists>k \<ge> offset. t = f + k * 60000 \<and> calendar_matches cal (local_in_zone env zone t)
    \<and> (\<forall>j. offset \<le> j \<longrightarrow> j < k \<longrightarrow> \<not> calendar_matches cal (local_in_zone env zone (f + j * 60000)))"
  using assms
proof (induction env cal zone f offset rule: calendar_search.induct)
  case (1 env cal zone f offset)
  let ?m = "f + offset * 60000"
  have go: "offset < MAX_MINUTES" "i64_checked_mul offset 60000 = Some (offset * 60000)"
    "i64_checked_add f (offset * 60000) = Some ?m" "instant_ok env ?m"
    using 1(2) by (auto simp: calendar_search.simps [of env cal zone f offset] i64_checked_defs i64_checked_def
        split: option.splits if_splits)
  show ?case
  proof (cases "calendar_matches cal (local_in_zone env zone ?m)")
    case True
    then have "t = ?m" using 1(2) go by (simp add: calendar_search.simps [of env cal zone f offset])
    then show ?thesis using True by (intro exI [of _ offset]) simp
  next
    case False
    then have "calendar_search env cal zone f (offset + 1) = Inr t"
      using 1(2) go by (simp add: calendar_search.simps [of env cal zone f offset])
    then obtain k where k: "k \<ge> offset + 1" "t = f + k * 60000" "calendar_matches cal (local_in_zone env zone t)"
      "\<forall>j. offset + 1 \<le> j \<longrightarrow> j < k \<longrightarrow> \<not> calendar_matches cal (local_in_zone env zone (f + j * 60000))"
      using 1(1) [OF _ go(2,3)] go(1,4) False by auto
    have "\<not> calendar_matches cal (local_in_zone env zone (f + j * 60000))" if "offset \<le> j" "j < k" for j
      using k(4) False that by (cases "j = offset") auto
    then show ?thesis using k(1-3) by (intro exI [of _ k]) auto
  qed
qed

lemma next_calendar_Inr:
  assumes "next_calendar env expression time_zone after = Inr t"
  shows "after < t" and "occurs env (Calendar expression time_zone) t"
    and "after < u \<Longrightarrow> u < t \<Longrightarrow> \<not> occurs env (Calendar expression time_zone) u"
proof -
  let ?f = "(after div 60000 + 1) * 60000"
  obtain cal zone where parsed: "calendar_parse expression = Inr cal" "zone_from_str env time_zone = Some zone"
    and search: "calendar_search env cal zone ?f 0 = Inr t"
    using assms by (auto simp: next_calendar_def i64_checked_defs split: sum.splits option.splits)
  obtain k where k: "k \<ge> 0" "t = ?f + k * 60000" "calendar_matches cal (local_in_zone env zone t)"
    and none: "\<And>j. 0 \<le> j \<Longrightarrow> j < k \<Longrightarrow> \<not> calendar_matches cal (local_in_zone env zone (?f + j * 60000))"
    using calendar_search_Inr [OF search] by auto
  have bounds: "after div 60000 * 60000 \<le> after" "after < after div 60000 * 60000 + 60000"
    using div_mult_mod_eq [of after 60000] pos_mod_bound [of 60000 after] pos_mod_sign [of 60000 after] by linarith+
  show "after < t" using k(1,2) bounds(2) by (simp add: algebra_simps)
  show "occurs env (Calendar expression time_zone) t"
    using parsed k(2,3) by (auto simp: occurs_def)
  show "\<not> occurs env (Calendar expression time_zone) u" if "after < u" "u < t"
  proof
    assume "occurs env (Calendar expression time_zone) u"
    then obtain m where m: "u = m * 60000" and match: "calendar_matches cal (local_in_zone env zone u)"
      using parsed by (auto simp: occurs_def mult.commute elim!: dvdE)
    have j: "0 \<le> m - (after div 60000 + 1)" "m - (after div 60000 + 1) < k"
      using that m k(2) bounds(1) by (simp_all add: algebra_simps)
    have u: "?f + (m - (after div 60000 + 1)) * 60000 = u" using m by (simp add: algebra_simps)
    show False using none [OF j] match unfolding u by blast
  qed
qed

lemma next_after_Some:
  assumes "next_after env schedule after = Inr (Some t)"
  shows "after < t \<and> occurs env schedule t \<and> (\<forall>u. after < u \<longrightarrow> u < t \<longrightarrow> \<not> occurs env schedule u)"
proof (cases schedule)
  case (Once at)
  then show ?thesis using assms by (simp add: next_after_def)
next
  case (Interval every_ms anchor)
  then show ?thesis using assms by (auto elim!: next_after_interval simp: not_less [symmetric])
next
  case (Calendar expression time_zone)
  then have "next_calendar env expression time_zone after = Inr t"
    using assms by (simp add: next_after_def split: sum.splits)
  then show ?thesis using next_calendar_Inr Calendar by blast
qed

lemma next_after_None: "next_after env schedule after = Inr None \<Longrightarrow> \<exists>at. schedule = Once at"
  by (cases schedule) (auto simp: next_after_def split: sum.splits option.splits)

lemma due_loop_Inr:
  assumes "due_loop env schedule now candidate occ = Inr ts"
    and "sorted_wrt (<) occ" and "\<forall>t \<in> set occ. first \<le> t \<and> t \<le> now \<and> (t = first \<or> occurs env schedule t)"
    and "\<forall>v. candidate = Some v \<longrightarrow> first \<le> v \<and> (v = first \<or> occurs env schedule v) \<and> (\<forall>t \<in> set occ. t < v)"
    and "\<forall>u. first < u \<longrightarrow> occurs env schedule u \<longrightarrow> (\<forall>v. candidate = Some v \<longrightarrow> u < v) \<longrightarrow> u \<in> set occ"
    and "length occ < 65536"
  shows "sorted_wrt (<) ts \<and> (\<forall>t \<in> set ts. first \<le> t \<and> t \<le> now \<and> (t = first \<or> occurs env schedule t))
    \<and> length ts \<le> 65536
    \<and> (length ts < 65536 \<longrightarrow> (\<forall>u. first < u \<longrightarrow> u \<le> now \<longrightarrow> occurs env schedule u \<longrightarrow> u \<in> set ts))"
  using assms
proof (induction env schedule now candidate occ rule: due_loop.induct)
  case (1 env schedule now candidate occ)
  note loop = due_loop.simps [of env schedule now candidate occ]
  show ?case
  proof (cases "\<exists>v. candidate = Some v \<and> v \<le> now")
    case False
    then have eq: "ts = occ" using 1(2) by (auto simp: loop split: option.splits if_splits)
    have complete: "u \<in> set occ" if "first < u" "u \<le> now" "occurs env schedule u" for u
      using 1(6) that False by (cases candidate) auto
    show ?thesis unfolding eq using 1(3,4) less_imp_le [OF 1(7)] complete by blast
  next
    case True
    then obtain v where v: "candidate = Some v" "v \<le> now" by blast
    have sorted: "sorted_wrt (<) (occ @ [v])" using 1(3,5) v by (simp add: sorted_wrt_append)
    have mem: "\<forall>t \<in> set (occ @ [v]). first \<le> t \<and> t \<le> now \<and> (t = first \<or> occurs env schedule t)"
      using 1(4,5) v by auto
    show ?thesis
    proof (cases "length (occ @ [v]) \<ge> 65536")
      case True
      then have eq: "ts = occ @ [v]" using 1(2) v(2) unfolding loop unfolding v(1) by simp
      have "length (occ @ [v]) = 65536" using True 1(7) by simp
      then show ?thesis unfolding eq using sorted mem by (simp only: le_refl less_irrefl simp_thms)
    next
      case False
      obtain c where c: "next_after env schedule v = Inr c"
        and rest: "due_loop env schedule now c (occ @ [v]) = Inr ts"
        using 1(2) v(2) False unfolding loop unfolding v(1) by (auto split: sum.splits)
      have cand: "\<forall>w. c = Some w \<longrightarrow> first \<le> w \<and> (w = first \<or> occurs env schedule w) \<and> (\<forall>t \<in> set (occ @ [v]). t < w)"
        using next_after_Some [of env schedule v] c 1(5) v by fastforce
      have complete: "u \<in> set (occ @ [v])"
        if u: "first < u" "occurs env schedule u" "\<forall>w. c = Some w \<longrightarrow> u < w" for u
      proof (cases c)
        case None
        then show ?thesis using next_after_None [of env schedule v] c u(2) by (auto simp: occurs_def)
      next
        case (Some w)
        then have "\<not> v < u" using next_after_Some [of env schedule v w] c u by blast
        then show ?thesis using 1(6) u v by (cases "u = v") auto
      qed
      have nle: "\<not> now < v" using v(2) by simp
      show ?thesis
        using 1(1) [OF v(1) nle False c rest sorted mem cand _ not_le_imp_less [OF False]] complete by blast
    qed
  qed
qed

lemma due_loop_prefix:
  "due_loop env schedule now candidate occ = Inr ts \<Longrightarrow> \<exists>us. ts = occ @ us"
proof (induction env schedule now candidate occ rule: due_loop.induct)
  case (1 env schedule now candidate occ)
  note loop = due_loop.simps [of env schedule now candidate occ]
  show ?case
  proof (cases "\<exists>v c. candidate = Some v \<and> \<not> v > now \<and> \<not> length (occ @ [v]) \<ge> 65536
      \<and> next_after env schedule v = Inr c")
    case True
    then obtain v c where v: "candidate = Some v" "\<not> v > now" "\<not> length (occ @ [v]) \<ge> 65536"
      "next_after env schedule v = Inr c" by blast
    have "due_loop env schedule now c (occ @ [v]) = Inr ts" using 1(2) v loop by simp
    from 1(1) [OF v this] show ?thesis by auto
  next
    case False
    then show ?thesis using 1(2) loop by (auto split: option.splits sum.splits if_splits)
  qed
qed

lemma due_loop_first:
  assumes "due_loop env schedule now (Some v) [] = Inr ts" and "v \<le> now"
  shows "v \<in> set ts"
proof -
  obtain c where "due_loop env schedule now c [v] = Inr ts"
    using assms due_loop.simps [of env schedule now "Some v" "[]"] by (auto split: sum.splits)
  from due_loop_prefix [OF this] show ?thesis by auto
qed

lemma next_after_total:
  assumes "0 < uint e" and "0 \<le> a" and "a \<le> v" and "v + uint e \<le> i64_max"
  shows "\<exists>t. next_after env (Interval e a) v = Inr (Some t) \<and> v < t"
proof -
  let ?d = "v - a" and ?e = "uint e"
  let ?q = "?d div ?e"
  have "0 \<le> ?d" and one: "1 \<le> ?e" using assms by simp_all
  then have "0 \<le> ?q" using assms(1) by (simp add: pos_imp_zdiv_nonneg_iff)
  moreover have "?q * ?e \<le> ?d"
    using div_mult_mod_eq [of ?d ?e] pos_mod_sign [OF assms(1), of ?d] by linarith
  ultimately have q: "0 \<le> ?q" "?q \<le> ?d" "?q * ?e \<le> ?d" using mult_left_mono [OF one, of ?q] by simp_all
  have "0 \<le> (?q + 1) * ?e" using q(1) assms(1) by simp
  moreover have s: "(?q + 1) * ?e \<le> ?d + ?e" using q(3) by (simp add: algebra_simps)
  moreover have small: "i64_min \<le> 0" by (simp add: i64_min_def)
  ultimately have fits: "is_i64 ?e" "is_i64 ?d" "is_i64 ?q" "is_i64 (?q + 1)" "is_i64 ((?q + 1) * ?e)"
    "is_i64 (a + (?q + 1) * ?e)"
    unfolding is_i64_def using assms q one by linarith+
  have div: "i64_checked_div ?d ?e = Some ?q"
    using assms fits(3) by (simp add: i64_checked_div_def i64_checked_def)
  have eq: "next_after env (Interval e a) v = Inr (Some (a + (?q + 1) * ?e))"
    using assms(3) fits div by (simp add: next_after_def i64_try_from_def i64_checked_add_def i64_checked_sub_def
        i64_checked_mul_def i64_checked_def)
  then show ?thesis using next_after_Some [OF eq] by blast
qed

lemma due_loop_total:
  assumes "0 < uint e" and "0 \<le> a" and "now + uint e \<le> i64_max" and "\<forall>v. candidate = Some v \<longrightarrow> a \<le> v"
  shows "\<exists>ts. due_loop env (Interval e a) now candidate occ = Inr ts"
  using assms(4)
proof (induction "65536 - length occ" arbitrary: occ candidate rule: less_induct)
  case less
  show ?case
  proof (cases "\<exists>v. candidate = Some v \<and> v \<le> now \<and> length (occ @ [v]) < 65536")
    case True
    then obtain v where v: "candidate = Some v" "v \<le> now" "length (occ @ [v]) < 65536" by blast
    then have "v + uint e \<le> i64_max" "a \<le> v" using assms(3) less.prems by auto
    then obtain t where t: "next_after env (Interval e a) v = Inr (Some t)" "v < t"
      using next_after_total assms(1,2) by blast
    have "due_loop env (Interval e a) now candidate occ = due_loop env (Interval e a) now (Some t) (occ @ [v])"
      using v t(1) due_loop.simps [of env "Interval e a" now candidate occ] by simp
    then show ?thesis using less.hyps [of "occ @ [v]" "Some t"] v t(2) less.prems by auto
  next
    case False
    then have "candidate = None \<or> (\<exists>v. candidate = Some v \<and> (v > now \<or> length (occ @ [v]) \<ge> 65536))"
      by (cases candidate) auto
    then show ?thesis using due_loop.simps [of env "Interval e a" now candidate occ] by (elim disjE exE conjE) simp_all
  qed
qed

section \<open>Calendar fields\<close>

text \<open>What a field means, written as the grammar of its parts.\<close>

inductive cron_base :: "nat \<Rightarrow> nat \<Rightarrow> string \<Rightarrow> nat \<Rightarrow> nat \<Rightarrow> bool" for minimum maximum where
  base_all: "cron_base minimum maximum ''*'' minimum maximum"
| base_one: "parse_u32 text = Some v \<Longrightarrow> minimum \<le> v \<Longrightarrow> v \<le> maximum \<Longrightarrow> cron_base minimum maximum text v v"
| base_range: "parse_u32 a = Some x \<Longrightarrow> minimum \<le> x \<Longrightarrow> x \<le> maximum \<Longrightarrow>
    parse_u32 b = Some y \<Longrightarrow> minimum \<le> y \<Longrightarrow> y \<le> maximum \<Longrightarrow>
    cron_base minimum maximum (a @ CHR ''-'' # b) x y"

inductive cron_part :: "nat \<Rightarrow> nat \<Rightarrow> string \<Rightarrow> nat \<Rightarrow> bool" for minimum maximum where
  part_range: "cron_base minimum maximum base x y \<Longrightarrow> x \<le> v \<Longrightarrow> v \<le> y \<Longrightarrow> cron_part minimum maximum base v"
| part_step: "cron_base minimum maximum base x y \<Longrightarrow> parse_u32 n = Some step \<Longrightarrow> 0 < step \<Longrightarrow>
    x + k * step \<le> y \<Longrightarrow> cron_part minimum maximum (base @ CHR ''/'' # n) (x + k * step)"

lemma split_once_append: "c \<notin> set a \<Longrightarrow> split_once c (a @ c # b) = Some (a, b)"
  by (induction a) auto

lemma split_once_parts: "split_once c s = Some (a, b) \<Longrightarrow> s = a @ c # b \<and> c \<notin> set a"
  by (induction s arbitrary: a b) (auto split: if_splits option.splits prod.splits)

lemma split_once_Some: "split_once c s = Some (a, b) \<longleftrightarrow> s = a @ c # b \<and> c \<notin> set a"
  using split_once_append split_once_parts by metis

lemma split_once_None: "split_once c s = None \<longleftrightarrow> c \<notin> set s"
  by (induction s) (auto split: option.splits)

lemma parse_u32_chars: "parse_u32 s = Some n \<Longrightarrow> c \<in> set s \<Longrightarrow> c = CHR ''+'' \<or> is_digit c"
  by (cases s) (auto simp: parse_u32_def Let_def list_all_iff starts_with_def split: if_splits)

lemma parse_u32_free:
  assumes "parse_u32 s = Some n"
  shows "CHR ''-'' \<notin> set s" and "CHR ''/'' \<notin> set s" and "s \<noteq> ''*''"
  using parse_u32_chars [OF assms, of "CHR ''-''"] parse_u32_chars [OF assms, of "CHR ''/''"]
    parse_u32_chars [OF assms, of "CHR ''*''"]
  by (auto simp: is_digit_def)

lemma parse_cron_value_Inr:
  "parse_cron_value text minimum maximum = Inr v \<longleftrightarrow> parse_u32 text = Some v \<and> minimum \<le> v \<and> v \<le> maximum"
  by (auto simp: parse_cron_value_def split: option.splits)

lemma cron_range_Inr: "cron_range base minimum maximum = Inr (x, y) \<longleftrightarrow> cron_base minimum maximum base x y"
proof
  assume "cron_range base minimum maximum = Inr (x, y)"
  then show "cron_base minimum maximum base x y"
    by (auto simp: cron_range_def parse_cron_value_Inr split_once_Some split: if_splits option.splits sum.splits
        intro: cron_base.intros)
next
  assume "cron_base minimum maximum base x y"
  then show "cron_range base minimum maximum = Inr (x, y)"
  proof cases
    case base_all
    then show ?thesis by (simp add: cron_range_def)
  next
    case base_one
    then show ?thesis
      using parse_u32_free [OF base_one(2)] parse_cron_value_Inr [of base minimum maximum x]
      by (simp add: cron_range_def split_once_None [THEN iffD2])
  next
    case (base_range a b)
    have "split_once (CHR ''-'') base = Some (a, b)"
      using parse_u32_free(1) [OF base_range(2)] base_range(1) by (simp add: split_once_Some)
    moreover have "base \<noteq> ''*''" using base_range(1) by (cases a) auto
    ultimately show ?thesis
      using base_range(2-7) parse_cron_value_Inr [of a minimum maximum x] parse_cron_value_Inr [of b minimum maximum y]
      by (simp add: cron_range_def)
  qed
qed

lemma cron_base_no_slash: "cron_base minimum maximum base x y \<Longrightarrow> CHR ''/'' \<notin> set base"
  by (erule cron_base.cases) (auto dest: parse_u32_free)

lemma cron_part_iff:
  "cron_part minimum maximum part v \<longleftrightarrow>
     (\<exists>base step x y k. cron_step part = (base, step) \<and> step \<noteq> 0
        \<and> cron_range base minimum maximum = Inr (x, y) \<and> v = x + k * step \<and> v \<le> y)"
proof
  assume "cron_part minimum maximum part v"
  then show "\<exists>base step x y k. cron_step part = (base, step) \<and> step \<noteq> 0
        \<and> cron_range base minimum maximum = Inr (x, y) \<and> v = x + k * step \<and> v \<le> y"
  proof cases
    case (part_range x y)
    have "cron_step part = (part, 1)"
      using cron_base_no_slash [OF part_range(1)] by (simp add: cron_step_def split_once_None [THEN iffD2])
    moreover have "cron_range part minimum maximum = Inr (x, y)" using part_range by (simp add: cron_range_Inr)
    moreover have "v = x + (v - x) * 1" using part_range by simp
    ultimately show ?thesis using part_range(3) by (metis one_neq_zero)
  next
    case (part_step base x y n step k)
    have "split_once (CHR ''/'') part = Some (base, n)"
      using cron_base_no_slash [OF part_step(3)] part_step(1) by (simp add: split_once_Some)
    then have "cron_step part = (base, step)" using part_step(4) by (simp add: cron_step_def)
    moreover have "cron_range base minimum maximum = Inr (x, y)" using part_step(3) by (simp add: cron_range_Inr)
    ultimately show ?thesis using part_step(2,5,6) by (metis not_less_zero)
  qed
next
  assume "\<exists>base step x y k. cron_step part = (base, step) \<and> step \<noteq> 0
        \<and> cron_range base minimum maximum = Inr (x, y) \<and> v = x + k * step \<and> v \<le> y"
  then obtain base step x y k where step: "cron_step part = (base, step)" "step \<noteq> 0"
    and range: "cron_base minimum maximum base x y" and v: "v = x + k * step" "v \<le> y"
    by (auto simp: cron_range_Inr)
  show "cron_part minimum maximum part v"
  proof (cases "split_once (CHR ''/'') part")
    case None
    then have "base = part" "step = 1" using step by (auto simp: cron_step_def)
    then show ?thesis using range v by (auto intro: cron_part.part_range)
  next
    case (Some p)
    then obtain n where n: "part = base @ CHR ''/'' # n" "parse_u32 n = Some step"
      using step split_once_parts [of _ part] by (cases p) (auto simp: cron_step_def split: option.splits)
    then show ?thesis using range v step(2) by (auto intro: cron_part.part_step)
  qed
qed

definition sunday_zero :: "bool \<Rightarrow> nat \<Rightarrow> nat" where
  "sunday_zero sunday v = (if sunday \<and> v = 7 then 0 else v)"

lemma set_cron_values:
  assumes "0 < step" and "x \<le> y"
  shows "set (cron_values sunday x y step) = sunday_zero sunday ` {v. \<exists>k. v = x + k * step \<and> v \<le> y}"
proof -
  define n where "n = (y - x) div step"
  have le: "k \<le> n \<longleftrightarrow> x + k * step \<le> y" for k
    using assms by (simp add: n_def less_eq_div_iff_mult_less_eq le_diff_conv2 add.commute)
  have "{v. \<exists>k. v = x + k * step \<and> v \<le> y} = (\<lambda>k. x + k * step) ` {k. k \<le> n}"
    unfolding le by auto
  also have "{k. k \<le> n} = {0..<Suc ((y - x) div step)}" by (auto simp: n_def)
  finally have "{v. \<exists>k. v = x + k * step \<and> v \<le> y} = (\<lambda>k. x + k * step) ` {0..<Suc ((y - x) div step)}" .
  moreover have "set (cron_values sunday x y step)
      = sunday_zero sunday ` (\<lambda>k. x + k * step) ` {0..<Suc ((y - x) div step)}"
    unfolding cron_values_def sunday_zero_def Let_def set_map image_image set_upt ..
  ultimately show ?thesis by simp
qed

lemma cron_parts_exact:
  "case cron_parts parts minimum maximum sunday acc of
     Inl e \<Rightarrow> \<exists>part \<in> set parts. \<forall>v. \<not> cron_part minimum maximum part v
   | Inr vs \<Rightarrow> (\<forall>part \<in> set parts. \<exists>v. cron_part minimum maximum part v)
       \<and> vs = acc \<union> sunday_zero sunday ` {v. \<exists>part \<in> set parts. cron_part minimum maximum part v}"
proof (induction parts arbitrary: acc)
  case Nil
  then show ?case by simp
next
  case (Cons part parts)
  obtain base step where st: "cron_step part = (base, step)" by fastforce
  have iff: "cron_part minimum maximum part v \<longleftrightarrow> step \<noteq> 0
      \<and> (\<exists>x y k. cron_range base minimum maximum = Inr (x, y) \<and> v = x + k * step \<and> v \<le> y)" for v
    using st by (auto simp: cron_part_iff)
  show ?case
  proof (cases "step = 0")
    case True
    then show ?thesis using st iff by simp
  next
    case False
    show ?thesis
    proof (cases "cron_range base minimum maximum")
      case (Inl e)
      then show ?thesis using st iff False by simp
    next
      case (Inr p)
      obtain x y where p: "p = (x, y)" by fastforce
      have denotes: "cron_part minimum maximum part v \<longleftrightarrow> (\<exists>k. v = x + k * step \<and> v \<le> y)" for v
        using iff False Inr p by auto
      show ?thesis
      proof (cases "y < x")
        case True
        then show ?thesis using st False Inr p denotes by auto
      next
        case le: False
        let ?acc = "acc \<union> set (cron_values sunday x y step)"
        have vals: "set (cron_values sunday x y step) = sunday_zero sunday ` {v. cron_part minimum maximum part v}"
          using set_cron_values [of step x y sunday] False le by (simp add: denotes)
        have some: "cron_part minimum maximum part x" using le by (auto simp: denotes intro: exI [of _ 0])
        have step: "cron_parts (part # parts) minimum maximum sunday acc = cron_parts parts minimum maximum sunday ?acc"
          using st False Inr p le by simp
        show ?thesis
          unfolding step using Cons [of ?acc] some by (auto simp: vals split: sum.splits)
      qed
    qed
  qed
qed

section \<open>Correctness\<close>

text \<open>A zone in which wall clocks show UTC, days and months held constant, used in examples.\<close>

definition utc_env :: "unit calendar_env" where
  "utc_env = \<lparr>zone_from_str = (\<lambda>name. if name = ''UTC'' then Some () else None),
     instant_ok = (\<lambda>millis. \<bar>millis\<bar> \<le> 8210266876799999),
     local_in_zone = (\<lambda>_ millis. \<lparr>lt_minute = nat (millis div 60000 mod 60),
       lt_hour = nat (millis div 3600000 mod 24), lt_day = 1, lt_month = 1, lt_weekday = 4\<rparr>)\<rparr>"

text \<open>C25. The next occurrence is the next one: when an interval or calendar schedule has a next run after
  an instant, that run is an occurrence strictly after the instant with none in between.\<close>

theorem next_after_least:
  assumes "next_after env schedule after = Inr (Some t)"
  shows "after < t \<and> occurs env schedule t \<and> (\<forall>u. after < u \<longrightarrow> u < t \<longrightarrow> \<not> occurs env schedule u)"
  by (rule next_after_Some [OF assms])

lemma next_after_sample: "next_after utc_env (Interval 1000 500) 2600 = Inr (Some 3500)"
  by (simp add: next_after_def i64_try_from_def i64_checked_add_def i64_checked_sub_def i64_checked_mul_def
      i64_checked_div_def i64_checked_def is_i64_def i64_min_def i64_max_def)

theorem next_after_least_witness:
  "2600 < (3500::int) \<and> occurs utc_env (Interval 1000 500) 3500
   \<and> \<not> occurs utc_env (Interval 1000 500) 3499"
  using next_after_least [OF next_after_sample] by simp


lemmas checked_eval = i64_try_from_def i64_checked_add_def i64_checked_sub_def i64_checked_mul_def
  i64_checked_div_def i64_checked_def is_i64_def i64_min_def i64_max_def

lemma due_occurrences_sample: "due_occurrences utc_env (Interval 1000 500) 1500 3600 = Inr [1500, 2500, 3500]"
  by (simp add: due_occurrences_def due_loop.simps next_after_def checked_eval)




text \<open>C28. A calendar field means what its grammar says: the parser accepts a field exactly when each of its
  comma-separated parts denotes some value in range, and then yields precisely the denoted values,
  with Sunday's number 7 read as 0.\<close>

theorem cron_field_exact:
  "case cron_field_parse field minimum maximum sunday of
     Inl e \<Rightarrow> \<exists>part \<in> set (split_on (CHR '','') field). \<forall>v. \<not> cron_part minimum maximum part v
   | Inr vs \<Rightarrow> (\<forall>part \<in> set (split_on (CHR '','') field). \<exists>v. cron_part minimum maximum part v)
       \<and> vs = sunday_zero sunday ` {v. \<exists>part \<in> set (split_on (CHR '','') field). cron_part minimum maximum part v}"
proof -
  let ?parts = "split_on (CHR '','') field"
  have ne: "?parts \<noteq> []" by (cases field) (auto split: list.splits)
  show ?thesis
  proof (cases "cron_parts ?parts minimum maximum sunday {}")
    case (Inl e)
    then show ?thesis using cron_parts_exact [where parts = ?parts and minimum = minimum and maximum = maximum and sunday = sunday and acc = "{}"] by (simp add: cron_field_parse_def)
  next
    case (Inr vs)
    have exact: "\<forall>part \<in> set ?parts. \<exists>v. cron_part minimum maximum part v"
      "vs = sunday_zero sunday ` {v. \<exists>part \<in> set ?parts. cron_part minimum maximum part v}"
      using cron_parts_exact [where parts = ?parts and minimum = minimum and maximum = maximum and sunday = sunday and acc = "{}"] Inr by simp_all
    moreover have "hd ?parts \<in> set ?parts" using ne by simp
    ultimately have "vs \<noteq> {}" by blast
    then have "cron_field_parse field minimum maximum sunday = Inr vs" using Inr by (simp add: cron_field_parse_def)
    then show ?thesis using exact by (simp only: sum.case)
  qed
qed

lemma cron_words: "parse_u32 ''5'' = Some 5" "parse_u32 ''0'' = Some 0" "parse_u32 ''40'' = Some 40" "parse_u32 ''20'' = Some 20"
  by (simp_all add: parse_u32_def digits_value_def is_digit_def starts_with_def)

lemma cron_field_sample: "cron_field_parse ''5,0-40/20'' 0 59 False = Inr {5, 0, 20, 40}"
  by (simp add: cron_field_parse_def cron_step_def cron_range_def parse_cron_value_def cron_words cron_values_def numeral_2_eq_2
      atLeast0_lessThan_Suc insert_commute)

theorem cron_field_exact_witness:
  "{5, 0, 20, 40} = sunday_zero False ` {v. \<exists>part \<in> set (split_on (CHR '','') ''5,0-40/20''). cron_part 0 59 part v}"
  using cron_field_exact [where field = "''5,0-40/20''" and minimum = 0 and maximum = 59 and sunday = False] unfolding cron_field_sample by simp

end
