(* ===== verification/Scheduler.thy ===== *)
theory Scheduler
  imports Schedule_Time Waiting
begin

text \<open>
  \<open>crates/scheduler/src/lib.rs\<close>: durable jobs and their attempts. A tick retries attempts that are due,
  claims the due occurrences of jobs, each job together with its new attempts in one transaction,
  and enqueues one action per attempt in the session inbox. The sink of actions is a dictionary
  (\<open>ScheduledActionSink\<close>), implemented by the inbox. Generated identifiers are arguments; those of a
  claim are the function \<open>ids\<close> of the job and the position in the batch.
\<close>

section \<open>Data\<close>

datatype job_state = JobActive | JobPaused | JobCompleted | JobFailed | JobCancelled

record scheduled_job =
  sj_version :: schema_version
  sj_id :: job_id
  sj_profile_id :: profile_id
  sj_session_id :: session_id
  sj_schedule :: schedule_spec
  sj_action :: action_payload
  sj_limits :: action_limits
  sj_reply_route :: "reply_route option"
  sj_missed_run :: missed_run_policy
  sj_state :: job_state
  sj_next_run :: "timestamp option"
  sj_last_run :: "timestamp option"
  sj_attempt_count :: u32
  sj_failure_count :: u32
  sj_safe_error :: "string option"
  sj_created_at :: timestamp
  sj_updated_at :: timestamp

record new_scheduled_job =
  nj_profile_id :: profile_id
  nj_session_id :: session_id
  nj_schedule :: schedule_spec
  nj_action :: action_payload
  nj_limits :: action_limits
  nj_reply_route :: "reply_route option"
  nj_missed_run :: missed_run_policy

datatype job_attempt_state =
    AttemptClaimed | AttemptRetryScheduled | AttemptEnqueued | AttemptCompleted | AttemptFailed
  | AttemptCancelled

record job_attempt =
  ja_version :: schema_version
  ja_job_id :: job_id
  ja_attempt_id :: entity_id
  ja_ordinal :: u32
  ja_scheduled_for :: timestamp
  ja_claimed_by :: entity_id
  ja_claim_expires :: timestamp
  ja_state :: job_attempt_state
  ja_action_id :: action_id
  ja_retry_count :: u16
  ja_retry_at :: "timestamp option"
  ja_safe_error :: "string option"
  ja_updated_at :: timestamp

record schedule_projection =
  sp_job_id :: job_id
  sp_state :: job_state
  sp_schedule :: schedule_spec
  sp_next_run :: "timestamp option"
  sp_last_run :: "timestamp option"
  sp_attempts :: u32
  sp_failures :: u32
  sp_safe_error :: "string option"

record job_update =
  ju_schedule :: "schedule_spec option"
  ju_action :: "action_payload option"
  ju_limits :: "action_limits option"
  ju_reply_route :: "reply_route option option"
  ju_missed_run :: "missed_run_policy option"

record scheduler_config =
  claim_ttl_ms :: u64
  retry_backoff_ms :: u64
  max_enqueue_retries :: u16
  max_claims_per_tick :: nat
  on_time_grace_ms :: u64

definition scheduler_config_default :: scheduler_config where
  "scheduler_config_default =
     \<lparr>claim_ttl_ms = 30000, retry_backoff_ms = 5000, max_enqueue_retries = 3, max_claims_per_tick = 64,
      on_time_grace_ms = 1000\<rparr>"

datatype enqueue_status = EnqueueAccepted | EnqueueAlreadyPresent

record 's action_sink =
  enqueue_action :: "'s \<Rightarrow> session_action \<Rightarrow> timestamp \<Rightarrow> (string + enqueue_status) \<times> 's"

definition inbox_enqueue ::
  "('s, 'j, 'e) repository \<Rightarrow> (action_record, 'j) serde \<Rightarrow> ulid_codec \<Rightarrow> action_inbox \<Rightarrow> 's \<Rightarrow>
   session_action \<Rightarrow> timestamp \<Rightarrow> (string + enqueue_status) \<times> 's" where
  "inbox_enqueue R C U inbox s a now =
     (case action_get R C inbox s (sa_id a) of
        Inl e \<Rightarrow> (Inl (action_error_display U e), s)
      | Inr (Some _) \<Rightarrow> (Inr EnqueueAlreadyPresent, s)
      | Inr None \<Rightarrow>
          (case submit R C inbox s a now of
             (Inr _, s') \<Rightarrow> (Inr EnqueueAccepted, s')
           | (Inl e, s') \<Rightarrow>
               (case action_get R C inbox s' (sa_id a) of
                  Inl lookup \<Rightarrow> (Inl (action_error_display U lookup), s')
                | Inr (Some _) \<Rightarrow> (Inr EnqueueAlreadyPresent, s')
                | Inr None \<Rightarrow> (Inl (action_error_display U e), s'))))"

definition inbox_action_sink ::
  "('s, 'j, 'e) repository \<Rightarrow> (action_record, 'j) serde \<Rightarrow> ulid_codec \<Rightarrow> action_inbox \<Rightarrow> 's action_sink" where
  "inbox_action_sink R C U inbox = \<lparr>enqueue_action = inbox_enqueue R C U inbox\<rparr>"

record stored_job =
  st_job :: scheduled_job
  st_job_revision :: revision

record stored_attempt =
  st_attempt :: job_attempt
  st_attempt_revision :: revision

record scheduler =
  sched_config :: scheduler_config
  sched_poisoned :: bool

definition scheduler_new :: "scheduler_config \<Rightarrow> scheduler_error + scheduler" where
  "scheduler_new config =
     (if claim_ttl_ms config = 0 \<or> retry_backoff_ms config = 0 \<or> max_claims_per_tick config = 0
      then Inl (InvalidSchedule ''scheduler bounds must be non-zero'')
      else Inr \<lparr>sched_config = config, sched_poisoned = False\<rparr>)"

section \<open>Decisions\<close>

definition validate_scheduled_action :: "action_payload \<Rightarrow> scheduler_error + unit" where
  "validate_scheduled_action action =
     (if (case action of
            ScheduledPayload instruction \<Rightarrow> \<not> is_blank instruction
          | SystemMaintenance operation \<Rightarrow> \<not> is_blank operation
          | _ \<Rightarrow> True)
      then Inr () else Inl (InvalidSchedule ''scheduled action text must be non-empty''))"

record due_decision_data =
  dd_run :: "timestamp list"
  dd_next_run :: "timestamp option"
  dd_last_run :: "timestamp option"

definition first_of :: "'a list \<Rightarrow> 'a option" where
  "first_of xs = (case xs of [] \<Rightarrow> None | x # _ \<Rightarrow> Some x)"

definition last_of :: "'a list \<Rightarrow> 'a option" where
  "last_of xs = (if xs = [] then None else Some (last xs))"

definition option_list :: "'a option \<Rightarrow> 'a list" where
  "option_list x = (case x of None \<Rightarrow> [] | Some y \<Rightarrow> [y])"

definition missed_runs :: "missed_run_policy \<Rightarrow> timestamp list \<Rightarrow> timestamp list" where
  "missed_runs policy occurrences =
     (case policy of
        SkipMissed \<Rightarrow> []
      | RunOnce \<Rightarrow> option_list (last_of occurrences)
      | ReplayBounded max_runs \<Rightarrow> take (unat max_runs) occurrences)"

definition due_decision ::
  "'z calendar_env \<Rightarrow> scheduled_job \<Rightarrow> timestamp \<Rightarrow> u64 \<Rightarrow> scheduler_error + due_decision_data" where
  "due_decision env job now on_time_grace =
     (case sj_next_run job of None \<Rightarrow> Inl JobInvalidTransition | Some first \<Rightarrow>
      (case due_occurrences env (sj_schedule job) first now of Inl e \<Rightarrow> Inl e | Inr occurrences \<Rightarrow>
       (case i64_try_from on_time_grace of None \<Rightarrow> Inl TimeOverflow | Some grace \<Rightarrow>
        let on_time = (case i64_checked_sub now first of None \<Rightarrow> False | Some delay \<Rightarrow> delay \<le> grace);
            run = (if on_time then option_list (first_of occurrences)
                   else missed_runs (sj_missed_run job) occurrences)
        in (case next_after env (sj_schedule job) now of
              Inl e \<Rightarrow> Inl e
            | Inr next \<Rightarrow>
                Inr \<lparr>dd_run = run, dd_next_run = next, dd_last_run = last_of occurrences\<rparr>))))"

definition attempt_terminal :: "job_attempt_state \<Rightarrow> bool" where
  "attempt_terminal st \<longleftrightarrow> st \<in> {AttemptCompleted, AttemptFailed, AttemptCancelled, AttemptEnqueued}"

section \<open>Persistence\<close>

definition scheduler_repository_error :: "('s, 'j, 'e) repository \<Rightarrow> 'e \<Rightarrow> scheduler_error" where
  "scheduler_repository_error R e = SchedulerRepository (take_chars 512 (repo_display R e))"

definition sched_next_revision :: "revision \<Rightarrow> scheduler_error + revision" where
  "sched_next_revision n = (case checked_next n of None \<Rightarrow> Inl TimeOverflow | Some m \<Rightarrow> Inr m)"

definition job_record ::
  "(scheduled_job, 'j) serde \<Rightarrow> scheduled_job \<Rightarrow> revision \<Rightarrow> scheduler_error + 'j versioned_record" where
  "job_record C job n =
     (case to_value C job of
        Inl e \<Rightarrow> Inl (SchedulerCorrupt e)
      | Inr payload \<Rightarrow>
          Inr \<lparr>vr_version = CURRENT_SCHEMA_VERSION, vr_id = sj_id job, vr_revision = n,
               vr_updated_at = sj_updated_at job, vr_payload = payload\<rparr>)"

definition attempt_record ::
  "(job_attempt, 'j) serde \<Rightarrow> job_attempt \<Rightarrow> revision \<Rightarrow> scheduler_error + 'j versioned_record" where
  "attempt_record C attempt n =
     (case to_value C attempt of
        Inl e \<Rightarrow> Inl (SchedulerCorrupt e)
      | Inr payload \<Rightarrow>
          Inr \<lparr>vr_version = CURRENT_SCHEMA_VERSION, vr_id = ja_attempt_id attempt, vr_revision = n,
               vr_updated_at = ja_updated_at attempt, vr_payload = payload\<rparr>)"

definition decode_job :: "(scheduled_job, 'j) serde \<Rightarrow> 'j versioned_record \<Rightarrow> scheduler_error + stored_job" where
  "decode_job C vr =
     (case from_value C (vr_payload vr) of
        Inl e \<Rightarrow> Inl (SchedulerCorrupt e)
      | Inr job \<Rightarrow>
          if sj_id job \<noteq> vr_id vr \<or> major (sj_version job) \<noteq> major CURRENT_SCHEMA_VERSION
          then Inl (SchedulerCorrupt ''job identity or schema mismatch'')
          else Inr \<lparr>st_job = job, st_job_revision = vr_revision vr\<rparr>)"

definition decode_attempt ::
  "(job_attempt, 'j) serde \<Rightarrow> 'j versioned_record \<Rightarrow> scheduler_error + stored_attempt" where
  "decode_attempt C vr =
     (case from_value C (vr_payload vr) of
        Inl e \<Rightarrow> Inl (SchedulerCorrupt e)
      | Inr attempt \<Rightarrow>
          if ja_attempt_id attempt \<noteq> vr_id vr \<or> major (ja_version attempt) \<noteq> major CURRENT_SCHEMA_VERSION
          then Inl (SchedulerCorrupt ''attempt identity or schema mismatch'')
          else Inr \<lparr>st_attempt = attempt, st_attempt_revision = vr_revision vr\<rparr>)"

text \<open>The two collections of the scheduler in the store it is given.\<close>

abbreviation job_repo :: "('s, 'j, 'e) state_repository \<Rightarrow> ('s, 'j, 'e) repository" where
  "job_repo S \<equiv> collection_repository S ScheduledJobs"

abbreviation attempt_repo :: "('s, 'j, 'e) state_repository \<Rightarrow> ('s, 'j, 'e) repository" where
  "attempt_repo S \<equiv> collection_repository S JobAttempts"

definition required_job ::
  "('s, 'j, 'e) state_repository \<Rightarrow> (scheduled_job, 'j) serde \<Rightarrow> 's \<Rightarrow> job_id \<Rightarrow> scheduler_error + stored_job" where
  "required_job S CJ s i =
     (case repo_get (job_repo S) s i of
        Inl e \<Rightarrow> Inl (scheduler_repository_error (job_repo S) e)
      | Inr None \<Rightarrow> Inl JobNotFound
      | Inr (Some vr) \<Rightarrow> decode_job CJ vr)"

definition required_attempt ::
  "('s, 'j, 'e) state_repository \<Rightarrow> (job_attempt, 'j) serde \<Rightarrow> 's \<Rightarrow> entity_id \<Rightarrow>
   scheduler_error + stored_attempt" where
  "required_attempt S CT s i =
     (case repo_get (attempt_repo S) s i of
        Inl e \<Rightarrow> Inl (scheduler_repository_error (attempt_repo S) e)
      | Inr None \<Rightarrow> Inl JobNotFound
      | Inr (Some vr) \<Rightarrow> decode_attempt CT vr)"

definition load_jobs ::
  "('s, 'j, 'e) state_repository \<Rightarrow> (scheduled_job, 'j) serde \<Rightarrow> 's \<Rightarrow> scheduler_error + stored_job list" where
  "load_jobs S CJ s =
     (case repo_list (job_repo S) s of
        Inl e \<Rightarrow> Inl (scheduler_repository_error (job_repo S) e)
      | Inr vrs \<Rightarrow> collect_results (map (decode_job CJ) vrs))"

definition load_attempts ::
  "('s, 'j, 'e) state_repository \<Rightarrow> (job_attempt, 'j) serde \<Rightarrow> 's \<Rightarrow> scheduler_error + stored_attempt list" where
  "load_attempts S CT s =
     (case repo_list (attempt_repo S) s of
        Inl e \<Rightarrow> Inl (scheduler_repository_error (attempt_repo S) e)
      | Inr vrs \<Rightarrow> collect_results (map (decode_attempt CT) vrs))"

definition put_job ::
  "('s, 'j, 'e) state_repository \<Rightarrow> (scheduled_job, 'j) serde \<Rightarrow> 's \<Rightarrow> stored_job \<Rightarrow>
   (scheduler_error + stored_job) \<times> 's" where
  "put_job S CJ s stored =
     (case sched_next_revision (st_job_revision stored) of Inl e \<Rightarrow> (Inl e, s) | Inr n \<Rightarrow>
      (case job_record CJ (st_job stored) n of Inl e \<Rightarrow> (Inl e, s) | Inr vr \<Rightarrow>
       (case repo_put (job_repo S) s vr (Exact (st_job_revision stored)) of
          (Inl e, s') \<Rightarrow> (Inl (scheduler_repository_error (job_repo S) e), s')
        | (Inr _, s') \<Rightarrow> (Inr (stored\<lparr>st_job_revision := n\<rparr>), s'))))"

definition put_attempt ::
  "('s, 'j, 'e) state_repository \<Rightarrow> (job_attempt, 'j) serde \<Rightarrow> 's \<Rightarrow> stored_attempt \<Rightarrow>
   (scheduler_error + stored_attempt) \<times> 's" where
  "put_attempt S CT s stored =
     (case sched_next_revision (st_attempt_revision stored) of Inl e \<Rightarrow> (Inl e, s) | Inr n \<Rightarrow>
      (case attempt_record CT (st_attempt stored) n of Inl e \<Rightarrow> (Inl e, s) | Inr vr \<Rightarrow>
       (case repo_put (attempt_repo S) s vr (Exact (st_attempt_revision stored)) of
          (Inl e, s') \<Rightarrow> (Inl (scheduler_repository_error (attempt_repo S) e), s')
        | (Inr _, s') \<Rightarrow> (Inr (stored\<lparr>st_attempt_revision := n\<rparr>), s'))))"

section \<open>Operations\<close>

definition new_job :: "new_scheduled_job \<Rightarrow> timestamp \<Rightarrow> job_id \<Rightarrow> timestamp option \<Rightarrow> scheduled_job" where
  "new_job request now new_id next_run =
     \<lparr>sj_version = CURRENT_SCHEMA_VERSION, sj_id = new_id, sj_profile_id = nj_profile_id request,
      sj_session_id = nj_session_id request, sj_schedule = nj_schedule request,
      sj_action = nj_action request, sj_limits = nj_limits request,
      sj_reply_route = nj_reply_route request, sj_missed_run = nj_missed_run request,
      sj_state = JobActive, sj_next_run = next_run, sj_last_run = None, sj_attempt_count = 0,
      sj_failure_count = 0, sj_safe_error = None, sj_created_at = now, sj_updated_at = now\<rparr>"

definition sched_create ::
  "'z calendar_env \<Rightarrow> ('s, 'j, 'e) state_repository \<Rightarrow> (scheduled_job, 'j) serde \<Rightarrow> 's \<Rightarrow>
   new_scheduled_job \<Rightarrow> timestamp \<Rightarrow> job_id \<Rightarrow> (scheduler_error + scheduled_job) \<times> 's" where
  "sched_create env S CJ s request now new_id =
     (case validate_schedule env (nj_schedule request) of Inl e \<Rightarrow> (Inl e, s) | Inr _ \<Rightarrow>
      (case validate_scheduled_action (nj_action request) of Inl e \<Rightarrow> (Inl e, s) | Inr _ \<Rightarrow>
       (case initial_run env (nj_schedule request) now of Inl e \<Rightarrow> (Inl e, s) | Inr next_run \<Rightarrow>
        (case job_record CJ (new_job request now new_id next_run) revision_zero of
           Inl e \<Rightarrow> (Inl e, s)
         | Inr vr \<Rightarrow>
             (case repo_put (job_repo S) s vr Missing of
                (Inl e, s') \<Rightarrow> (Inl (scheduler_repository_error (job_repo S) e), s')
              | (Inr _, s') \<Rightarrow> (Inr (new_job request now new_id next_run), s'))))))"

definition scheduled_action :: "scheduled_job \<Rightarrow> job_attempt \<Rightarrow> timestamp \<Rightarrow> session_action" where
  "scheduled_action job attempt now =
     \<lparr>sa_id = ja_action_id attempt, sa_session_id = sj_session_id job,
      sa_source = ScheduleSource (sj_id job) (ja_ordinal attempt), sa_delivery = Immediate,
      sa_priority = ScheduledPriority, sa_created_at = now, sa_not_before = None,
      sa_deadline = None, sa_limits = sj_limits job, sa_reply_route = sj_reply_route job,
      sa_payload = sj_action job\<rparr>"

text \<open>What an enqueue result makes of an attempt; only the retry time can overflow.\<close>

definition attempt_enqueued :: "timestamp \<Rightarrow> job_attempt \<Rightarrow> job_attempt" where
  "attempt_enqueued now attempt =
     attempt\<lparr>ja_state := AttemptEnqueued, ja_retry_at := None, ja_safe_error := None, ja_updated_at := now\<rparr>"

definition attempt_retry :: "timestamp \<Rightarrow> timestamp \<Rightarrow> string \<Rightarrow> job_attempt \<Rightarrow> job_attempt" where
  "attempt_retry retry_at now e attempt =
     attempt\<lparr>ja_retry_count := saturating_succ_u16 (ja_retry_count attempt),
             ja_state := AttemptRetryScheduled, ja_retry_at := Some retry_at,
             ja_safe_error := Some (take_chars 512 e), ja_updated_at := now\<rparr>"

definition attempt_failed :: "timestamp \<Rightarrow> string \<Rightarrow> job_attempt \<Rightarrow> job_attempt" where
  "attempt_failed now e attempt =
     attempt\<lparr>ja_state := AttemptFailed, ja_retry_at := None, ja_safe_error := Some (take_chars 512 e),
             ja_updated_at := now\<rparr>"

definition attempt_outcome ::
  "scheduler_config \<Rightarrow> timestamp \<Rightarrow> job_attempt \<Rightarrow> string + enqueue_status \<Rightarrow> scheduler_error + job_attempt" where
  "attempt_outcome config now attempt result =
     (case result of
        Inr _ \<Rightarrow> Inr (attempt_enqueued now attempt)
      | Inl e \<Rightarrow>
          if ja_retry_count attempt < max_enqueue_retries config
          then (case add_millis now (retry_backoff_ms config) of
              Inl overflow \<Rightarrow> Inl overflow
            | Inr t \<Rightarrow> Inr (attempt_retry t now e attempt))
          else Inr (attempt_failed now e attempt))"

definition enqueue_attempt ::
  "('s, 'j, 'e) state_repository \<Rightarrow> (scheduled_job, 'j) serde \<Rightarrow> (job_attempt, 'j) serde \<Rightarrow> 's action_sink \<Rightarrow>
   scheduler_config \<Rightarrow> 's \<Rightarrow> stored_attempt \<Rightarrow> timestamp \<Rightarrow> (scheduler_error + job_attempt) \<times> 's" where
  "enqueue_attempt S CJ CT sink config s stored now =
     (case required_job S CJ s (ja_job_id (st_attempt stored)) of Inl e \<Rightarrow> (Inl e, s) | Inr job \<Rightarrow>
      (case enqueue_action sink s (scheduled_action (st_job job) (st_attempt stored) now) now of
         (result, s1) \<Rightarrow>
           (case attempt_outcome config now (st_attempt stored) result of Inl e \<Rightarrow> (Inl e, s1) | Inr attempt \<Rightarrow>
            (case put_attempt S CT s1 (stored\<lparr>st_attempt := attempt\<rparr>) of
               (Inl e, s2) \<Rightarrow> (Inl e, s2)
             | (Inr stored', s2) \<Rightarrow> (Inr (st_attempt stored'), s2)))))"

fun enqueue_attempts ::
  "('s, 'j, 'e) state_repository \<Rightarrow> (scheduled_job, 'j) serde \<Rightarrow> (job_attempt, 'j) serde \<Rightarrow> 's action_sink \<Rightarrow>
   scheduler_config \<Rightarrow> 's \<Rightarrow> stored_attempt list \<Rightarrow> timestamp \<Rightarrow> (scheduler_error + job_attempt list) \<times> 's" where
  "enqueue_attempts S CJ CT sink config s [] now = (Inr [], s)"
| "enqueue_attempts S CJ CT sink config s (x # xs) now =
     (case enqueue_attempt S CJ CT sink config s x now of
        (Inl e, s1) \<Rightarrow> (Inl e, s1)
      | (Inr a, s1) \<Rightarrow>
          (case enqueue_attempts S CJ CT sink config s1 xs now of
             (Inl e, s2) \<Rightarrow> (Inl e, s2)
           | (Inr as, s2) \<Rightarrow> (Inr (a # as), s2)))"

definition new_attempt ::
  "scheduled_job \<Rightarrow> u32 \<Rightarrow> entity_id \<times> action_id \<Rightarrow> entity_id \<Rightarrow> timestamp \<Rightarrow> timestamp \<Rightarrow> timestamp \<Rightarrow> job_attempt" where
  "new_attempt job ordinal new_ids claimant scheduled_for claim_expires now =
     \<lparr>ja_version = CURRENT_SCHEMA_VERSION, ja_job_id = sj_id job, ja_attempt_id = fst new_ids,
      ja_ordinal = ordinal, ja_scheduled_for = scheduled_for, ja_claimed_by = claimant,
      ja_claim_expires = claim_expires, ja_state = AttemptClaimed, ja_action_id = snd new_ids,
      ja_retry_count = 0, ja_retry_at = None, ja_safe_error = None, ja_updated_at = now\<rparr>"

text \<open>The loop over the occurrences to run: the attempts, their writes, and the final attempt count.\<close>

fun claim_attempts ::
  "(job_attempt, 'j) serde \<Rightarrow> scheduler_config \<Rightarrow> scheduled_job \<Rightarrow> entity_id \<Rightarrow> timestamp \<Rightarrow>
   (nat \<Rightarrow> entity_id \<times> action_id) \<Rightarrow> nat \<Rightarrow> u32 \<Rightarrow> timestamp list \<Rightarrow>
   scheduler_error + (u32 \<times> stored_attempt list \<times> 'j record_mutation list)" where
  "claim_attempts CT config job claimant now ids k made [] = Inr (made, [], [])"
| "claim_attempts CT config job claimant now ids k made (t # ts) =
     (case checked_succ_u32 made of None \<Rightarrow> Inl TimeOverflow | Some made' \<Rightarrow>
      (case add_millis now (claim_ttl_ms config) of Inl e \<Rightarrow> Inl e | Inr expires \<Rightarrow>
       let attempt = new_attempt job made' (ids k) claimant t expires now
       in (case attempt_record CT attempt revision_zero of Inl e \<Rightarrow> Inl e | Inr vr \<Rightarrow>
           (case claim_attempts CT config job claimant now ids (Suc k) made' ts of
              Inl e \<Rightarrow> Inl e
            | Inr (n, xs, ms) \<Rightarrow>
                Inr (n, \<lparr>st_attempt = attempt, st_attempt_revision = revision_zero\<rparr> # xs,
                     Put JobAttempts vr Missing # ms)))))"

definition claimed_job :: "scheduled_job \<Rightarrow> u32 \<Rightarrow> due_decision_data \<Rightarrow> timestamp \<Rightarrow> scheduled_job" where
  "claimed_job job made decision now =
     job\<lparr>sj_attempt_count := made, sj_next_run := dd_next_run decision,
         sj_last_run := (case dd_last_run decision of None \<Rightarrow> sj_last_run job | Some t \<Rightarrow> Some t),
         sj_updated_at := now,
         sj_state := (if dd_next_run decision = None then JobCompleted else sj_state job)\<rparr>"

definition claim_job ::
  "'z calendar_env \<Rightarrow> ('s, 'j, 'e) state_repository \<Rightarrow> (scheduled_job, 'j) serde \<Rightarrow> (job_attempt, 'j) serde \<Rightarrow>
   scheduler_config \<Rightarrow> 's \<Rightarrow> stored_job \<Rightarrow> entity_id \<Rightarrow> timestamp \<Rightarrow> (nat \<Rightarrow> entity_id \<times> action_id) \<Rightarrow>
   (scheduler_error + stored_attempt list) \<times> 's" where
  "claim_job env S CJ CT config s stored claimant now ids =
     (case due_decision env (st_job stored) now (on_time_grace_ms config) of Inl e \<Rightarrow> (Inl e, s) | Inr decision \<Rightarrow>
      (case claim_attempts CT config (st_job stored) claimant now ids 0 (sj_attempt_count (st_job stored))
              (dd_run decision) of Inl e \<Rightarrow> (Inl e, s) | Inr (made, attempts, mutations) \<Rightarrow>
       (case sched_next_revision (st_job_revision stored) of Inl e \<Rightarrow> (Inl e, s) | Inr n \<Rightarrow>
        (case job_record CJ (claimed_job (st_job stored) made decision now) n of Inl e \<Rightarrow> (Inl e, s) | Inr vr \<Rightarrow>
         (case transact S s (Put ScheduledJobs vr (Exact (st_job_revision stored)) # mutations) of
            (Inl e, s') \<Rightarrow> (Inl (scheduler_repository_error (job_repo S) e), s')
          | (Inr _, s') \<Rightarrow> (Inr attempts, s'))))))"

definition attempt_due :: "timestamp \<Rightarrow> job_attempt \<Rightarrow> bool" where
  "attempt_due now attempt \<longleftrightarrow>
     ja_state attempt = AttemptClaimed \<and> ja_claim_expires attempt \<le> now
     \<or> ja_state attempt = AttemptRetryScheduled
       \<and> (case ja_retry_at attempt of None \<Rightarrow> False | Some retry \<Rightarrow> retry \<le> now)"

definition recover_claim :: "timestamp \<Rightarrow> job_attempt \<Rightarrow> job_attempt" where
  "recover_claim now attempt =
     attempt\<lparr>ja_state := AttemptRetryScheduled, ja_retry_at := Some now,
             ja_safe_error := Some ''expired scheduler claim recovered'', ja_updated_at := now\<rparr>"

fun retry_attempts ::
  "('s, 'j, 'e) state_repository \<Rightarrow> (scheduled_job, 'j) serde \<Rightarrow> (job_attempt, 'j) serde \<Rightarrow> 's action_sink \<Rightarrow>
   scheduler_config \<Rightarrow> 's \<Rightarrow> timestamp \<Rightarrow> stored_attempt list \<Rightarrow> (scheduler_error + job_attempt list) \<times> 's" where
  "retry_attempts S CJ CT sink config s now [] = (Inr [], s)"
| "retry_attempts S CJ CT sink config s now (x # xs) =
     (case (if ja_state (st_attempt x) = AttemptClaimed
            then put_attempt S CT s (x\<lparr>st_attempt := recover_claim now (st_attempt x)\<rparr>)
            else (Inr x, s)) of
        (Inl e, s1) \<Rightarrow> (Inl e, s1)
      | (Inr x', s1) \<Rightarrow>
          (case enqueue_attempt S CJ CT sink config s1 x' now of
             (Inl e, s2) \<Rightarrow> (Inl e, s2)
           | (Inr a, s2) \<Rightarrow>
               (case retry_attempts S CJ CT sink config s2 now xs of
                  (Inl e, s3) \<Rightarrow> (Inl e, s3)
                | (Inr as, s3) \<Rightarrow> (Inr (a # as), s3))))"

definition session_selected :: "session_id set option \<Rightarrow> session_id \<Rightarrow> bool" where
  "session_selected sessions sid \<longleftrightarrow> (case sessions of None \<Rightarrow> True | Some ids \<Rightarrow> sid \<in> ids)"

definition retry_due ::
  "('s, 'j, 'e) state_repository \<Rightarrow> (scheduled_job, 'j) serde \<Rightarrow> (job_attempt, 'j) serde \<Rightarrow> 's action_sink \<Rightarrow>
   scheduler_config \<Rightarrow> 's \<Rightarrow> timestamp \<Rightarrow> session_id set option \<Rightarrow> (scheduler_error + job_attempt list) \<times> 's" where
  "retry_due S CJ CT sink config s now sessions =
     (case load_attempts S CT s of Inl e \<Rightarrow> (Inl e, s) | Inr attempts \<Rightarrow>
      (case (if sessions = None then Inr [] else load_jobs S CJ s) of Inl e \<Rightarrow> (Inl e, s) | Inr jobs \<Rightarrow>
       let job_sessions = map_of (rev (map (\<lambda>x. (sj_id (st_job x), sj_session_id (st_job x))) jobs))
       in retry_attempts S CJ CT sink config s now
            (filter (\<lambda>x. attempt_due now (st_attempt x)
               \<and> (case sessions of
                    None \<Rightarrow> True
                  | Some ids \<Rightarrow>
                      (case job_sessions (ja_job_id (st_attempt x)) of None \<Rightarrow> False | Some sid \<Rightarrow> sid \<in> ids)))
              attempts)))"

definition job_due :: "timestamp \<Rightarrow> session_id set option \<Rightarrow> scheduled_job \<Rightarrow> bool" where
  "job_due now sessions job \<longleftrightarrow>
     sj_state job = JobActive
     \<and> (case sj_next_run job of None \<Rightarrow> False | Some next \<Rightarrow> next \<le> now)
     \<and> session_selected sessions (sj_session_id job)"

fun tick_jobs ::
  "'z calendar_env \<Rightarrow> ('s, 'j, 'e) state_repository \<Rightarrow> (scheduled_job, 'j) serde \<Rightarrow> (job_attempt, 'j) serde \<Rightarrow>
   's action_sink \<Rightarrow> scheduler_config \<Rightarrow> 's \<Rightarrow> entity_id \<Rightarrow> timestamp \<Rightarrow>
   (job_id \<Rightarrow> nat \<Rightarrow> entity_id \<times> action_id) \<Rightarrow> job_attempt list \<Rightarrow> stored_job list \<Rightarrow>
   (scheduler_error + job_attempt list) \<times> 's" where
  "tick_jobs env S CJ CT sink config s claimant now ids processed [] = (Inr processed, s)"
| "tick_jobs env S CJ CT sink config s claimant now ids processed (x # xs) =
     (case claim_job env S CJ CT config s x claimant now (ids (sj_id (st_job x))) of
        (Inl (SchedulerRepository _), s1) \<Rightarrow>
          tick_jobs env S CJ CT sink config s1 claimant now ids processed xs
      | (Inl e, s1) \<Rightarrow> (Inl e, s1)
      | (Inr attempts, s1) \<Rightarrow>
          (case enqueue_attempts S CJ CT sink config s1 attempts now of
             (Inl e, s2) \<Rightarrow> (Inl e, s2)
           | (Inr as, s2) \<Rightarrow>
               tick_jobs env S CJ CT sink config s2 claimant now ids (processed @ as) xs))"

definition tick_filtered ::
  "'z calendar_env \<Rightarrow> ('s, 'j, 'e) state_repository \<Rightarrow> (scheduled_job, 'j) serde \<Rightarrow> (job_attempt, 'j) serde \<Rightarrow>
   's action_sink \<Rightarrow> scheduler \<Rightarrow> 's \<Rightarrow> entity_id \<Rightarrow> timestamp \<Rightarrow> session_id set option \<Rightarrow>
   (job_id \<Rightarrow> nat \<Rightarrow> entity_id \<times> action_id) \<Rightarrow> (scheduler_error + job_attempt list) \<times> 's" where
  "tick_filtered env S CJ CT sink sched s claimant now sessions ids =
     (if sched_poisoned sched then (Inl SchedulerLockPoisoned, s)
      else (case retry_due S CJ CT sink (sched_config sched) s now sessions of
          (Inl e, s1) \<Rightarrow> (Inl e, s1)
        | (Inr processed, s1) \<Rightarrow>
            (case load_jobs S CJ s1 of Inl e \<Rightarrow> (Inl e, s1) | Inr jobs \<Rightarrow>
             tick_jobs env S CJ CT sink (sched_config sched) s1 claimant now ids processed
               (take (max_claims_per_tick (sched_config sched) - length processed)
                 (filter (\<lambda>x. job_due now sessions (st_job x)) jobs)))))"

definition sched_tick where
  "sched_tick env S CJ CT sink sched s claimant now ids =
     tick_filtered env S CJ CT sink sched s claimant now None ids"

definition tick_sessions where
  "tick_sessions env S CJ CT sink sched s claimant now session_ids ids =
     tick_filtered env S CJ CT sink sched s claimant now (Some session_ids) ids"

definition change_state ::
  "('s, 'j, 'e) state_repository \<Rightarrow> (scheduled_job, 'j) serde \<Rightarrow> scheduler \<Rightarrow> 's \<Rightarrow> job_id \<Rightarrow> job_state \<Rightarrow>
   timestamp \<Rightarrow> (scheduler_error + scheduled_job) \<times> 's" where
  "change_state S CJ sched s i next now =
     (if sched_poisoned sched then (Inl SchedulerLockPoisoned, s)
      else (case required_job S CJ s i of Inl e \<Rightarrow> (Inl e, s) | Inr stored \<Rightarrow>
       if \<not> ((sj_state (st_job stored), next) \<in> {(JobActive, JobPaused), (JobPaused, JobActive)})
       then (Inl JobInvalidTransition, s)
       else (case put_job S CJ s (stored\<lparr>st_job := (st_job stored)\<lparr>sj_state := next, sj_updated_at := now\<rparr>\<rparr>) of
           (Inl e, s') \<Rightarrow> (Inl e, s')
         | (Inr stored', s') \<Rightarrow> (Inr (st_job stored'), s'))))"

definition sched_pause where
  "sched_pause S CJ sched s i now = change_state S CJ sched s i JobPaused now"

definition sched_resume where
  "sched_resume S CJ sched s i now = change_state S CJ sched s i JobActive now"

text \<open>The field updates of \<open>update\<close>, in its order, each validated before it is applied.\<close>

definition updated_job ::
  "'z calendar_env \<Rightarrow> job_update \<Rightarrow> timestamp \<Rightarrow> scheduled_job \<Rightarrow> scheduler_error + scheduled_job" where
  "updated_job env update now job =
     (case (case ju_schedule update of
              None \<Rightarrow> Inr job
            | Some schedule \<Rightarrow>
                (case validate_schedule env schedule of Inl e \<Rightarrow> Inl e | Inr _ \<Rightarrow>
                 (case initial_run env schedule now of Inl e \<Rightarrow> Inl e | Inr next_run \<Rightarrow>
                  Inr (job\<lparr>sj_next_run := next_run, sj_schedule := schedule\<rparr>)))) of
        Inl e \<Rightarrow> Inl e
      | Inr job1 \<Rightarrow>
          (case (case ju_action update of
                   None \<Rightarrow> Inr job1
                 | Some action \<Rightarrow>
                     (case validate_scheduled_action action of Inl e \<Rightarrow> Inl e | Inr _ \<Rightarrow>
                      Inr (job1\<lparr>sj_action := action\<rparr>))) of
             Inl e \<Rightarrow> Inl e
           | Inr job2 \<Rightarrow>
               Inr (job2\<lparr>sj_limits := (case ju_limits update of None \<Rightarrow> sj_limits job2 | Some l \<Rightarrow> l),
                         sj_reply_route := (case ju_reply_route update of None \<Rightarrow> sj_reply_route job2 | Some r \<Rightarrow> r),
                         sj_missed_run := (case ju_missed_run update of None \<Rightarrow> sj_missed_run job2 | Some m \<Rightarrow> m),
                         sj_updated_at := now\<rparr>)))"

definition sched_update ::
  "'z calendar_env \<Rightarrow> ('s, 'j, 'e) state_repository \<Rightarrow> (scheduled_job, 'j) serde \<Rightarrow> scheduler \<Rightarrow> 's \<Rightarrow> job_id \<Rightarrow>
   job_update \<Rightarrow> timestamp \<Rightarrow> (scheduler_error + scheduled_job) \<times> 's" where
  "sched_update env S CJ sched s i update now =
     (if sched_poisoned sched then (Inl SchedulerLockPoisoned, s)
      else (case required_job S CJ s i of Inl e \<Rightarrow> (Inl e, s) | Inr stored \<Rightarrow>
       if sj_state (st_job stored) \<in> {JobCompleted, JobCancelled} then (Inl JobInvalidTransition, s)
       else (case updated_job env update now (st_job stored) of Inl e \<Rightarrow> (Inl e, s) | Inr job \<Rightarrow>
        (case put_job S CJ s (stored\<lparr>st_job := job\<rparr>) of
           (Inl e, s') \<Rightarrow> (Inl e, s')
         | (Inr stored', s') \<Rightarrow> (Inr (st_job stored'), s')))))"

definition cancel_attempt :: "timestamp \<Rightarrow> job_attempt \<Rightarrow> job_attempt" where
  "cancel_attempt now attempt = attempt\<lparr>ja_state := AttemptCancelled, ja_updated_at := now\<rparr>"

fun cancel_mutations ::
  "(job_attempt, 'j) serde \<Rightarrow> timestamp \<Rightarrow> stored_attempt list \<Rightarrow> scheduler_error + 'j record_mutation list" where
  "cancel_mutations CT now [] = Inr []"
| "cancel_mutations CT now (x # xs) =
     (case sched_next_revision (st_attempt_revision x) of Inl e \<Rightarrow> Inl e | Inr n \<Rightarrow>
      (case attempt_record CT (cancel_attempt now (st_attempt x)) n of Inl e \<Rightarrow> Inl e | Inr vr \<Rightarrow>
       (case cancel_mutations CT now xs of Inl e \<Rightarrow> Inl e | Inr ms \<Rightarrow>
        Inr (Put JobAttempts vr (Exact (st_attempt_revision x)) # ms))))"

definition sched_delete ::
  "('s, 'j, 'e) state_repository \<Rightarrow> (scheduled_job, 'j) serde \<Rightarrow> (job_attempt, 'j) serde \<Rightarrow> scheduler \<Rightarrow> 's \<Rightarrow>
   job_id \<Rightarrow> timestamp \<Rightarrow> (scheduler_error + unit) \<times> 's" where
  "sched_delete S CJ CT sched s i now =
     (if sched_poisoned sched then (Inl SchedulerLockPoisoned, s)
      else (case required_job S CJ s i of Inl e \<Rightarrow> (Inl e, s) | Inr stored \<Rightarrow>
       (case load_attempts S CT s of Inl e \<Rightarrow> (Inl e, s) | Inr attempts \<Rightarrow>
        (case cancel_mutations CT now (filter (\<lambda>x. ja_job_id (st_attempt x) = i
                \<and> \<not> attempt_terminal (ja_state (st_attempt x))) attempts) of Inl e \<Rightarrow> (Inl e, s) | Inr ms \<Rightarrow>
         (case transact S s (Delete ScheduledJobs i (Exact (st_job_revision stored)) # ms) of
            (Inl e, s') \<Rightarrow> (Inl (scheduler_repository_error (job_repo S) e), s')
          | (Inr _, s') \<Rightarrow> (Inr (), s'))))))"

definition finished_attempt :: "bool \<Rightarrow> string option \<Rightarrow> timestamp \<Rightarrow> job_attempt \<Rightarrow> job_attempt" where
  "finished_attempt succeeded err now attempt =
     attempt\<lparr>ja_state := (if succeeded then AttemptCompleted else AttemptFailed), ja_safe_error := err,
             ja_updated_at := now\<rparr>"

definition failed_job :: "string option \<Rightarrow> timestamp \<Rightarrow> scheduled_job \<Rightarrow> scheduled_job" where
  "failed_job err now job =
     job\<lparr>sj_failure_count := saturating_succ_u32 (sj_failure_count job), sj_safe_error := err,
         sj_updated_at := now\<rparr>"

definition failure_mutations ::
  "('s, 'j, 'e) state_repository \<Rightarrow> (scheduled_job, 'j) serde \<Rightarrow> 's \<Rightarrow> bool \<Rightarrow> string option \<Rightarrow> timestamp \<Rightarrow>
   job_id \<Rightarrow> scheduler_error + 'j record_mutation list" where
  "failure_mutations S CJ s succeeded err now i =
     (if succeeded then Inr []
      else (case required_job S CJ s i of Inl e \<Rightarrow> Inl e | Inr job \<Rightarrow>
       (case sched_next_revision (st_job_revision job) of Inl e \<Rightarrow> Inl e | Inr n \<Rightarrow>
        (case job_record CJ (failed_job err now (st_job job)) n of Inl e \<Rightarrow> Inl e | Inr vr \<Rightarrow>
         Inr [Put ScheduledJobs vr (Exact (st_job_revision job))]))))"

definition finish_attempt ::
  "('s, 'j, 'e) state_repository \<Rightarrow> (scheduled_job, 'j) serde \<Rightarrow> (job_attempt, 'j) serde \<Rightarrow> scheduler \<Rightarrow> 's \<Rightarrow>
   entity_id \<Rightarrow> bool \<Rightarrow> string option \<Rightarrow> timestamp \<Rightarrow> (scheduler_error + job_attempt) \<times> 's" where
  "finish_attempt S CJ CT sched s i succeeded err now =
     (if sched_poisoned sched then (Inl SchedulerLockPoisoned, s)
      else (case required_attempt S CT s i of Inl e \<Rightarrow> (Inl e, s) | Inr stored \<Rightarrow>
       if ja_state (st_attempt stored) \<noteq> AttemptEnqueued then (Inl JobInvalidTransition, s)
       else let attempt = finished_attempt succeeded err now (st_attempt stored) in
        (case sched_next_revision (st_attempt_revision stored) of Inl e \<Rightarrow> (Inl e, s) | Inr n \<Rightarrow>
         (case attempt_record CT attempt n of Inl e \<Rightarrow> (Inl e, s) | Inr vr \<Rightarrow>
          (case failure_mutations S CJ s succeeded err now (ja_job_id attempt) of Inl e \<Rightarrow> (Inl e, s) | Inr ms \<Rightarrow>
           (case transact S s (Put JobAttempts vr (Exact (st_attempt_revision stored)) # ms) of
              (Inl e, s') \<Rightarrow> (Inl (scheduler_repository_error (job_repo S) e), s')
            | (Inr _, s') \<Rightarrow> (Inr attempt, s')))))))"

definition job_projection :: "scheduled_job \<Rightarrow> schedule_projection" where
  "job_projection job =
     \<lparr>sp_job_id = sj_id job, sp_state = sj_state job, sp_schedule = sj_schedule job,
      sp_next_run = sj_next_run job, sp_last_run = sj_last_run job, sp_attempts = sj_attempt_count job,
      sp_failures = sj_failure_count job, sp_safe_error = sj_safe_error job\<rparr>"

definition projections ::
  "('s, 'j, 'e) state_repository \<Rightarrow> (scheduled_job, 'j) serde \<Rightarrow> 's \<Rightarrow> scheduler_error + schedule_projection list" where
  "projections S CJ s =
     (case load_jobs S CJ s of Inl e \<Rightarrow> Inl e | Inr xs \<Rightarrow>
      Inr (sort_key sp_job_id (map (\<lambda>x. job_projection (st_job x)) xs)))"

definition projections_for_session ::
  "('s, 'j, 'e) state_repository \<Rightarrow> (scheduled_job, 'j) serde \<Rightarrow> 's \<Rightarrow> session_id \<Rightarrow>
   scheduler_error + schedule_projection list" where
  "projections_for_session S CJ s sid =
     (case load_jobs S CJ s of Inl e \<Rightarrow> Inl e | Inr xs \<Rightarrow>
      Inr (sort_key sp_job_id (map (\<lambda>x. job_projection (st_job x))
        (filter (\<lambda>x. sj_session_id (st_job x) = sid) xs))))"

definition job_session_id ::
  "('s, 'j, 'e) state_repository \<Rightarrow> (scheduled_job, 'j) serde \<Rightarrow> 's \<Rightarrow> job_id \<Rightarrow> scheduler_error + session_id" where
  "job_session_id S CJ s i =
     (case required_job S CJ s i of Inl e \<Rightarrow> Inl e | Inr stored \<Rightarrow> Inr (sj_session_id (st_job stored)))"

section \<open>Specification\<close>

type_synonym job_table = "job_id \<Rightarrow> stored_job option"
type_synonym attempt_table = "entity_id \<Rightarrow> stored_attempt option"
type_synonym sched_state = "job_table \<times> attempt_table \<times> (action_id \<Rightarrow> bool)"

definition jobs_of :: "(scheduled_job, 'j) serde \<Rightarrow> 'j view \<Rightarrow> job_table" where
  "jobs_of C v = records_of id (decode_job C) v"

definition attempts_of :: "(job_attempt, 'j) serde \<Rightarrow> 'j view \<Rightarrow> attempt_table" where
  "attempts_of C v = records_of id (decode_attempt C) v"

inductive job_moves :: "'z calendar_env \<Rightarrow> scheduled_job \<Rightarrow> scheduled_job \<Rightarrow> bool" for env where
  toggled: "(sj_state x, next) \<in> {(JobActive, JobPaused), (JobPaused, JobActive)} \<Longrightarrow>
     job_moves env x (x\<lparr>sj_state := next, sj_updated_at := now\<rparr>)"
| updated: "sj_state x \<notin> {JobCompleted, JobCancelled} \<Longrightarrow> updated_job env update now x = Inr y \<Longrightarrow>
     job_moves env x y"

text \<open>An attempt is enqueued only when its action is in the inbox.\<close>

inductive attempt_moves ::
  "scheduler_config \<Rightarrow> (action_id \<Rightarrow> bool) \<Rightarrow> job_attempt \<Rightarrow> job_attempt \<Rightarrow> bool" for config present where
  recovered: "ja_state x = AttemptClaimed \<Longrightarrow> ja_claim_expires x \<le> now \<Longrightarrow>
     attempt_moves config present x (recover_claim now x)"
| enqueued: "\<not> attempt_terminal (ja_state x) \<Longrightarrow> present (ja_action_id x) \<Longrightarrow>
     attempt_moves config present x (attempt_enqueued now x)"
| retried: "\<not> attempt_terminal (ja_state x) \<Longrightarrow> ja_retry_count x < max_enqueue_retries config \<Longrightarrow>
     attempt_moves config present x (attempt_retry t now e x)"
| failed: "\<not> attempt_terminal (ja_state x) \<Longrightarrow> \<not> ja_retry_count x < max_enqueue_retries config \<Longrightarrow>
     attempt_moves config present x (attempt_failed now e x)"

text \<open>The attempts of one claim: one per occurrence, numbered on from the job's count.\<close>

fun numbered_attempts :: "scheduled_job \<Rightarrow> u32 \<Rightarrow> timestamp list \<Rightarrow> stored_attempt list \<Rightarrow> bool" where
  "numbered_attempts job made [] [] = True"
| "numbered_attempts job made (t # ts) (x # xs) =
     (unat made + 1 < 2 ^ 32
      \<and> (\<exists>new_ids claimant expires now. x =
           \<lparr>st_attempt = new_attempt job (made + 1) new_ids claimant t expires now, st_attempt_revision = 0\<rparr>)
      \<and> numbered_attempts job (made + 1) ts xs)"
| "numbered_attempts job made _ _ = False"

abbreviation attempt_key :: "stored_attempt \<Rightarrow> entity_id" where
  "attempt_key x \<equiv> ja_attempt_id (st_attempt x)"

fun add_attempts :: "attempt_table \<Rightarrow> stored_attempt list \<Rightarrow> attempt_table" where
  "add_attempts A [] = A"
| "add_attempts A (x # xs) = add_attempts (A(attempt_key x \<mapsto> x)) xs"

fun fresh_attempts :: "attempt_table \<Rightarrow> stored_attempt list \<Rightarrow> bool" where
  "fresh_attempts A [] = True"
| "fresh_attempts A (x # xs) \<longleftrightarrow> A (attempt_key x) = None \<and> fresh_attempts (A(attempt_key x \<mapsto> x)) xs"

definition cancel_attempts :: "job_id \<Rightarrow> timestamp \<Rightarrow> attempt_table \<Rightarrow> attempt_table" where
  "cancel_attempts i now A =
     (\<lambda>j. map_option (\<lambda>x. if ja_job_id (st_attempt x) = i \<and> \<not> attempt_terminal (ja_state (st_attempt x))
        then \<lparr>st_attempt = cancel_attempt now (st_attempt x), st_attempt_revision = st_attempt_revision x + 1\<rparr>
        else x) (A j))"

inductive sched_spec :: "'z calendar_env \<Rightarrow> scheduler_config \<Rightarrow> sched_state \<Rightarrow> sched_state \<Rightarrow> bool"
  for env config where
  created: "validate_schedule env (nj_schedule request) = Inr () \<Longrightarrow>
     validate_scheduled_action (nj_action request) = Inr () \<Longrightarrow>
     initial_run env (nj_schedule request) now = Inr next_run \<Longrightarrow> J i = None \<Longrightarrow>
     (\<And>j x. A j = Some x \<Longrightarrow> ja_job_id (st_attempt x) \<noteq> i) \<Longrightarrow>
     sched_spec env config (J, A, P)
       (J(i \<mapsto> \<lparr>st_job = new_job request now i next_run, st_job_revision = 0\<rparr>), A, P)"
| changed: "J i = Some x \<Longrightarrow> job_moves env (st_job x) y \<Longrightarrow> st_job_revision x < n \<Longrightarrow>
     sched_spec env config (J, A, P) (J(i \<mapsto> \<lparr>st_job = y, st_job_revision = n\<rparr>), A, P)"
| claimed: "J i = Some x \<Longrightarrow> job_due now None (st_job x) \<Longrightarrow>
     due_decision env (st_job x) now (on_time_grace_ms config) = Inr d \<Longrightarrow>
     numbered_attempts (st_job x) (sj_attempt_count (st_job x)) (dd_run d) xs \<Longrightarrow>
     fresh_attempts A xs \<Longrightarrow> st_job_revision x < n \<Longrightarrow>
     sched_spec env config (J, A, P)
       (J(i \<mapsto> \<lparr>st_job = claimed_job (st_job x) (sj_attempt_count (st_job x) + of_nat (length xs)) d now,
                st_job_revision = n\<rparr>), add_attempts A xs, P)"
| moved: "A j = Some x \<Longrightarrow> attempt_moves config P (st_attempt x) y \<Longrightarrow> st_attempt_revision x < n \<Longrightarrow>
     sched_spec env config (J, A, P) (J, A(j \<mapsto> \<lparr>st_attempt = y, st_attempt_revision = n\<rparr>), P)"
| finished: "A j = Some x \<Longrightarrow> ja_state (st_attempt x) = AttemptEnqueued \<Longrightarrow> st_attempt_revision x < n \<Longrightarrow>
     (if succeeded then J' = J
      else \<exists>z m. J (ja_job_id (st_attempt x)) = Some z \<and> st_job_revision z < m
        \<and> J' = J(ja_job_id (st_attempt x) \<mapsto> \<lparr>st_job = failed_job err now (st_job z), st_job_revision = m\<rparr>)) \<Longrightarrow>
     sched_spec env config (J, A, P)
       (J', A(j \<mapsto> \<lparr>st_attempt = finished_attempt succeeded err now (st_attempt x), st_attempt_revision = n\<rparr>), P)"
| deleted: "J i = Some x \<Longrightarrow>
     (\<And>j a. A j = Some a \<Longrightarrow> ja_job_id (st_attempt a) = i \<Longrightarrow> \<not> attempt_terminal (ja_state (st_attempt a)) \<Longrightarrow>
        st_attempt_revision a < st_attempt_revision a + 1) \<Longrightarrow>
     sched_spec env config (J, A, P) (J(i := None), cancel_attempts i now A, P)"
| inbox: "(\<And>i. P i \<Longrightarrow> P' i) \<Longrightarrow> sched_spec env config (J, A, P) (J, A, P')"

inductive sched_op ::
  "'z calendar_env \<Rightarrow> ('s, 'j, 'e) state_repository \<Rightarrow> ('s \<Rightarrow> collection \<Rightarrow> 'j view) \<Rightarrow> ('s \<Rightarrow> bool) \<Rightarrow>
   (scheduled_job, 'j) serde \<Rightarrow> (job_attempt, 'j) serde \<Rightarrow> 's action_sink \<Rightarrow> ('j view \<Rightarrow> action_id \<Rightarrow> bool) \<Rightarrow>
   scheduler \<Rightarrow> 's \<Rightarrow> 's \<Rightarrow> bool"
  for env S views ok CJ CT sink queued sched where
  op_create: "sched_create env S CJ s request now i = (res, s') \<Longrightarrow>
     (\<And>j x. attempts_of CT (views s JobAttempts) j = Some x \<Longrightarrow> ja_job_id (st_attempt x) \<noteq> i) \<Longrightarrow>
     sched_op env S views ok CJ CT sink queued sched s s'"
| op_tick: "tick_filtered env S CJ CT sink sched s claimant now sessions ids = (res, s') \<Longrightarrow>
     sched_op env S views ok CJ CT sink queued sched s s'"
| op_state: "change_state S CJ sched s i next now = (res, s') \<Longrightarrow>
     sched_op env S views ok CJ CT sink queued sched s s'"
| op_update: "sched_update env S CJ sched s i update now = (res, s') \<Longrightarrow>
     sched_op env S views ok CJ CT sink queued sched s s'"
| op_delete: "sched_delete S CJ CT sched s i now = (res', s') \<Longrightarrow>
     sched_op env S views ok CJ CT sink queued sched s s'"
| op_finish: "finish_attempt S CJ CT sched s i succeeded err now = (att, s') \<Longrightarrow>
     sched_op env S views ok CJ CT sink queued sched s s'"
| op_elsewhere: "ok s' \<Longrightarrow> views s' ScheduledJobs = views s ScheduledJobs \<Longrightarrow>
     views s' JobAttempts = views s JobAttempts \<Longrightarrow>
     (\<And>i. queued (views s PendingActions) i \<Longrightarrow> queued (views s' PendingActions) i) \<Longrightarrow>
     sched_op env S views ok CJ CT sink queued sched s s'"

section \<open>Invariants\<close>

definition attempts_for :: "attempt_table \<Rightarrow> job_id \<Rightarrow> entity_id set" where
  "attempts_for A i = {j. \<exists>x. A j = Some x \<and> ja_job_id (st_attempt x) = i}"

text \<open>Attempt \<open>k\<close> of a job exists for exactly the \<open>k\<close> up to its count, and is unique.\<close>

definition numbering :: "attempt_table \<Rightarrow> job_id \<Rightarrow> nat \<Rightarrow> bool" where
  "numbering A i n \<longleftrightarrow>
     (\<forall>k. 1 \<le> k \<longrightarrow> k \<le> n \<longrightarrow> (\<exists>j x. A j = Some x \<and> ja_job_id (st_attempt x) = i \<and> unat (ja_ordinal (st_attempt x)) = k))
     \<and> (\<forall>j x. A j = Some x \<longrightarrow> ja_job_id (st_attempt x) = i \<longrightarrow>
          1 \<le> unat (ja_ordinal (st_attempt x)) \<and> unat (ja_ordinal (st_attempt x)) \<le> n)"

definition ordinals_unique :: "attempt_table \<Rightarrow> bool" where
  "ordinals_unique A \<longleftrightarrow>
     (\<forall>j k x y. A j = Some x \<longrightarrow> A k = Some y \<longrightarrow> ja_job_id (st_attempt x) = ja_job_id (st_attempt y) \<longrightarrow>
        ja_ordinal (st_attempt x) = ja_ordinal (st_attempt y) \<longrightarrow> j = k)"

definition attempt_ok :: "scheduler_config \<Rightarrow> (action_id \<Rightarrow> bool) \<Rightarrow> job_attempt \<Rightarrow> bool" where
  "attempt_ok config present x \<longleftrightarrow>
     ja_retry_count x \<le> max_enqueue_retries config
     \<and> (ja_state x \<in> {AttemptEnqueued, AttemptCompleted} \<longrightarrow> present (ja_action_id x))"

definition job_ok :: "scheduled_job \<Rightarrow> bool" where
  "job_ok x \<longleftrightarrow> (sj_state x \<in> {JobActive, JobPaused} \<longrightarrow> sj_next_run x \<noteq> None)"

definition sched_inv :: "scheduler_config \<Rightarrow> sched_state \<Rightarrow> bool" where
  "sched_inv config = (\<lambda>(J, A, P).
     (\<forall>i x. J i = Some x \<longrightarrow> sj_id (st_job x) = i \<and> job_ok (st_job x) \<and> numbering A i (unat (sj_attempt_count (st_job x))))
     \<and> ordinals_unique A
     \<and> (\<forall>j x. A j = Some x \<longrightarrow> attempt_ok config P (st_attempt x)
          \<and> (\<not> attempt_terminal (ja_state (st_attempt x)) \<longrightarrow> J (ja_job_id (st_attempt x)) \<noteq> None)))"

text \<open>What never changes about an attempt, and in which directions the rest moves.\<close>

definition attempt_content :: "job_attempt \<Rightarrow> _" where
  "attempt_content x = (ja_version x, ja_job_id x, ja_attempt_id x, ja_ordinal x, ja_scheduled_for x,
     ja_claimed_by x, ja_claim_expires x, ja_action_id x)"

definition attempt_later :: "stored_attempt \<Rightarrow> stored_attempt \<Rightarrow> bool" where
  "attempt_later x y \<longleftrightarrow>
     attempt_content (st_attempt y) = attempt_content (st_attempt x)
     \<and> ja_retry_count (st_attempt x) \<le> ja_retry_count (st_attempt y)
     \<and> (y = x \<or> st_attempt_revision x < st_attempt_revision y
          \<and> ja_state (st_attempt x) \<notin> {AttemptCompleted, AttemptFailed, AttemptCancelled}
          \<and> (ja_state (st_attempt x) = AttemptEnqueued \<longrightarrow>
               ja_state (st_attempt y) \<in> {AttemptCompleted, AttemptFailed}))"

lemmas attempt_updates = recover_claim_def attempt_enqueued_def attempt_retry_def attempt_failed_def
  cancel_attempt_def finished_attempt_def

lemma attempt_updates_content [simp]:
  "attempt_content (recover_claim now x) = attempt_content x"
  "attempt_content (attempt_enqueued now x) = attempt_content x"
  "attempt_content (attempt_retry t now e x) = attempt_content x"
  "attempt_content (attempt_failed now e x) = attempt_content x"
  "attempt_content (cancel_attempt now x) = attempt_content x"
  "attempt_content (finished_attempt succeeded err now x) = attempt_content x"
  by (simp_all add: attempt_content_def attempt_updates)

lemma attempt_contentD:
  assumes "attempt_content y = attempt_content x"
  shows "ja_job_id y = ja_job_id x" and "ja_attempt_id y = ja_attempt_id x" and "ja_ordinal y = ja_ordinal x"
    and "ja_action_id y = ja_action_id x" and "ja_version y = ja_version x"
  using assms by (simp_all add: attempt_content_def)

lemma attempt_moves_live: "attempt_moves config P x y \<Longrightarrow> \<not> attempt_terminal (ja_state x)"
  by (erule attempt_moves.cases) (auto simp: attempt_terminal_def)

lemma attempt_moves_content: "attempt_moves config P x y \<Longrightarrow> attempt_content y = attempt_content x"
  by (erule attempt_moves.cases) simp_all

lemma saturating_succ_u16_ge: "(x :: u16) \<le> saturating_succ_u16 x"
proof (cases "unat x + 1 < 2 ^ 16")
  case True
  then have "unat (x + 1) = unat x + 1" by (simp add: unat_word_ariths)
  then show ?thesis using True by (simp add: saturating_succ_u16_def word_le_nat_alt)
qed (simp add: saturating_succ_u16_def)

lemma attempt_moves_ok: "attempt_moves config P x y \<Longrightarrow> attempt_ok config P x \<Longrightarrow> attempt_ok config P y"
  by (erule attempt_moves.cases)
    (auto simp: attempt_ok_def attempt_updates intro: saturating_succ_u16_le)

lemma attempt_moves_retry: "attempt_moves config P x y \<Longrightarrow> ja_retry_count x \<le> ja_retry_count y"
  by (erule attempt_moves.cases) (auto simp: attempt_updates intro: saturating_succ_u16_ge)

lemma attempt_ok_mono: "attempt_ok config P x \<Longrightarrow> (\<And>i. P i \<Longrightarrow> Q i) \<Longrightarrow> attempt_ok config Q x"
  by (auto simp: attempt_ok_def)

text \<open>Tables whose attempts agree except for their progress.\<close>

definition same_contents :: "attempt_table \<Rightarrow> attempt_table \<Rightarrow> bool" where
  "same_contents A B \<longleftrightarrow>
     (\<forall>j. map_option (\<lambda>x. attempt_content (st_attempt x)) (B j) = map_option (\<lambda>x. attempt_content (st_attempt x)) (A j))"

lemma same_contentsD:
  assumes "same_contents A B"
  shows "A j = Some x \<Longrightarrow> \<exists>y. B j = Some y \<and> attempt_content (st_attempt y) = attempt_content (st_attempt x)"
    and "B j = Some y \<Longrightarrow> \<exists>x. A j = Some x \<and> attempt_content (st_attempt y) = attempt_content (st_attempt x)"
  using spec [OF assms [unfolded same_contents_def], of j]
  by (cases "A j"; cases "B j"; simp)+

lemma same_contents_sym: "same_contents A B \<Longrightarrow> same_contents B A"
  by (simp add: same_contents_def)

lemma same_contents_upd:
  "A j = Some x \<Longrightarrow> attempt_content y = attempt_content (st_attempt x) \<Longrightarrow>
   same_contents A (A(j \<mapsto> \<lparr>st_attempt = y, st_attempt_revision = n\<rparr>))"
  by (simp add: same_contents_def)

lemma same_contents_cancel: "same_contents A (cancel_attempts i now A)"
  by (simp add: same_contents_def cancel_attempts_def option.map_comp comp_def if_distrib cong: if_cong)

lemma same_contents_number:
  assumes "same_contents A B" and "A j = Some x"
  obtains y where "B j = Some y" "ja_job_id (st_attempt y) = ja_job_id (st_attempt x)"
    "ja_ordinal (st_attempt y) = ja_ordinal (st_attempt x)"
  using same_contentsD(1) [OF assms] attempt_contentD(1,3) by blast

lemma same_contents_numbering:
  assumes "same_contents A B" and "numbering A i n"
  shows "numbering B i n"
  unfolding numbering_def
proof (intro conjI allI impI, goal_cases)
  case (1 k)
  then obtain j x where x: "A j = Some x" "ja_job_id (st_attempt x) = i" "unat (ja_ordinal (st_attempt x)) = k"
    using assms(2) unfolding numbering_def by blast
  obtain y where "B j = Some y" "ja_job_id (st_attempt y) = ja_job_id (st_attempt x)"
    "ja_ordinal (st_attempt y) = ja_ordinal (st_attempt x)" by (rule same_contents_number [OF assms(1) x(1)])
  then show ?case using x by (intro exI [of _ j] exI [of _ y]) simp
next
  case (2 j y)
  then show ?case
    using assms(2) same_contents_number [OF same_contents_sym [OF assms(1)] 2(1)] unfolding numbering_def by metis
next
  case (3 j y)
  then show ?case
    using assms(2) same_contents_number [OF same_contents_sym [OF assms(1)] 3(1)] unfolding numbering_def by metis
qed

lemma same_contents_unique:
  assumes "same_contents A B" and "ordinals_unique A"
  shows "ordinals_unique B"
  unfolding ordinals_unique_def
proof (intro allI impI)
  fix j k x y
  assume b: "B j = Some x" "B k = Some y" "ja_job_id (st_attempt x) = ja_job_id (st_attempt y)"
    "ja_ordinal (st_attempt x) = ja_ordinal (st_attempt y)"
  note sym = same_contents_sym [OF assms(1)]
  obtain x' where x': "A j = Some x'" "ja_job_id (st_attempt x') = ja_job_id (st_attempt x)"
    "ja_ordinal (st_attempt x') = ja_ordinal (st_attempt x)" by (rule same_contents_number [OF sym b(1)])
  obtain y' where y': "A k = Some y'" "ja_job_id (st_attempt y') = ja_job_id (st_attempt y)"
    "ja_ordinal (st_attempt y') = ja_ordinal (st_attempt y)" by (rule same_contents_number [OF sym b(2)])
  show "j = k" using assms(2) x' y' b(3,4) unfolding ordinals_unique_def by simp
qed

lemma numbering_other:
  assumes "numbering A i n" and "ja_job_id (st_attempt x) \<noteq> i" and "A j = None"
  shows "numbering (A(j \<mapsto> x)) i n"
  unfolding numbering_def
proof (intro conjI allI impI, goal_cases)
  case (1 k)
  then obtain l y where y: "A l = Some y" "ja_job_id (st_attempt y) = i" "unat (ja_ordinal (st_attempt y)) = k"
    using assms(1) unfolding numbering_def by blast
  moreover have "l \<noteq> j" using y(1) assms(3) by auto
  ultimately show ?case by (intro exI [of _ l] exI [of _ y]) simp
next
  case (2 l y)
  then show ?case using assms unfolding numbering_def by (auto split: if_splits)
next
  case (3 l y)
  then show ?case using assms unfolding numbering_def by (auto split: if_splits)
qed

lemma numbering_next:
  assumes "numbering A i n" and "ja_job_id (st_attempt x) = i" and "A j = None"
    and "unat (ja_ordinal (st_attempt x)) = n + 1"
  shows "numbering (A(j \<mapsto> x)) i (n + 1)"
  unfolding numbering_def
proof (intro conjI allI impI, goal_cases)
  case (1 k)
  show ?case
  proof (cases "k = n + 1")
    case True
    then show ?thesis using assms by (intro exI [of _ j] exI [of _ x]) simp
  next
    case False
    then obtain l y where y: "A l = Some y" "ja_job_id (st_attempt y) = i" "unat (ja_ordinal (st_attempt y)) = k"
      using assms(1) 1 unfolding numbering_def by (metis Suc_eq_plus1 le_SucE)
    moreover have "l \<noteq> j" using y(1) assms(3) by auto
    ultimately show ?thesis by (intro exI [of _ l] exI [of _ y]) simp
  qed
next
  case (2 l y)
  then show ?case using assms unfolding numbering_def by (cases "l = j") auto
next
  case (3 l y)
  then show ?case using assms unfolding numbering_def by (cases "l = j") (auto intro: le_SucI)
qed

lemma ordinals_unique_next:
  assumes "numbering A i n" and "ordinals_unique A" and "ja_job_id (st_attempt x) = i" and "A j = None"
    and "unat (ja_ordinal (st_attempt x)) = n + 1"
  shows "ordinals_unique (A(j \<mapsto> x))"
proof -
  have new: "ja_ordinal (st_attempt y) \<noteq> ja_ordinal (st_attempt x)"
    if "A l = Some y" "ja_job_id (st_attempt y) = i" for l y
    using assms(1,5) that unfolding numbering_def by fastforce
  show ?thesis
    unfolding ordinals_unique_def
  proof (intro allI impI)
    fix l k y z
    assume l: "(A(j \<mapsto> x)) l = Some y" and k: "(A(j \<mapsto> x)) k = Some z"
      and eq: "ja_job_id (st_attempt y) = ja_job_id (st_attempt z)"
        "ja_ordinal (st_attempt y) = ja_ordinal (st_attempt z)"
    show "l = k"
      using l k eq assms(2,3) new [of l y] new [of k z] unfolding ordinals_unique_def
      by (cases "l = j"; cases "k = j") auto
  qed
qed

lemma unat_succ_u32: "unat made + 1 < 2 ^ 32 \<Longrightarrow> unat (made + 1 :: u32) = unat made + 1"
  by (simp add: unat_word_ariths)

lemma new_attempt_simps [simp]:
  "ja_job_id (new_attempt job n new_ids claimant t expires now) = sj_id job"
  "ja_attempt_id (new_attempt job n new_ids claimant t expires now) = fst new_ids"
  "ja_ordinal (new_attempt job n new_ids claimant t expires now) = n"
  "ja_state (new_attempt job n new_ids claimant t expires now) = AttemptClaimed"
  "ja_retry_count (new_attempt job n new_ids claimant t expires now) = 0"
  "ja_version (new_attempt job n new_ids claimant t expires now) = CURRENT_SCHEMA_VERSION"
  by (simp_all add: new_attempt_def)

lemma add_attempts_numbering:
  assumes "numbered_attempts job made ts xs" and "fresh_attempts A xs"
    and "numbering A (sj_id job) (unat made)" and "ordinals_unique A"
  shows "numbering (add_attempts A xs) (sj_id job) (unat (made + of_nat (length xs)))
    \<and> ordinals_unique (add_attempts A xs)
    \<and> (\<forall>i n. i \<noteq> sj_id job \<longrightarrow> numbering A i n \<longrightarrow> numbering (add_attempts A xs) i n)"
  using assms
proof (induction job made ts xs arbitrary: A rule: numbered_attempts.induct)
  case (2 job made t ts x xs)
  let ?A = "A(attempt_key x \<mapsto> x)"
  have x: "ja_job_id (st_attempt x) = sj_id job" "unat (ja_ordinal (st_attempt x)) = unat made + 1"
    and free: "A (attempt_key x) = None" and num: "unat (made + 1) = unat made + 1"
    using 2(2,3) unat_succ_u32 [of made] by auto
  have n: "numbering ?A (sj_id job) (unat (made + 1))"
    unfolding num using 2(4) x free by (intro numbering_next) auto
  have u: "ordinals_unique ?A"
    using 2(4,5) x free by (intro ordinals_unique_next [of A "sj_id job" "unat made"]) auto
  have other: "numbering ?A i n" if "i \<noteq> sj_id job" "numbering A i n" for i n
    using that x free by (intro numbering_other) auto
  have rest: "numbered_attempts job (made + 1) ts xs" "fresh_attempts ?A xs" using 2(2,3) by auto
  have count: "made + 1 + of_nat (length xs) = made + of_nat (length (x # xs))" by simp
  show ?case
    unfolding add_attempts.simps count [symmetric] using 2(1) [OF rest n u] other by blast
qed simp_all

lemma add_attempts_cases:
  assumes "add_attempts A xs j = Some x" and "fresh_attempts A xs"
  shows "A j = Some x \<or> x \<in> set xs \<and> attempt_key x = j"
  using assms
proof (induction xs arbitrary: A)
  case (Cons y ys)
  let ?A = "A(attempt_key y \<mapsto> y)"
  have "add_attempts ?A ys j = Some x" "fresh_attempts ?A ys" using Cons.prems by simp_all
  then have "?A j = Some x \<or> x \<in> set ys \<and> attempt_key x = j" by (rule Cons.IH)
  then show ?case by (cases "j = attempt_key y") auto
qed simp

lemma add_attempts_kept:
  assumes "fresh_attempts A xs" and "A j = Some x"
  shows "add_attempts A xs j = Some x"
  using assms
proof (induction xs arbitrary: A)
  case (Cons y ys)
  have "fresh_attempts (A(attempt_key y \<mapsto> y)) ys" "(A(attempt_key y \<mapsto> y)) j = Some x"
    using Cons.prems by auto
  then show ?case unfolding add_attempts.simps by (rule Cons.IH)
qed simp

lemma numbered_attempts_mem:
  "numbered_attempts job made ts xs \<Longrightarrow> x \<in> set xs \<Longrightarrow>
   ja_state (st_attempt x) = AttemptClaimed \<and> ja_retry_count (st_attempt x) = 0 \<and> ja_job_id (st_attempt x) = sj_id job"
  by (induction job made ts xs rule: numbered_attempts.induct) auto

lemma sched_invI:
  assumes "\<And>i x. J i = Some x \<Longrightarrow> sj_id (st_job x) = i \<and> job_ok (st_job x)
      \<and> numbering A i (unat (sj_attempt_count (st_job x)))"
    and "ordinals_unique A"
    and "\<And>j x. A j = Some x \<Longrightarrow> attempt_ok config P (st_attempt x)
      \<and> (\<not> attempt_terminal (ja_state (st_attempt x)) \<longrightarrow> J (ja_job_id (st_attempt x)) \<noteq> None)"
  shows "sched_inv config (J, A, P)"
  using assms by (simp add: sched_inv_def)

lemma sched_invD:
  assumes "sched_inv config (J, A, P)"
  shows "J i = Some x \<Longrightarrow> sj_id (st_job x) = i" and "J i = Some x \<Longrightarrow> job_ok (st_job x)"
    and "J i = Some x \<Longrightarrow> numbering A i (unat (sj_attempt_count (st_job x)))"
    and "ordinals_unique A" and "A j = Some y \<Longrightarrow> attempt_ok config P (st_attempt y)"
    and "A j = Some y \<Longrightarrow> \<not> attempt_terminal (ja_state (st_attempt y)) \<Longrightarrow> J (ja_job_id (st_attempt y)) \<noteq> None"
  using assms unfolding sched_inv_def by simp_all

text \<open>A job keeps its identity and its count in every step but a claim.\<close>

lemma initial_run_Some: "initial_run env schedule now = Inr r \<Longrightarrow> r \<noteq> None"
  by (cases schedule) (auto simp: initial_run_def dest!: sym [of "Some _"] split: if_splits option.splits sum.splits)

lemma updated_job_kept:
  assumes "updated_job env update now x = Inr y"
  shows "sj_id y = sj_id x" and "sj_attempt_count y = sj_attempt_count x" and "sj_state y = sj_state x"
    and "sj_next_run x \<noteq> None \<Longrightarrow> sj_next_run y \<noteq> None" and "sj_version y = sj_version x"
  using assms initial_run_Some [of env _ now]
  by (auto simp: updated_job_def split: option.splits sum.splits)

lemma job_moves_kept:
  assumes "job_moves env x y"
  shows "sj_id y = sj_id x" and "sj_attempt_count y = sj_attempt_count x" and "job_ok x \<Longrightarrow> job_ok y"
    and "sj_version y = sj_version x"
  using assms by (cases rule: job_moves.cases; auto simp: job_ok_def dest: updated_job_kept)+

lemma sched_spec_inv:
  assumes "sched_spec env config X Y" and "sched_inv config X"
  shows "sched_inv config Y"
  using assms
proof (induction rule: sched_spec.induct)
  case (created request now next_run J i A P)
  note inv = sched_invD [OF created.prems]
  have "numbering A i 0" unfolding numbering_def using created(5) by auto
  moreover have "job_ok (new_job request now i next_run)"
    using initial_run_Some [OF created(3)] by (simp add: job_ok_def new_job_def)
  ultimately show ?case
    using inv by (intro sched_invI) (auto simp: new_job_def split: if_splits)
next
  case (changed J i x y n A P)
  note inv = sched_invD [OF changed.prems]
  show ?case
    using inv job_moves_kept [OF changed(2)] changed(1) by (intro sched_invI) (auto split: if_splits)
next
  case (claimed J i x now d xs A n P)
  note inv = sched_invD [OF claimed.prems]
  have id: "sj_id (st_job x) = i" using inv(1) claimed(1) .
  note num = add_attempts_numbering [OF claimed(4,5) _ inv(4), unfolded id, OF inv(3) [OF claimed(1)]]
  have active: "sj_state (st_job x) = JobActive" using claimed(2) by (simp add: job_due_def)
  have "attempt_ok config P (st_attempt a) \<and> (\<not> attempt_terminal (ja_state (st_attempt a)) \<longrightarrow>
      (J(i \<mapsto> z)) (ja_job_id (st_attempt a)) \<noteq> None)" if "add_attempts A xs j = Some a" for j a z
    using add_attempts_cases [OF that claimed(5)] inv(5,6) numbered_attempts_mem [OF claimed(4), of a] id
    by (auto simp: attempt_ok_def)
  moreover have "job_ok (claimed_job (st_job x) m d now)" for m
    using active by (simp add: job_ok_def claimed_job_def)
  ultimately show ?case
    using num inv(1-3) id by (intro sched_invI) (auto simp: claimed_job_def split: if_splits)
next
  case (moved A j x P y n J)
  note inv = sched_invD [OF moved.prems]
  note c = attempt_moves_content [OF moved(2)]
  have same: "same_contents A (A(j \<mapsto> \<lparr>st_attempt = y, st_attempt_revision = n\<rparr>))"
    using moved(1) c by (rule same_contents_upd)
  have y: "attempt_ok config P y" "J (ja_job_id y) \<noteq> None"
    using attempt_moves_ok [OF moved(2)] inv(5,6) moved(1) attempt_moves_live [OF moved(2)] attempt_contentD(1) [OF c]
    by auto
  show ?case
    using inv y same_contents_numbering [OF same] same_contents_unique [OF same]
    by (intro sched_invI) (auto split: if_splits)
next
  case (finished A j x n succeeded J' J err now P)
  note inv = sched_invD [OF finished.prems]
  let ?y = "finished_attempt succeeded err now (st_attempt x)"
  have same: "same_contents A (A(j \<mapsto> \<lparr>st_attempt = ?y, st_attempt_revision = n\<rparr>))"
    using finished(1) by (rule same_contents_upd) simp
  have y: "attempt_ok config P ?y" "attempt_terminal (ja_state ?y)"
    using inv(5) [OF finished(1)] finished(2)
    by (auto simp: attempt_ok_def finished_attempt_def attempt_terminal_def)
  have jobs: "sj_id (st_job z) = i \<and> job_ok (st_job z) \<and> numbering A i (unat (sj_attempt_count (st_job z)))"
    if "J' i = Some z" for i z
    using finished(4) that inv(1-3) by (auto simp: failed_job_def job_ok_def split: if_splits)
  have kept: "J' i \<noteq> None" if "J i \<noteq> None" for i using finished(4) that by (auto split: if_splits)
  show ?case
    using inv y jobs kept same_contents_numbering [OF same] same_contents_unique [OF same]
    by (intro sched_invI) (auto split: if_splits)
next
  case (deleted J i x A P now)
  note inv = sched_invD [OF deleted.prems]
  note same = same_contents_cancel [of A i now]
  have "attempt_ok config P (st_attempt b) \<and> (\<not> attempt_terminal (ja_state (st_attempt b)) \<longrightarrow>
      (J(i := None)) (ja_job_id (st_attempt b)) \<noteq> None)" if b: "cancel_attempts i now A j = Some b" for j b
  proof -
    obtain a where a: "A j = Some a"
      and "b = (if ja_job_id (st_attempt a) = i \<and> \<not> attempt_terminal (ja_state (st_attempt a))
        then \<lparr>st_attempt = cancel_attempt now (st_attempt a), st_attempt_revision = st_attempt_revision a + 1\<rparr>
        else a)" using b by (auto simp: cancel_attempts_def)
    then show ?thesis
      using inv(5,6) [OF a]
      by (cases "ja_job_id (st_attempt a) = i \<and> \<not> attempt_terminal (ja_state (st_attempt a))")
        (auto simp: attempt_ok_def cancel_attempt_def attempt_terminal_def)
  qed
  then show ?case
    using inv(1-4) same_contents_numbering [OF same] same_contents_unique [OF same]
    by (intro sched_invI) (auto split: if_splits)
next
  case (inbox P P' J A)
  note inv = sched_invD [OF inbox.prems]
  show ?case using inv attempt_ok_mono [of config P _ P'] inbox(1) by (intro sched_invI) auto
qed

lemma attempt_later_refl [simp]: "attempt_later x x"
  by (simp add: attempt_later_def)

lemma attempt_later_trans: "attempt_later x y \<Longrightarrow> attempt_later y z \<Longrightarrow> attempt_later x z"
  by (auto simp: attempt_later_def)

lemma sched_spec_later:
  assumes "sched_spec env config X Y" and "fst (snd X) j = Some x"
  shows "\<exists>y. fst (snd Y) j = Some y \<and> attempt_later x y"
  using assms
proof (induction rule: sched_spec.induct)
  case (claimed J i y now d xs A n P)
  then show ?case using add_attempts_kept [OF claimed(5)] by simp
next
  case (moved A k z P y n J)
  have "attempt_later z \<lparr>st_attempt = y, st_attempt_revision = n\<rparr>"
    using moved(3) attempt_moves_content [OF moved(2)] attempt_moves_retry [OF moved(2)] attempt_moves_live [OF moved(2)]
    by (auto simp: attempt_later_def attempt_terminal_def)
  then show ?case using moved(1,4) by auto
next
  case (finished A k z n succeeded J' J err now P)
  have "attempt_later z \<lparr>st_attempt = finished_attempt succeeded err now (st_attempt z), st_attempt_revision = n\<rparr>"
    using finished(2,3) by (simp add: attempt_later_def) (simp add: finished_attempt_def)
  then show ?case using finished(1,5) by auto
next
  case (deleted J i z A P now)
  show ?case
  proof (cases "ja_job_id (st_attempt x) = i \<and> \<not> attempt_terminal (ja_state (st_attempt x))")
    case True
    have "A j = Some x" using deleted(3) by simp
    then have "st_attempt_revision x < st_attempt_revision x + 1" using deleted(2) [of j x] True by blast
    then have "attempt_later x \<lparr>st_attempt = cancel_attempt now (st_attempt x), st_attempt_revision = st_attempt_revision x + 1\<rparr>"
      using True by (simp add: attempt_later_def attempt_terminal_def) (simp add: cancel_attempt_def)
    then show ?thesis using \<open>A j = Some x\<close> True by (simp add: cancel_attempts_def)
  next
    case False
    then show ?thesis using deleted(3) by (auto simp: cancel_attempts_def)
  qed
qed auto

lemma sched_spec_star_inv:
  "(sched_spec env config)\<^sup>*\<^sup>* X Y \<Longrightarrow> sched_inv config X \<Longrightarrow> sched_inv config Y"
  by (induction rule: rtranclp_induct) (auto intro: sched_spec_inv)

lemma sched_spec_star_later:
  "(sched_spec env config)\<^sup>*\<^sup>* X Y \<Longrightarrow> fst (snd X) j = Some x \<Longrightarrow> \<exists>y. fst (snd Y) j = Some y \<and> attempt_later x y"
proof (induction rule: rtranclp_induct)
  case (step T U)
  then show ?case by (meson attempt_later_trans sched_spec_later)
qed auto

lemma sched_inv_empty: "sched_inv config (Map.empty, Map.empty, P)"
  by (simp add: sched_inv_def ordinals_unique_def)

section \<open>The scheduler implements the specification\<close>

lemma job_record_fields: "job_record C x n = Inr vr \<Longrightarrow> vr_id vr = sj_id x \<and> vr_revision vr = n"
  by (auto simp: job_record_def split: sum.splits)

lemma attempt_record_fields: "attempt_record C x n = Inr vr \<Longrightarrow> vr_id vr = ja_attempt_id x \<and> vr_revision vr = n"
  by (auto simp: attempt_record_def split: sum.splits)

lemma decode_job_fields:
  "decode_job C vr = Inr x \<Longrightarrow> sj_id (st_job x) = vr_id vr \<and> st_job_revision x = vr_revision vr
     \<and> major (sj_version (st_job x)) = major CURRENT_SCHEMA_VERSION"
  by (auto simp: decode_job_def split: sum.splits if_splits)

lemma decode_attempt_fields:
  "decode_attempt C vr = Inr x \<Longrightarrow> ja_attempt_id (st_attempt x) = vr_id vr \<and> st_attempt_revision x = vr_revision vr
     \<and> major (ja_version (st_attempt x)) = major CURRENT_SCHEMA_VERSION"
  by (auto simp: decode_attempt_def split: sum.splits if_splits)

lemma job_record_decode:
  assumes "serde_ok C" and "job_record C (st_job x) (st_job_revision x) = Inr vr"
    and "major (sj_version (st_job x)) = major CURRENT_SCHEMA_VERSION"
  shows "decode_job C vr = Inr x"
proof -
  obtain j where j: "to_value C (st_job x) = Inr j" using assms(2) by (auto simp: job_record_def split: sum.splits)
  show ?thesis
    using assms(2,3) j serde_okD [OF assms(1) j] by (auto simp: job_record_def decode_job_def)
qed

lemma attempt_record_decode:
  assumes "serde_ok C" and "attempt_record C (st_attempt x) (st_attempt_revision x) = Inr vr"
    and "major (ja_version (st_attempt x)) = major CURRENT_SCHEMA_VERSION"
  shows "decode_attempt C vr = Inr x"
proof -
  obtain j where j: "to_value C (st_attempt x) = Inr j"
    using assms(2) by (auto simp: attempt_record_def split: sum.splits)
  show ?thesis
    using assms(2,3) j serde_okD [OF assms(1) j] by (auto simp: attempt_record_def decode_attempt_def)
qed

lemma sched_next_revision_eq: "sched_next_revision n = Inr m \<Longrightarrow> m = n + 1"
  by (auto simp: sched_next_revision_def dest: checked_next_eq split: option.splits)

locale scheduler_store = state_repository_laws S views wf
  for S :: "('s, 'j, 'e) state_repository" and views :: "'s \<Rightarrow> collection \<Rightarrow> 'j view" and wf :: "'s \<Rightarrow> bool" +
  fixes CJ :: "(scheduled_job, 'j) serde"
    and CT :: "(job_attempt, 'j) serde"
    and sink :: "'s action_sink"
    and queued :: "'j view \<Rightarrow> action_id \<Rightarrow> bool"
  assumes codecs: "wf s \<Longrightarrow> serde_ok CJ \<and> serde_ok CT"
    and sink_frame: "wf s \<Longrightarrow> enqueue_action sink s a now = (res, s') \<Longrightarrow>
      wf s' \<and> views s' ScheduledJobs = views s ScheduledJobs \<and> views s' JobAttempts = views s JobAttempts"
    and sink_keeps: "wf s \<Longrightarrow> enqueue_action sink s a now = (res, s') \<Longrightarrow>
      queued (views s PendingActions) i \<Longrightarrow> queued (views s' PendingActions) i"
    and sink_accepts: "wf s \<Longrightarrow> enqueue_action sink s a now = (Inr status, s') \<Longrightarrow>
      queued (views s' PendingActions) (sa_id a)"

sublocale scheduler_store \<subseteq> jobs: typed_store "job_repo S" "\<lambda>s. views s ScheduledJobs" wf
  "\<lambda>x. job_record CJ (st_job x) (st_job_revision x)" "decode_job CJ" id "\<lambda>x. sj_id (st_job x)" st_job_revision
  "\<lambda>x. major (sj_version (st_job x)) = major CURRENT_SCHEMA_VERSION"
proof (intro typed_store.intro typed_store_axioms.intro collection_laws, goal_cases)
  case (1 x r)
  then show ?case by (rule job_record_fields)
next
  case (2 s x r)
  then show ?case using job_record_decode codecs by auto
next
  case (3 r y)
  then show ?case by (auto dest: decode_job_fields)
qed

sublocale scheduler_store \<subseteq> attempts: typed_store "attempt_repo S" "\<lambda>s. views s JobAttempts" wf
  "\<lambda>x. attempt_record CT (st_attempt x) (st_attempt_revision x)" "decode_attempt CT" id attempt_key
  st_attempt_revision "\<lambda>x. major (ja_version (st_attempt x)) = major CURRENT_SCHEMA_VERSION"
proof (intro typed_store.intro typed_store_axioms.intro collection_laws, goal_cases)
  case (1 x r)
  then show ?case by (rule attempt_record_fields)
next
  case (2 s x r)
  then show ?case using attempt_record_decode codecs by auto
next
  case (3 r y)
  then show ?case by (auto dest: decode_attempt_fields)
qed

context scheduler_store
begin

abbreviation jtab :: "'s \<Rightarrow> job_table" where
  "jtab s \<equiv> jobs_of CJ (views s ScheduledJobs)"

abbreviation atab :: "'s \<Rightarrow> attempt_table" where
  "atab s \<equiv> attempts_of CT (views s JobAttempts)"

abbreviation present :: "'s \<Rightarrow> action_id \<Rightarrow> bool" where
  "present s \<equiv> queued (views s PendingActions)"

abbreviation sabs :: "'s \<Rightarrow> sched_state" where
  "sabs s \<equiv> (jtab s, atab s, present s)"

lemmas jtab_def = jobs_of_def [of CJ, symmetric]
lemmas atab_def = attempts_of_def [of CT, symmetric]

lemma required_job_jtab:
  assumes "wf s" and "required_job S CJ s i = Inr x"
  shows "jtab s i = Some x" and "sj_id (st_job x) = i"
proof -
  obtain vr where vr: "repo_get (job_repo S) s i = Inr (Some vr)" "decode_job CJ vr = Inr x"
    using assms(2) by (auto simp: required_job_def split: sum.splits option.splits)
  show "jtab s i = Some x" and "sj_id (st_job x) = i"
    using jobs.get_tab [OF assms(1) vr, unfolded jtab_def] by simp_all
qed

lemma required_attempt_atab:
  assumes "wf s" and "required_attempt S CT s i = Inr x"
  shows "atab s i = Some x" and "attempt_key x = i"
proof -
  obtain vr where vr: "repo_get (attempt_repo S) s i = Inr (Some vr)" "decode_attempt CT vr = Inr x"
    using assms(2) by (auto simp: required_attempt_def split: sum.splits option.splits)
  show "atab s i = Some x" and "attempt_key x = i"
    using attempts.get_tab [OF assms(1) vr, unfolded atab_def] by simp_all
qed

lemma jtab_version: "jtab s i = Some x \<Longrightarrow> major (sj_version (st_job x)) = major CURRENT_SCHEMA_VERSION"
  by (rule jobs.tab_good [unfolded jtab_def])

lemma atab_version: "atab s i = Some x \<Longrightarrow> major (ja_version (st_attempt x)) = major CURRENT_SCHEMA_VERSION"
  by (rule attempts.tab_good [unfolded atab_def])

lemma load_jobs_loaded:
  assumes "wf s" and "load_jobs S CJ s = Inr xs"
  shows "jobs.loaded_from s (filter P xs)"
proof -
  obtain rs where "repo_list (job_repo S) s = Inr rs" "collect_results (map (decode_job CJ) rs) = Inr xs"
    using assms(2) by (auto simp: load_jobs_def split: sum.splits)
  then show ?thesis by (rule jobs.loaded_from_filter [OF assms(1)])
qed

lemma load_attempts_loaded:
  assumes "wf s" and "load_attempts S CT s = Inr xs"
  shows "attempts.loaded_from s (filter P xs)" and "atab s j = Some x \<Longrightarrow> x \<in> set xs"
proof -
  obtain rs where rs: "repo_list (attempt_repo S) s = Inr rs" "collect_results (map (decode_attempt CT) rs) = Inr xs"
    using assms(2) by (auto simp: load_attempts_def split: sum.splits)
  show "attempts.loaded_from s (filter P xs)" by (rule attempts.loaded_from_filter [OF assms(1) rs])
  show "atab s j = Some x \<Longrightarrow> x \<in> set xs"
    using attempts.list_tab_complete [OF assms(1) rs, unfolded atab_def] by auto
qed

lemma loaded_job: "jobs.loaded_from s (x # xs) \<Longrightarrow> jtab s (sj_id (st_job x)) = Some x"
  using jobs.loaded_fromD(1) [of s x xs, unfolded jtab_def] by simp

lemma loaded_attempt: "attempts.loaded_from s (x # xs) \<Longrightarrow> atab s (attempt_key x) = Some x"
  using attempts.loaded_fromD(1) [of s x xs, unfolded atab_def] by simp

lemma put_job_effect:
  assumes "wf s" and "jtab s (sj_id (st_job x)) = Some x" and "sj_id y = sj_id (st_job x)"
    and "sj_version y = sj_version (st_job x)" and "put_job S CJ s (x\<lparr>st_job := y\<rparr>) = (res, s')"
  shows "wf s' \<and> atab s' = atab s \<and> present s' = present s
    \<and> (jtab s' = jtab s \<or> st_job_revision x < st_job_revision x + 1
        \<and> jtab s' = (jtab s)(sj_id (st_job x) \<mapsto> \<lparr>st_job = y, st_job_revision = st_job_revision x + 1\<rparr>))"
proof (cases "s' = s")
  case True
  then show ?thesis using assms(1) by simp
next
  case False
  let ?y = "\<lparr>st_job = y, st_job_revision = st_job_revision x + 1\<rparr>"
  obtain n where n: "sched_next_revision (st_job_revision x) = Inr n"
    using assms(5) False by (auto simp: put_job_def split: sum.splits)
  note n1 = sched_next_revision_eq [OF n]
  obtain vr where vr: "job_record CJ y (st_job_revision x + 1) = Inr vr"
    using assms(5) False n n1 by (auto simp: put_job_def split: sum.splits)
  obtain r0 where put: "repo_put (job_repo S) s vr (Exact (st_job_revision x)) = (r0, s')"
    using assms(5) n n1 vr by (auto simp: put_job_def split: prod.splits sum.splits)
  have rec: "job_record CJ (st_job ?y) (st_job_revision ?y) = Inr vr" using vr by simp
  have good: "major (sj_version (st_job ?y)) = major CURRENT_SCHEMA_VERSION"
    using jtab_version [OF assms(2)] assms(4) by simp
  have "views s' JobAttempts = views s JobAttempts" "views s' PendingActions = views s PendingActions"
    using put_frame [OF assms(1) put] by simp_all
  then show ?thesis
    using jobs.put_exact_tab [OF assms(1) rec good put, unfolded jtab_def] assms(3) by auto
qed

lemma put_job_spec:
  assumes "wf s" and "jtab s (sj_id (st_job x)) = Some x" and "job_moves env (st_job x) y"
    and "put_job S CJ s (x\<lparr>st_job := y\<rparr>) = (res, s')"
  shows "wf s' \<and> (sched_spec env config)\<^sup>*\<^sup>* (sabs s) (sabs s')"
proof -
  note put = put_job_effect [OF assms(1,2) job_moves_kept(1,4) [OF assms(3)] assms(4)]
  show ?thesis
  proof (cases "jtab s' = jtab s")
    case True
    then show ?thesis using put by simp
  next
    case False
    then have n: "st_job_revision x < st_job_revision x + 1" and
      upd: "jtab s' = (jtab s)(sj_id (st_job x) \<mapsto> \<lparr>st_job = y, st_job_revision = st_job_revision x + 1\<rparr>)"
      using put by blast+
    have "sched_spec env config (sabs s) (jtab s', atab s, present s)"
      unfolding upd
      using sched_spec.changed [of "jtab s" "sj_id (st_job x)" x env y _ config] assms(2,3) n by blast
    then show ?thesis using put by auto
  qed
qed

lemma put_attempt_effect:
  assumes "wf s" and "atab s (attempt_key x) = Some x" and "attempt_content y = attempt_content (st_attempt x)"
    and "put_attempt S CT s (x\<lparr>st_attempt := y\<rparr>) = (res, s')"
  shows "wf s' \<and> jtab s' = jtab s \<and> present s' = present s
    \<and> (atab s' = atab s \<and> (\<exists>e. res = Inl e) \<or> st_attempt_revision x < st_attempt_revision x + 1
        \<and> atab s' = (atab s)(attempt_key x \<mapsto> \<lparr>st_attempt = y, st_attempt_revision = st_attempt_revision x + 1\<rparr>)
        \<and> (\<forall>z. res = Inr z \<longrightarrow> z = \<lparr>st_attempt = y, st_attempt_revision = st_attempt_revision x + 1\<rparr>))"
proof (cases "s' = s \<and> (\<exists>e. res = Inl e)")
  case True
  then show ?thesis using assms(1) by simp
next
  case False
  let ?y = "\<lparr>st_attempt = y, st_attempt_revision = st_attempt_revision x + 1\<rparr>"
  obtain n where n: "sched_next_revision (st_attempt_revision x) = Inr n"
    using assms(4) False by (auto simp: put_attempt_def split: sum.splits)
  note n1 = sched_next_revision_eq [OF n]
  obtain vr where vr: "attempt_record CT y (st_attempt_revision x + 1) = Inr vr"
    using assms(4) False n n1 by (auto simp: put_attempt_def split: sum.splits)
  obtain r0 where put: "repo_put (attempt_repo S) s vr (Exact (st_attempt_revision x)) = (r0, s')"
    and res: "\<And>e. r0 = Inl e \<Longrightarrow> \<exists>e'. res = Inl e'" "\<And>z. res = Inr z \<Longrightarrow> z = ?y"
    using assms(4) n n1 vr by (auto simp: put_attempt_def split: prod.splits sum.splits)
  have rec: "attempt_record CT (st_attempt ?y) (st_attempt_revision ?y) = Inr vr" using vr by simp
  have good: "major (ja_version (st_attempt ?y)) = major CURRENT_SCHEMA_VERSION"
    using atab_version [OF assms(2)] attempt_contentD(5) [OF assms(3)] by simp
  have "views s' ScheduledJobs = views s ScheduledJobs" "views s' PendingActions = views s PendingActions"
    using put_frame [OF assms(1) put] by simp_all
  then show ?thesis
    using attempts.put_exact_tab [OF assms(1) rec good put, unfolded atab_def] res
      attempt_contentD(2) [OF assms(3)] by simp blast
qed

lemma put_attempt_spec:
  assumes "wf s" and "atab s (attempt_key x) = Some x" and "attempt_moves config (present s) (st_attempt x) y"
    and "put_attempt S CT s (x\<lparr>st_attempt := y\<rparr>) = (res, s')"
  shows "wf s' \<and> (sched_spec env config)\<^sup>*\<^sup>* (sabs s) (sabs s') \<and> jtab s' = jtab s
    \<and> (\<forall>j. j \<noteq> attempt_key x \<longrightarrow> atab s' j = atab s j)
    \<and> (\<forall>z. res = Inr z \<longrightarrow> st_attempt z = y \<and> atab s' (attempt_key x) = Some z)"
proof -
  note put = put_attempt_effect [OF assms(1,2) attempt_moves_content [OF assms(3)] assms(4)]
  show ?thesis
  proof (cases "atab s' = atab s \<and> (\<exists>e. res = Inl e)")
    case True
    then show ?thesis using put by auto
  next
    case False
    then have n: "st_attempt_revision x < st_attempt_revision x + 1" and
      upd: "atab s' = (atab s)(attempt_key x \<mapsto> \<lparr>st_attempt = y, st_attempt_revision = st_attempt_revision x + 1\<rparr>)"
      and res: "\<And>z. res = Inr z \<Longrightarrow> z = \<lparr>st_attempt = y, st_attempt_revision = st_attempt_revision x + 1\<rparr>"
      using put by blast+
    have s': "wf s'" "jtab s' = jtab s" "present s' = present s" using put by blast+
    have "sched_spec env config (sabs s) (sabs s')"
      unfolding s'(2,3) upd
      using sched_spec.moved [of "atab s" "attempt_key x" x config "present s" y] assms(2,3) n by blast
    then have "(sched_spec env config)\<^sup>*\<^sup>* (sabs s) (sabs s')" by (rule r_into_rtranclp)
    moreover have "st_attempt z = y \<and> atab s' (attempt_key x) = Some z" if "res = Inr z" for z
      using res [OF that] unfolding upd by simp
    moreover have "atab s' j = atab s j" if "j \<noteq> attempt_key x" for j using that unfolding upd by simp
    ultimately show ?thesis using s' by blast
  qed
qed

end

lemma add_attempts_mem:
  assumes "fresh_attempts A xs" and "x \<in> set xs"
  shows "add_attempts A xs (attempt_key x) = Some x"
  using assms
proof (induction xs arbitrary: A)
  case (Cons y ys)
  let ?A = "A(attempt_key y \<mapsto> y)"
  have fresh: "fresh_attempts ?A ys" using Cons.prems by simp
  show ?case
  proof (cases "x \<in> set ys")
    case True
    then show ?thesis unfolding add_attempts.simps by (rule Cons.IH [OF fresh])
  next
    case False
    then have "?A (attempt_key x) = Some x" using Cons.prems by simp
    then show ?thesis unfolding add_attempts.simps by (rule add_attempts_kept [OF fresh])
  qed
qed simp

lemma fresh_attempts_distinct: "fresh_attempts A xs \<Longrightarrow> distinct (map attempt_key xs) \<and> (\<forall>x \<in> set xs. A (attempt_key x) = None)"
proof (induction xs arbitrary: A)
  case (Cons y ys)
  let ?A = "A(attempt_key y \<mapsto> y)"
  have fresh: "fresh_attempts ?A ys" using Cons.prems by simp
  note ih = Cons.IH [OF fresh]
  have "attempt_key x \<noteq> attempt_key y \<and> A (attempt_key x) = None" if "x \<in> set ys" for x
  proof -
    have "?A (attempt_key x) = None" using ih that by blast
    then show ?thesis by (cases "attempt_key x = attempt_key y") simp_all
  qed
  then have "attempt_key y \<notin> attempt_key ` set ys" "\<forall>x \<in> set ys. A (attempt_key x) = None" by (metis imageE, blast)
  then show ?case using ih Cons.prems by simp
qed simp

lemma attempt_outcome_moves:
  assumes "attempt_outcome config now x result = Inr y" and "\<not> attempt_terminal (ja_state x)"
    and "\<And>status. result = Inr status \<Longrightarrow> P (ja_action_id x)"
  shows "attempt_moves config P x y"
  using assms
  by (cases result) (auto simp: attempt_outcome_def split: if_splits sum.splits intro: attempt_moves.intros)

lemma job_due_any: "job_due now sessions job \<Longrightarrow> job_due now None job"
  by (simp add: job_due_def session_selected_def)

context scheduler_store
begin

abbreviation runs where
  "runs env config s s' \<equiv> (sched_spec env config)\<^sup>*\<^sup>* (sabs s) (sabs s')"

lemma sink_spec:
  assumes "wf s" and "enqueue_action sink s a now = (res, s')"
  shows "wf s' \<and> jtab s' = jtab s \<and> atab s' = atab s \<and> runs env config s s'"
proof -
  have "wf s'" "jtab s' = jtab s" "atab s' = atab s" using sink_frame [OF assms] by simp_all
  moreover from this(2,3) have "sched_spec env config (sabs s) (sabs s')"
    using sched_spec.inbox [of "present s" "present s'"] sink_keeps [OF assms] by simp
  ultimately show ?thesis by blast
qed

lemma enqueue_attempt_spec:
  assumes "wf s" and "atab s (attempt_key x) = Some x" and "\<not> attempt_terminal (ja_state (st_attempt x))"
    and "enqueue_attempt S CJ CT sink config s x now = (res, s')"
  shows "wf s' \<and> runs env config s s' \<and> jtab s' = jtab s \<and> (\<forall>j. j \<noteq> attempt_key x \<longrightarrow> atab s' j = atab s j)"
proof (cases "s' = s")
  case True
  then show ?thesis using assms(1) by simp
next
  case False
  obtain job where job: "required_job S CJ s (ja_job_id (st_attempt x)) = Inr job"
    using assms(4) False by (auto simp: enqueue_attempt_def split: sum.splits)
  let ?a = "scheduled_action (st_job job) (st_attempt x) now"
  obtain r1 s1 where sink: "enqueue_action sink s ?a now = (r1, s1)" by fastforce
  note s1 = sink_spec [OF assms(1) sink, of env config]
  show ?thesis
  proof (cases "attempt_outcome config now (st_attempt x) r1")
    case (Inl e)
    then have "s' = s1" using assms(4) job sink by (simp add: enqueue_attempt_def)
    then show ?thesis using s1 by auto
  next
    case (Inr y)
    have "present s1 (ja_action_id (st_attempt x))" if "r1 = Inr status" for status
      using sink_accepts [OF assms(1) sink [unfolded that]] by (simp add: scheduled_action_def)
    then have moves: "attempt_moves config (present s1) (st_attempt x) y"
      using attempt_outcome_moves [OF Inr assms(3)] by blast
    obtain r2 where put: "put_attempt S CT s1 (x\<lparr>st_attempt := y\<rparr>) = (r2, s')"
      using assms(4) job sink Inr by (auto simp: enqueue_attempt_def split: prod.splits sum.splits)
    have at: "atab s1 (attempt_key x) = Some x" using s1 assms(2) by simp
    have wf1: "wf s1" using s1 by blast
    note s' = put_attempt_spec [OF wf1 at moves put, of env]
    have "runs env config s s'" using s1 s' by (meson rtranclp_trans)
    moreover have "jtab s' = jtab s" "\<forall>j. j \<noteq> attempt_key x \<longrightarrow> atab s' j = atab s j" using s1 s' by simp_all
    ultimately show ?thesis using s' by blast
  qed
qed

lemma enqueue_attempts_spec:
  assumes "wf s" and "attempts.loaded_from s xs" and "\<forall>x \<in> set xs. \<not> attempt_terminal (ja_state (st_attempt x))"
    and "enqueue_attempts S CJ CT sink config s xs now = (res, s')"
  shows "wf s' \<and> runs env config s s' \<and> jtab s' = jtab s"
  using assms
proof (induction xs arbitrary: s res)
  case Nil
  then show ?case by simp
next
  case (Cons x xs)
  obtain r1 s1 where e: "enqueue_attempt S CJ CT sink config s x now = (r1, s1)" by fastforce
  have live: "\<not> attempt_terminal (ja_state (st_attempt x))"
    "\<forall>x \<in> set xs. \<not> attempt_terminal (ja_state (st_attempt x))" using Cons.prems(3) by simp_all
  note s1 = enqueue_attempt_spec [OF Cons.prems(1) loaded_attempt [OF Cons.prems(2)] live(1) e, of env]
  show ?case
  proof (cases r1)
    case (Inl err)
    then have "s' = s1" using Cons.prems(4) e by simp
    then show ?thesis using s1 by auto
  next
    case (Inr a)
    obtain r2 where rest: "enqueue_attempts S CJ CT sink config s1 xs now = (r2, s')"
      using Cons.prems(4) e Inr by (auto split: prod.splits sum.splits)
    have loaded: "attempts.loaded_from s1 xs"
      by (rule attempts.loaded_from_tail [OF Cons.prems(2)]) (use s1 in \<open>simp add: atab_def\<close>)
    have wf1: "wf s1" using s1 by blast
    note ih = Cons.IH [OF wf1 loaded live(2) rest]
    have "runs env config s s'" using s1 ih by (meson rtranclp_trans)
    moreover have "jtab s' = jtab s" using ih s1 by simp
    ultimately show ?thesis using ih by blast
  qed
qed

lemma retry_attempts_spec:
  assumes "wf s" and "attempts.loaded_from s xs" and "\<forall>x \<in> set xs. attempt_due now (st_attempt x)"
    and "retry_attempts S CJ CT sink config s now xs = (res, s')"
  shows "wf s' \<and> runs env config s s'"
  using assms
proof (induction xs arbitrary: s res)
  case Nil
  then show ?case by simp
next
  case (Cons x xs)
  note x = loaded_attempt [OF Cons.prems(2)]
  have due: "attempt_due now (st_attempt x)" and dues: "\<forall>x \<in> set xs. attempt_due now (st_attempt x)"
    using Cons.prems(3) by simp_all
  have live: "\<not> attempt_terminal (ja_state (st_attempt x))" using due by (auto simp: attempt_due_def attempt_terminal_def)
  obtain r1 s1 where r1: "(if ja_state (st_attempt x) = AttemptClaimed
      then put_attempt S CT s (x\<lparr>st_attempt := recover_claim now (st_attempt x)\<rparr>) else (Inr x, s)) = (r1, s1)"
    by fastforce
  have s1: "wf s1 \<and> runs env config s s1 \<and> (\<forall>j. j \<noteq> attempt_key x \<longrightarrow> atab s1 j = atab s j)
    \<and> (\<forall>z. r1 = Inr z \<longrightarrow> attempt_key z = attempt_key x \<and> \<not> attempt_terminal (ja_state (st_attempt z))
          \<and> atab s1 (attempt_key x) = Some z)"
  proof (cases "ja_state (st_attempt x) = AttemptClaimed")
    case True
    have moves: "attempt_moves config (present s) (st_attempt x) (recover_claim now (st_attempt x))"
      using True due by (intro attempt_moves.recovered) (auto simp: attempt_due_def)
    have put: "put_attempt S CT s (x\<lparr>st_attempt := recover_claim now (st_attempt x)\<rparr>) = (r1, s1)" using r1 True by simp
    have "attempt_key z = attempt_key x \<and> \<not> attempt_terminal (ja_state (st_attempt z))"
      if "st_attempt z = recover_claim now (st_attempt x)" for z
      using that by (simp add: recover_claim_def attempt_terminal_def)
    then show ?thesis using put_attempt_spec [OF Cons.prems(1) x moves put, of env] by blast
  next
    case False
    then have "r1 = Inr x" "s1 = s" using r1 by simp_all
    then show ?thesis using Cons.prems(1) x live by simp
  qed
  show ?case
  proof (cases r1)
    case (Inl err)
    then show ?thesis using Cons.prems(4) r1 s1 by simp
  next
    case (Inr z)
    then have z: "wf s1" "atab s1 (attempt_key z) = Some z" "\<not> attempt_terminal (ja_state (st_attempt z))"
      "attempt_key z = attempt_key x" using s1 by auto
    obtain r2 s2 where e: "enqueue_attempt S CJ CT sink config s1 z now = (r2, s2)" by fastforce
    note s2 = enqueue_attempt_spec [OF z(1-3) e, of env]
    have run2: "runs env config s s2" using s1 s2 by (meson rtranclp_trans)
    show ?thesis
    proof (cases r2)
      case (Inl err)
      then show ?thesis using Cons.prems(4) r1 Inr e s2 run2 by simp
    next
      case (Inr a)
      obtain r3 where rest: "retry_attempts S CJ CT sink config s2 now xs = (r3, s')"
        using Cons.prems(4) r1 \<open>r1 = Inr z\<close> e Inr by (auto split: prod.splits sum.splits)
      have loaded: "attempts.loaded_from s2 xs"
        by (rule attempts.loaded_from_tail [OF Cons.prems(2)]) (use s1 s2 z(4) in \<open>simp add: atab_def\<close>)
      have wf2: "wf s2" using s2 by blast
      show ?thesis using Cons.IH [OF wf2 loaded dues rest] run2 by (meson rtranclp_trans)
    qed
  qed
qed

lemma claim_attempts_effect:
  assumes "wf s" and "claim_attempts CT config job claimant now ids k made ts = Inr (m, xs, ms)"
    and "mutations_effect ms V V'"
  shows "numbered_attempts job made ts xs \<and> m = made + of_nat (length xs)
    \<and> fresh_attempts (attempts_of CT (V JobAttempts)) xs
    \<and> attempts_of CT (V' JobAttempts) = add_attempts (attempts_of CT (V JobAttempts)) xs
    \<and> (\<forall>c. c \<noteq> JobAttempts \<longrightarrow> V' c = V c)"
  using assms(2,3)
proof (induction ts arbitrary: k made m xs ms V)
  case Nil
  then show ?case by simp
next
  case (Cons t ts)
  obtain made' expires where n: "checked_succ_u32 made = Some made'" and ex: "add_millis now (claim_ttl_ms config) = Inr expires"
    using Cons.prems(1) by (auto split: option.splits sum.splits)
  note n1 = checked_succ_u32_Some [OF n]
  let ?a = "new_attempt job made' (ids k) claimant t expires now"
  let ?x = "\<lparr>st_attempt = ?a, st_attempt_revision = revision_zero\<rparr>"
  obtain vr where vr: "attempt_record CT ?a revision_zero = Inr vr"
    using Cons.prems(1) n ex by (auto simp: Let_def split: sum.splits)
  obtain ys ns where rest: "claim_attempts CT config job claimant now ids (Suc k) made' ts = Inr (m, ys, ns)"
    and xs: "xs = ?x # ys" and ms: "ms = Put JobAttempts vr Missing # ns"
    using Cons.prems(1) n ex vr by (auto simp: Let_def split: sum.splits)
  obtain W where put: "put_effect (V JobAttempts) vr Missing (W JobAttempts)"
    and frame: "\<And>c. c \<noteq> JobAttempts \<Longrightarrow> W c = V c" and W: "mutations_effect ns W V'"
    using Cons.prems(2) ms by auto
  have rec: "attempt_record CT (st_attempt ?x) (st_attempt_revision ?x) = Inr vr" using vr by simp
  have good: "major (ja_version (st_attempt ?x)) = major CURRENT_SCHEMA_VERSION" by simp
  have tabW: "attempts_of CT (W JobAttempts) = (attempts_of CT (V JobAttempts))(attempt_key ?x \<mapsto> ?x)"
    using attempts.put_effect_tab [OF assms(1) rec good put, unfolded atab_def] .
  have free: "attempts_of CT (V JobAttempts) (attempt_key ?x) = None"
    using attempts.put_effect_new_tab [OF rec put, unfolded atab_def] .
  have "unat made' < 2 ^ 32" using unsigned_less [of made'] by simp
  then have room: "unat made + 1 < 2 ^ 32" using n1(2) by simp
  have "\<exists>new_ids claimant expires now. ?x
      = \<lparr>st_attempt = new_attempt job (made + 1) new_ids claimant t expires now, st_attempt_revision = 0\<rparr>"
    unfolding n1(1) revision_zero_def by blast
  then have "numbered_attempts job made (t # ts) xs"
    unfolding xs numbered_attempts.simps using Cons.IH [OF rest W] n1(1) room by blast
  moreover have "m = made + of_nat (length xs)" using Cons.IH [OF rest W] n1(1) xs by simp
  moreover have "fresh_attempts (attempts_of CT (V JobAttempts)) xs"
    unfolding xs fresh_attempts.simps using free Cons.IH [OF rest W] unfolding tabW by blast
  moreover have "attempts_of CT (V' JobAttempts) = add_attempts (attempts_of CT (V JobAttempts)) xs"
    unfolding xs add_attempts.simps using Cons.IH [OF rest W] unfolding tabW by blast
  moreover have "\<forall>c. c \<noteq> JobAttempts \<longrightarrow> V' c = V c" using Cons.IH [OF rest W] frame by simp
  ultimately show ?case by blast
qed

lemma claim_job_spec:
  assumes "wf s" and "jtab s (sj_id (st_job x)) = Some x" and "job_due now sessions (st_job x)"
    and "claim_job env S CJ CT config s x claimant now ids = (res, s')"
  shows "wf s' \<and> runs env config s s' \<and> (\<forall>i. i \<noteq> sj_id (st_job x) \<longrightarrow> jtab s' i = jtab s i)
    \<and> (\<forall>xs. res = Inr xs \<longrightarrow> attempts.loaded_from s' xs
          \<and> (\<forall>a \<in> set xs. \<not> attempt_terminal (ja_state (st_attempt a))))"
proof (cases "s' = s \<and> (\<exists>e. res = Inl e)")
  case True
  then show ?thesis using assms(1) by auto
next
  case False
  obtain d where d: "due_decision env (st_job x) now (on_time_grace_ms config) = Inr d"
    using assms(4) False by (auto simp: claim_job_def split: sum.splits)
  obtain m xs ms where ca: "claim_attempts CT config (st_job x) claimant now ids 0 (sj_attempt_count (st_job x)) (dd_run d)
      = Inr (m, xs, ms)" using assms(4) False d by (auto simp: claim_job_def split: sum.splits)
  obtain n where n: "sched_next_revision (st_job_revision x) = Inr n"
    using assms(4) False d ca by (auto simp: claim_job_def split: sum.splits)
  obtain vr where vr: "job_record CJ (claimed_job (st_job x) m d now) n = Inr vr"
    using assms(4) False d ca n by (auto simp: claim_job_def split: sum.splits)
  obtain r0 where tr: "transact S s (Put ScheduledJobs vr (Exact (st_job_revision x)) # ms) = (r0, s')"
    and res: "\<And>e. r0 = Inl e \<Longrightarrow> \<exists>e'. res = Inl e'" "\<And>ys. res = Inr ys \<Longrightarrow> ys = xs"
    using assms(4) d ca n vr by (auto simp: claim_job_def split: prod.splits sum.splits)
  note eff = transact_effect [OF assms(1) tr]
  show ?thesis
  proof (cases "views s' = views s \<and> (\<exists>e. r0 = Inl e)")
    case True
    then show ?thesis using eff res(1) by auto
  next
    case False
    let ?y = "\<lparr>st_job = claimed_job (st_job x) m d now, st_job_revision = n\<rparr>"
    obtain W where put: "put_effect (views s ScheduledJobs) vr (Exact (st_job_revision x)) (W ScheduledJobs)"
      and frame: "\<And>c. c \<noteq> ScheduledJobs \<Longrightarrow> W c = views s c" and W: "mutations_effect ms W (views s')"
      using eff False by auto
    note att = claim_attempts_effect [OF assms(1) ca W]
    have rec: "job_record CJ (st_job ?y) (st_job_revision ?y) = Inr vr" using vr by simp
    have good: "major (sj_version (st_job ?y)) = major CURRENT_SCHEMA_VERSION"
      using jtab_version [OF assms(2)] by (simp add: claimed_job_def)
    have key: "sj_id (st_job ?y) = sj_id (st_job x)" by (simp add: claimed_job_def)
    have "jobs_of CJ (W ScheduledJobs) = (jtab s)(sj_id (st_job x) \<mapsto> ?y)"
      using jobs.put_effect_tab [OF assms(1) rec good put, unfolded jtab_def] key by simp
    then have J: "jtab s' = (jtab s)(sj_id (st_job x) \<mapsto> ?y)" using att by simp
    have A: "atab s' = add_attempts (atab s) xs" and P: "present s' = present s"
      and num: "numbered_attempts (st_job x) (sj_attempt_count (st_job x)) (dd_run d) xs"
      and m: "m = sj_attempt_count (st_job x) + of_nat (length xs)" and fresh: "fresh_attempts (atab s) xs"
      using att frame [of JobAttempts] frame [of PendingActions] by simp_all
    have less: "st_job_revision x < n" using jobs.put_effect_exact_tab [OF rec put] by simp
    have "sched_spec env config (sabs s) (sabs s')"
      unfolding J A P m
      using sched_spec.claimed [of "jtab s" "sj_id (st_job x)" x now env config d xs "atab s" n "present s"]
        assms(2) job_due_any [OF assms(3)] d num fresh less by blast
    moreover have "attempts.loaded_from s' xs"
      unfolding attempts.loaded_from_def atab_def A using add_attempts_mem [OF fresh] fresh_attempts_distinct [OF fresh]
      by (simp add: comp_def)
    moreover have "\<not> attempt_terminal (ja_state (st_attempt a))" if "a \<in> set xs" for a
      using numbered_attempts_mem [OF num that] by (simp add: attempt_terminal_def)
    moreover have "jtab s' i = jtab s i" if "i \<noteq> sj_id (st_job x)" for i using that unfolding J by simp
    moreover have "wf s'" using eff by blast
    ultimately show ?thesis using res(2) by blast
  qed
qed

lemma tick_jobs_spec:
  assumes "wf s" and "jobs.loaded_from s xs" and "\<forall>x \<in> set xs. job_due now sessions (st_job x)"
    and "tick_jobs env S CJ CT sink config s claimant now ids processed xs = (res, s')"
  shows "wf s' \<and> runs env config s s'"
  using assms
proof (induction xs arbitrary: s processed res)
  case Nil
  then show ?case by simp
next
  case (Cons x xs)
  have due: "job_due now sessions (st_job x)" and dues: "\<forall>x \<in> set xs. job_due now sessions (st_job x)"
    using Cons.prems(3) by simp_all
  obtain r1 s1 where c: "claim_job env S CJ CT config s x claimant now (ids (sj_id (st_job x))) = (r1, s1)" by fastforce
  note s1 = claim_job_spec [OF Cons.prems(1) loaded_job [OF Cons.prems(2)] due c]
  have wf1: "wf s1" using s1 by blast
  have loaded: "jobs.loaded_from t xs" if "jtab t = jtab s1" for t
    by (rule jobs.loaded_from_tail [OF Cons.prems(2)]) (use s1 that in \<open>simp add: jtab_def\<close>)
  show ?case
  proof (cases r1)
    case (Inl e)
    show ?thesis
    proof (cases "\<exists>m. e = SchedulerRepository m")
      case True
      then have "tick_jobs env S CJ CT sink config s1 claimant now ids processed xs = (res, s')"
        using Cons.prems(4) c Inl by auto
      then show ?thesis using Cons.IH [OF wf1 loaded dues] s1 by (meson rtranclp_trans)
    next
      case False
      then have "s' = s1" using Cons.prems(4) c Inl by (cases e) auto
      then show ?thesis using s1 by simp
    qed
  next
    case (Inr as)
    obtain r2 s2 where e: "enqueue_attempts S CJ CT sink config s1 as now = (r2, s2)" by fastforce
    have as: "attempts.loaded_from s1 as" "\<forall>a \<in> set as. \<not> attempt_terminal (ja_state (st_attempt a))"
      using s1 Inr by blast+
    note s2 = enqueue_attempts_spec [OF wf1 as e, of env]
    have run2: "runs env config s s2" using s1 s2 by (meson rtranclp_trans)
    show ?thesis
    proof (cases r2)
      case (Inl err)
      then show ?thesis using Cons.prems(4) c Inr e s2 run2 by simp
    next
      case (Inr bs)
      have "tick_jobs env S CJ CT sink config s2 claimant now ids (processed @ bs) xs = (res, s')"
        using Cons.prems(4) c \<open>r1 = Inr as\<close> e Inr by simp
      moreover have "wf s2" "jobs.loaded_from s2 xs" using s2 loaded by blast+
      ultimately show ?thesis using Cons.IH [of s2] dues run2 by (meson rtranclp_trans)
    qed
  qed
qed

lemma tick_filtered_spec:
  assumes "wf s" and "tick_filtered env S CJ CT sink sched s claimant now sessions ids = (res, s')"
  shows "wf s' \<and> runs env (sched_config sched) s s'"
proof (cases "s' = s")
  case True
  then show ?thesis using assms(1) by simp
next
  case False
  obtain r1 s1 where retry: "retry_due S CJ CT sink (sched_config sched) s now sessions = (r1, s1)" by fastforce
  have s1: "wf s1 \<and> runs env (sched_config sched) s s1"
  proof (cases "s1 = s")
    case True
    then show ?thesis using assms(1) by simp
  next
    case False
    obtain as P where as: "load_attempts S CT s = Inr as"
      "retry_attempts S CJ CT sink (sched_config sched) s now
        (filter (\<lambda>x. attempt_due now (st_attempt x) \<and> P x) as) = (r1, s1)"
      using retry False by (auto simp: retry_due_def Let_def split: sum.splits if_splits)
    show ?thesis
      using retry_attempts_spec [OF assms(1) load_attempts_loaded(1) [OF assms(1) as(1)] _ as(2)] by simp
  qed
  show ?thesis
  proof (cases "s' = s1")
    case True
    then show ?thesis using s1 by simp
  next
    case other: False
    obtain processed jobs where jobs: "load_jobs S CJ s1 = Inr jobs"
      and tick: "tick_jobs env S CJ CT sink (sched_config sched) s1 claimant now ids processed
        (take (max_claims_per_tick (sched_config sched) - length processed)
          (filter (\<lambda>x. job_due now sessions (st_job x)) jobs)) = (res, s')"
      using assms(2) False retry other by (auto simp: tick_filtered_def split: if_splits sum.splits)
    have wf1: "wf s1" using s1 by blast
    have due: "\<forall>x \<in> set (take (max_claims_per_tick (sched_config sched) - length processed)
          (filter (\<lambda>x. job_due now sessions (st_job x)) jobs)). job_due now sessions (st_job x)"
      by (auto dest: in_set_takeD)
    show ?thesis
      using tick_jobs_spec [OF wf1 jobs.loaded_from_take [OF load_jobs_loaded [OF wf1 jobs]] due tick] s1
      by (meson rtranclp_trans)
  qed
qed

end

context scheduler_store
begin

lemma sched_create_spec:
  assumes "wf s" and "sched_create env S CJ s request now i = (res, s')"
    and "\<And>j x. atab s j = Some x \<Longrightarrow> ja_job_id (st_attempt x) \<noteq> i"
  shows "wf s' \<and> runs env config s s'"
proof (cases "s' = s")
  case True
  then show ?thesis using assms(1) by simp
next
  case False
  obtain next_run where v: "validate_schedule env (nj_schedule request) = Inr ()"
      "validate_scheduled_action (nj_action request) = Inr ()" "initial_run env (nj_schedule request) now = Inr next_run"
    using assms(2) False by (auto simp: sched_create_def split: sum.splits)
  let ?x = "\<lparr>st_job = new_job request now i next_run, st_job_revision = 0\<rparr>"
  obtain vr where vr: "job_record CJ (new_job request now i next_run) revision_zero = Inr vr"
    using assms(2) False v by (auto simp: sched_create_def split: sum.splits)
  obtain r0 where put: "repo_put (job_repo S) s vr Missing = (r0, s')"
    using assms(2) v vr by (auto simp: sched_create_def split: prod.splits sum.splits)
  have rec: "job_record CJ (st_job ?x) (st_job_revision ?x) = Inr vr" using vr by (simp add: revision_zero_def)
  have good: "major (sj_version (st_job ?x)) = major CURRENT_SCHEMA_VERSION" and key: "sj_id (st_job ?x) = i"
    by (simp_all add: new_job_def)
  note tab = jobs.put_new_tab [OF assms(1) rec good put, unfolded jtab_def key]
  have frame: "atab s' = atab s" "present s' = present s" using put_frame [OF assms(1) put] by simp_all
  show ?thesis
  proof (cases "jtab s' = jtab s")
    case True
    then show ?thesis using tab frame by auto
  next
    case False
    then have free: "jtab s i = None" and upd: "jtab s' = (jtab s)(i \<mapsto> ?x)" using tab by blast+
    have "sched_spec env config (sabs s) (sabs s')"
      unfolding frame upd using sched_spec.created [OF v, of "jtab s" i "atab s"] free assms(3) by blast
    then show ?thesis using tab by blast
  qed
qed

lemma change_state_spec:
  assumes "wf s" and "change_state S CJ sched s i next now = (res, s')"
  shows "wf s' \<and> runs env config s s'"
proof (cases "s' = s")
  case True
  then show ?thesis using assms(1) by simp
next
  case False
  obtain x where x: "required_job S CJ s i = Inr x"
      "(sj_state (st_job x), next) \<in> {(JobActive, JobPaused), (JobPaused, JobActive)}"
    using assms(2) False by (auto simp: change_state_def split: if_splits sum.splits)
  let ?y = "(st_job x)\<lparr>sj_state := next, sj_updated_at := now\<rparr>"
  obtain r1 where put: "put_job S CJ s (x\<lparr>st_job := ?y\<rparr>) = (r1, s')"
    using assms(2) False x by (auto simp: change_state_def split: if_splits sum.splits prod.splits)
  show ?thesis
    using put_job_spec [OF assms(1) _ job_moves.toggled [OF x(2)] put] required_job_jtab [OF assms(1) x(1)] by simp
qed

lemma sched_update_spec:
  assumes "wf s" and "sched_update env S CJ sched s i update now = (res, s')"
  shows "wf s' \<and> runs env config s s'"
proof (cases "s' = s")
  case True
  then show ?thesis using assms(1) by simp
next
  case False
  obtain x y r1 where x: "required_job S CJ s i = Inr x" "sj_state (st_job x) \<notin> {JobCompleted, JobCancelled}"
      "updated_job env update now (st_job x) = Inr y" "put_job S CJ s (x\<lparr>st_job := y\<rparr>) = (r1, s')"
    using assms(2) False by (auto simp: sched_update_def split: if_splits sum.splits prod.splits)
  show ?thesis
    using put_job_spec [OF assms(1) _ job_moves.updated [OF x(2,3)] x(4)] required_job_jtab [OF assms(1) x(1)] by simp
qed

lemma cancel_mutations_effect:
  assumes "wf s" and "cancel_mutations CT now xs = Inr ms" and "mutations_effect ms V V'"
    and "distinct (map attempt_key xs)"
    and "\<And>x. x \<in> set xs \<Longrightarrow> major (ja_version (st_attempt x)) = major CURRENT_SCHEMA_VERSION"
  shows "(\<forall>c. c \<noteq> JobAttempts \<longrightarrow> V' c = V c)
    \<and> (\<forall>j. j \<notin> attempt_key ` set xs \<longrightarrow> attempts_of CT (V' JobAttempts) j = attempts_of CT (V JobAttempts) j)
    \<and> (\<forall>x \<in> set xs. st_attempt_revision x < st_attempt_revision x + 1
         \<and> attempts_of CT (V' JobAttempts) (attempt_key x)
           = Some \<lparr>st_attempt = cancel_attempt now (st_attempt x), st_attempt_revision = st_attempt_revision x + 1\<rparr>)"
  using assms(2-5)
proof (induction xs arbitrary: ms V)
  case Nil
  then show ?case by simp
next
  case (Cons x xs)
  let ?y = "\<lparr>st_attempt = cancel_attempt now (st_attempt x), st_attempt_revision = st_attempt_revision x + 1\<rparr>"
  obtain n where n: "sched_next_revision (st_attempt_revision x) = Inr n"
    using Cons.prems(1) by (auto split: sum.splits)
  note n1 = sched_next_revision_eq [OF n]
  obtain vr ns where vr: "attempt_record CT (cancel_attempt now (st_attempt x)) (st_attempt_revision x + 1) = Inr vr"
    and rest: "cancel_mutations CT now xs = Inr ns"
    and ms: "ms = Put JobAttempts vr (Exact (st_attempt_revision x)) # ns"
    using Cons.prems(1) n n1 by (auto split: sum.splits)
  obtain W where put: "put_effect (V JobAttempts) vr (Exact (st_attempt_revision x)) (W JobAttempts)"
    and frame: "\<And>c. c \<noteq> JobAttempts \<Longrightarrow> W c = V c" and W: "mutations_effect ns W V'"
    using Cons.prems(2) ms by auto
  have rec: "attempt_record CT (st_attempt ?y) (st_attempt_revision ?y) = Inr vr" using vr by simp
  have same: "attempt_content (st_attempt ?y) = attempt_content (st_attempt x)" by simp
  have good: "major (ja_version (st_attempt ?y)) = major CURRENT_SCHEMA_VERSION"
    using Cons.prems(4) [of x] attempt_contentD(5) [OF same] by simp
  have key: "attempt_key ?y = attempt_key x" by (rule attempt_contentD(2) [OF same])
  have tab: "attempts_of CT (W JobAttempts) = (attempts_of CT (V JobAttempts))(attempt_key x \<mapsto> ?y)"
    using attempts.put_effect_tab [OF assms(1) rec good put, unfolded atab_def key] .
  have less: "st_attempt_revision x < st_attempt_revision x + 1"
    using attempts.put_effect_exact_tab [OF rec put] by simp
  have dist: "distinct (map attempt_key xs)" "attempt_key x \<notin> attempt_key ` set xs" using Cons.prems(3) by auto
  note ih = Cons.IH [OF rest W dist(1)]
  have ih': "\<forall>c. c \<noteq> JobAttempts \<longrightarrow> V' c = W c"
    "\<And>j. j \<notin> attempt_key ` set xs \<Longrightarrow> attempts_of CT (V' JobAttempts) j = attempts_of CT (W JobAttempts) j"
    "\<And>z. z \<in> set xs \<Longrightarrow> st_attempt_revision z < st_attempt_revision z + 1
         \<and> attempts_of CT (V' JobAttempts) (attempt_key z)
           = Some \<lparr>st_attempt = cancel_attempt now (st_attempt z), st_attempt_revision = st_attempt_revision z + 1\<rparr>"
    using ih Cons.prems(4) by auto
  have "attempts_of CT (V' JobAttempts) (attempt_key x) = Some ?y"
    unfolding ih'(2) [OF dist(2)] tab by simp
  moreover have "attempts_of CT (V' JobAttempts) j = attempts_of CT (V JobAttempts) j"
    if "j \<notin> attempt_key ` set (x # xs)" for j
    using that ih'(2) [of j] unfolding tab by simp
  ultimately show ?case using ih'(1,3) frame less by auto
qed

lemma sched_delete_spec:
  assumes "wf s" and "sched_delete S CJ CT sched s i now = (res, s')"
  shows "wf s' \<and> runs env config s s'"
proof (cases "s' = s")
  case True
  then show ?thesis using assms(1) by simp
next
  case False
  let ?P = "\<lambda>x. ja_job_id (st_attempt x) = i \<and> \<not> attempt_terminal (ja_state (st_attempt x))"
  obtain x as ms r0 where x: "required_job S CJ s i = Inr x" and as: "load_attempts S CT s = Inr as"
    and ms: "cancel_mutations CT now (filter ?P as) = Inr ms"
    and tr: "transact S s (Delete ScheduledJobs i (Exact (st_job_revision x)) # ms) = (r0, s')"
    using assms(2) False by (auto simp: sched_delete_def split: if_splits sum.splits prod.splits)
  note eff = transact_effect [OF assms(1) tr]
  show ?thesis
  proof (cases "views s' = views s")
    case True
    then show ?thesis using eff by simp
  next
    case False
    then obtain W where del: "delete_effect (views s ScheduledJobs) i (Exact (st_job_revision x)) (W ScheduledJobs)"
      and frame: "\<And>c. c \<noteq> ScheduledJobs \<Longrightarrow> W c = views s c" and W: "mutations_effect ms W (views s')"
      using eff by auto
    note loaded = load_attempts_loaded(1) [OF assms(1) as, of ?P, unfolded attempts.loaded_from_def atab_def]
    have dist: "distinct (map attempt_key (filter ?P as))" using loaded by (simp add: comp_def)
    have mem: "atab s (attempt_key a) = Some a" if "a \<in> set (filter ?P as)" for a using loaded that by simp
    note c = cancel_mutations_effect [OF assms(1) ms W dist atab_version [OF mem]]
    have Wa: "attempts_of CT (W JobAttempts) = atab s" using frame by simp
    have "atab s' j = cancel_attempts i now (atab s) j" for j
    proof (cases "\<exists>a. atab s j = Some a \<and> ?P a")
      case True
      then obtain a where a: "atab s j = Some a" "?P a" by blast
      have key: "attempt_key a = j" using attempts.tab_key [OF assms(1), unfolded atab_def, OF a(1)] .
      have "a \<in> set (filter ?P as)" using load_attempts_loaded(2) [OF assms(1) as a(1)] a(2) by simp
      then show ?thesis using c a key by (auto simp: cancel_attempts_def)
    next
      case False
      then have "j \<notin> attempt_key ` set (filter ?P as)" using mem by fastforce
      then have "atab s' j = atab s j" using c Wa by simp
      then show ?thesis using False by (cases "atab s j") (auto simp: cancel_attempts_def)
    qed
    then have A: "atab s' = cancel_attempts i now (atab s)" by (rule ext)
    have J: "jtab s' = (jtab s)(i := None)" and P: "present s' = present s"
      using jobs.delete_effect_tab [OF del, unfolded jtab_def] c frame by simp_all
    have less: "st_attempt_revision a < st_attempt_revision a + 1"
      if "atab s j = Some a" "ja_job_id (st_attempt a) = i" "\<not> attempt_terminal (ja_state (st_attempt a))" for j a
      using c load_attempts_loaded(2) [OF assms(1) as that(1)] that(2,3) by simp
    have "sched_spec env config (sabs s) (sabs s')"
      unfolding A J P
      using sched_spec.deleted [of "jtab s" i x "atab s"] required_job_jtab(1) [OF assms(1) x] less by blast
    then show ?thesis using eff by blast
  qed
qed

lemma failure_mutations_effect:
  assumes "wf s" and "failure_mutations S CJ s succeeded err now i = Inr ms" and "mutations_effect ms V V'"
    and "V ScheduledJobs = views s ScheduledJobs"
  shows "(\<forall>c. c \<noteq> ScheduledJobs \<longrightarrow> V' c = V c)
    \<and> (if succeeded then jobs_of CJ (V' ScheduledJobs) = jtab s
       else \<exists>z m. jtab s i = Some z \<and> st_job_revision z < m
         \<and> jobs_of CJ (V' ScheduledJobs) = (jtab s)(i \<mapsto> \<lparr>st_job = failed_job err now (st_job z), st_job_revision = m\<rparr>))"
proof (cases succeeded)
  case True
  then show ?thesis using assms by (simp add: failure_mutations_def)
next
  case False
  obtain z n vr where z: "required_job S CJ s i = Inr z" and n: "sched_next_revision (st_job_revision z) = Inr n"
    and vr: "job_record CJ (failed_job err now (st_job z)) n = Inr vr"
    and ms: "ms = [Put ScheduledJobs vr (Exact (st_job_revision z))]"
    using assms(2) False by (auto simp: failure_mutations_def split: sum.splits)
  let ?y = "\<lparr>st_job = failed_job err now (st_job z), st_job_revision = n\<rparr>"
  have put: "put_effect (views s ScheduledJobs) vr (Exact (st_job_revision z)) (V' ScheduledJobs)"
    and frame: "\<forall>c. c \<noteq> ScheduledJobs \<longrightarrow> V' c = V c" using assms(3,4) ms by auto
  have rec: "job_record CJ (st_job ?y) (st_job_revision ?y) = Inr vr" using vr by simp
  note tab = required_job_jtab [OF assms(1) z]
  have good: "major (sj_version (st_job ?y)) = major CURRENT_SCHEMA_VERSION" and key: "sj_id (st_job ?y) = i"
    using jtab_version [OF tab(1)] tab(2) by (simp_all add: failed_job_def)
  have "jobs_of CJ (V' ScheduledJobs) = (jtab s)(i \<mapsto> ?y)"
    using jobs.put_effect_tab [OF assms(1) rec good put, unfolded jtab_def key] .
  moreover have "st_job_revision z < n" using jobs.put_effect_exact_tab [OF rec put] by simp
  ultimately show ?thesis using tab(1) frame False by auto
qed

lemma finish_attempt_spec:
  assumes "wf s" and "finish_attempt S CJ CT sched s i succeeded err now = (res, s')"
  shows "wf s' \<and> runs env config s s'"
proof (cases "s' = s")
  case True
  then show ?thesis using assms(1) by simp
next
  case False
  obtain x where x: "required_attempt S CT s i = Inr x" "ja_state (st_attempt x) = AttemptEnqueued"
    using assms(2) False by (auto simp: finish_attempt_def split: if_splits sum.splits)
  let ?a = "finished_attempt succeeded err now (st_attempt x)"
  obtain n vr ms r0 where n: "sched_next_revision (st_attempt_revision x) = Inr n"
    and vr: "attempt_record CT ?a n = Inr vr"
    and ms: "failure_mutations S CJ s succeeded err now (ja_job_id ?a) = Inr ms"
    and tr: "transact S s (Put JobAttempts vr (Exact (st_attempt_revision x)) # ms) = (r0, s')"
    using assms(2) False x by (auto simp: finish_attempt_def Let_def split: if_splits sum.splits prod.splits)
  let ?y = "\<lparr>st_attempt = ?a, st_attempt_revision = n\<rparr>"
  note at = required_attempt_atab [OF assms(1) x(1)]
  note eff = transact_effect [OF assms(1) tr]
  show ?thesis
  proof (cases "views s' = views s")
    case True
    then show ?thesis using eff by simp
  next
    case False
    then obtain W where put: "put_effect (views s JobAttempts) vr (Exact (st_attempt_revision x)) (W JobAttempts)"
      and frame: "\<And>c. c \<noteq> JobAttempts \<Longrightarrow> W c = views s c" and W: "mutations_effect ms W (views s')"
      using eff by auto
    have same: "attempt_content (st_attempt ?y) = attempt_content (st_attempt x)" by simp
    have rec: "attempt_record CT (st_attempt ?y) (st_attempt_revision ?y) = Inr vr" using vr by simp
    have good: "major (ja_version (st_attempt ?y)) = major CURRENT_SCHEMA_VERSION" and key: "attempt_key ?y = i"
      using atab_version [OF at(1)] at(2) attempt_contentD(2,5) [OF same] by simp_all
    have tab: "attempts_of CT (W JobAttempts) = (atab s)(i \<mapsto> ?y)"
      using attempts.put_effect_tab [OF assms(1) rec good put, unfolded atab_def key] .
    have less: "st_attempt_revision x < n" using attempts.put_effect_exact_tab [OF rec put] by simp
    have job: "ja_job_id ?a = ja_job_id (st_attempt x)" using attempt_contentD(1) [OF same] by simp
    have Wj: "W ScheduledJobs = views s ScheduledJobs" using frame by simp
    note f = failure_mutations_effect [OF assms(1) ms W Wj, unfolded job]
    have A: "atab s' = (atab s)(i \<mapsto> ?y)" and P: "present s' = present s" using f tab frame by simp_all
    have J: "if succeeded then jtab s' = jtab s
       else \<exists>z m. jtab s (ja_job_id (st_attempt x)) = Some z \<and> st_job_revision z < m
         \<and> jtab s' = (jtab s)(ja_job_id (st_attempt x) \<mapsto> \<lparr>st_job = failed_job err now (st_job z), st_job_revision = m\<rparr>)"
      using f by (rule conjunct2)
    have "sched_spec env config (sabs s) (sabs s')"
      unfolding A P
      using at(1) x(2) less J by (rule sched_spec.finished [where A = "atab s" and J = "jtab s"])
    then show ?thesis using eff by blast
  qed
qed

lemma sched_op_spec:
  assumes "sched_op env S views wf CJ CT sink queued sched s s'" and "wf s"
  shows "wf s' \<and> runs env (sched_config sched) s s'"
  using assms
proof (induction rule: sched_op.induct)
  case (op_create s request now i res s')
  then show ?case using sched_create_spec by blast
next
  case (op_tick s claimant now sessions ids res s')
  then show ?case using tick_filtered_spec by blast
next
  case (op_state s i target now res s')
  then show ?case using change_state_spec by blast
next
  case (op_update s i update now res s')
  then show ?case using sched_update_spec by blast
next
  case (op_delete s i now res' s')
  then show ?case using sched_delete_spec by blast
next
  case (op_finish s i succeeded err now att s')
  then show ?case using finish_attempt_spec by blast
next
  case (op_elsewhere s' s)
  then have "sched_spec env (sched_config sched) (sabs s) (sabs s')"
    using sched_spec.inbox [of "present s" "present s'"] by simp
  then show ?case using op_elsewhere(1) by blast
qed

lemma sched_run_spec:
  assumes "(sched_op env S views wf CJ CT sink queued sched)\<^sup>*\<^sup>* s s'" and "wf s"
  shows "wf s' \<and> runs env (sched_config sched) s s'"
  using assms
proof (induction rule: rtranclp_induct)
  case (step t u)
  then show ?case by (meson sched_op_spec rtranclp_trans)
qed simp

end

section \<open>The scheduler on the embedded store, with the inbox as its sink\<close>

definition sched_wf ::
  "('j, 'b) store_env \<Rightarrow> (action_record, 'j) serde \<Rightarrow> (scheduled_job, 'j) serde \<Rightarrow> (job_attempt, 'j) serde \<Rightarrow>
   'b embedded_store \<Rightarrow> bool" where
  "sched_wf E CA CJ CT s \<longleftrightarrow> embedded_wf E s \<and> serde_ok CA \<and> serde_ok CJ \<and> serde_ok CT"

lemma sched_wf_inbox: "sched_wf E CA CJ CT s \<Longrightarrow> typed_wf E CA s"
  by (simp add: sched_wf_def typed_wf_def)

lemma embedded_sched_laws:
  "state_repository_laws (embedded_state E) (\<lambda>s c. embedded_view E c s) (sched_wf E CA CJ CT)"
  using state_repository_laws_guarded [OF embedded_all.state_repository_laws_axioms, of E "serde_ok CA \<and> serde_ok CJ \<and> serde_ok CT"]
  by (simp add: sched_wf_def [abs_def])

lemma inbox_enqueue_effect:
  assumes "typed_wf E C s"
    and "inbox_enqueue (embedded_repository E PendingActions) C U inbox s a now = (res, s')"
  shows "typed_wf E C s' \<and> (\<forall>d. d \<noteq> PendingActions \<longrightarrow> embedded_view E d s' = embedded_view E d s)
    \<and> inbox_runs E C inbox s s' \<and> (\<forall>st. res = Inr st \<longrightarrow> inbox_actions E C s' (sa_id a) \<noteq> None)"
proof -
  obtain res' where "inbox_enqueue_wake (embedded_repository E PendingActions) C U inbox s a now = (res', s')"
    and "(\<exists>st. res = Inr st) \<longleftrightarrow> (\<exists>st. res' = Inr st)"
    using assms(2)
    by (auto simp: inbox_enqueue_def inbox_enqueue_wake_def split: sum.splits option.splits prod.splits)
  then show ?thesis using inbox_enqueue_wake_effect [OF assms(1)] by fastforce
qed

interpretation scheduling: scheduler_store "embedded_state E" "\<lambda>s c. embedded_view E c s" "sched_wf E CA CJ CT"
  CJ CT "inbox_action_sink (embedded_repository E PendingActions) CA U inbox" "\<lambda>v i. actions_of CA v i \<noteq> None"
  for E CA CJ CT U inbox
proof (intro scheduler_store.intro embedded_sched_laws scheduler_store_axioms.intro)
  fix s a now res s' i status
  show "sched_wf E CA CJ CT s \<Longrightarrow> serde_ok CJ \<and> serde_ok CT" by (simp add: sched_wf_def)
  have effect: "typed_wf E CA s' \<and> (\<forall>d. d \<noteq> PendingActions \<longrightarrow> embedded_view E d s' = embedded_view E d s)
    \<and> inbox_runs E CA inbox s s' \<and> (\<forall>st. res = Inr st \<longrightarrow> inbox_actions E CA s' (sa_id a) \<noteq> None)"
    if "sched_wf E CA CJ CT s"
      "enqueue_action (inbox_action_sink (embedded_repository E PendingActions) CA U inbox) s a now = (res, s')"
    for s' res
    using inbox_enqueue_effect [OF sched_wf_inbox [OF that(1)]] that(2) by (simp add: inbox_action_sink_def)
  show "sched_wf E CA CJ CT s' \<and> embedded_view E ScheduledJobs s' = embedded_view E ScheduledJobs s
      \<and> embedded_view E JobAttempts s' = embedded_view E JobAttempts s"
    if "sched_wf E CA CJ CT s"
      "enqueue_action (inbox_action_sink (embedded_repository E PendingActions) CA U inbox) s a now = (res, s')"
    using effect [OF that] that(1) by (simp add: sched_wf_def typed_wf_def)
  show "inbox_actions E CA s' i \<noteq> None"
    if "sched_wf E CA CJ CT s"
      "enqueue_action (inbox_action_sink (embedded_repository E PendingActions) CA U inbox) s a now = (res, s')"
      "inbox_actions E CA s i \<noteq> None"
    using effect [OF that(1,2)] inbox_runs_present [OF sched_wf_inbox [OF that(1)] _ that(3)] by blast
  show "inbox_actions E CA s' (sa_id a) \<noteq> None"
    if "sched_wf E CA CJ CT s"
      "enqueue_action (inbox_action_sink (embedded_repository E PendingActions) CA U inbox) s a now = (Inr status, s')"
    using effect [OF that] by blast
qed

text \<open>The scheduler and the inbox running side by side on one store.\<close>

abbreviation stored_jobs where
  "stored_jobs E CJ s \<equiv> jobs_of CJ (embedded_view E ScheduledJobs s)"

abbreviation stored_attempts where
  "stored_attempts E CT s \<equiv> attempts_of CT (embedded_view E JobAttempts s)"

abbreviation sched_table where
  "sched_table E CA CJ CT s \<equiv>
     (stored_jobs E CJ s, stored_attempts E CT s, \<lambda>i. inbox_actions E CA s i \<noteq> None)"

inductive sched_step for env E CA CJ CT U sched inbox where
  scheduler_step: "sched_op env (embedded_state E) (\<lambda>s c. embedded_view E c s) (sched_wf E CA CJ CT) CJ CT
       (inbox_action_sink (embedded_repository E PendingActions) CA U inbox) (\<lambda>v i. actions_of CA v i \<noteq> None)
       sched s s' \<Longrightarrow> sched_step env E CA CJ CT U sched inbox s s'"
| inbox_step: "inbox_op (embedded_repository E PendingActions) (embedded_view E PendingActions)
       (typed_wf E CA) CA inbox s s' \<Longrightarrow> sched_wf E CA CJ CT s' \<Longrightarrow>
     embedded_view E ScheduledJobs s' = embedded_view E ScheduledJobs s \<Longrightarrow>
     embedded_view E JobAttempts s' = embedded_view E JobAttempts s \<Longrightarrow>
     sched_step env E CA CJ CT U sched inbox s s'"

lemma sched_step_op:
  assumes "sched_step env E CA CJ CT U sched inbox s s'" and "sched_wf E CA CJ CT s"
  shows "sched_op env (embedded_state E) (\<lambda>s c. embedded_view E c s) (sched_wf E CA CJ CT) CJ CT
       (inbox_action_sink (embedded_repository E PendingActions) CA U inbox) (\<lambda>v i. actions_of CA v i \<noteq> None)
       sched s s'"
  using assms(1)
proof (cases rule: sched_step.cases)
  case inbox_step
  then show ?thesis
    using inbox_runs_present [OF sched_wf_inbox [OF assms(2)] r_into_rtranclp [where r = "inbox_op _ _ _ _ _"]]
    by (intro sched_op.op_elsewhere) auto
qed

section \<open>Properties of the scheduler\<close>

lemma sched_steps_spec:
  assumes "(sched_step env E CA CJ CT U sched inbox)\<^sup>*\<^sup>* s s'" and "sched_wf E CA CJ CT s"
  shows "sched_wf E CA CJ CT s' \<and> (sched_spec env (sched_config sched))\<^sup>*\<^sup>*
    (sched_table E CA CJ CT s) (sched_table E CA CJ CT s')"
  using assms
proof (induction rule: rtranclp_induct)
  case (step t u)
  then show ?case
    using scheduling.sched_op_spec [OF sched_step_op [OF step(2)]] by (meson rtranclp_trans)
qed simp

text \<open>A concrete schedule and store, used to instantiate the hypotheses.\<close>

type_synonym sched_payload = "action_record + scheduled_job + job_attempt"

definition job_serde :: "(scheduled_job, sched_payload) serde" where
  "job_serde = \<lparr>to_value = (\<lambda>x. Inr (Inr (Inl x))),
     from_value = (\<lambda>j. case j of Inr (Inl x) \<Rightarrow> Inr x | _ \<Rightarrow> Inl [])\<rparr>"

definition attempt_serde :: "(job_attempt, sched_payload) serde" where
  "attempt_serde = \<lparr>to_value = (\<lambda>x. Inr (Inr (Inr x))),
     from_value = (\<lambda>j. case j of Inr (Inr x) \<Rightarrow> Inr x | _ \<Rightarrow> Inl [])\<rparr>"

lemma empty_store_sched_wf [simp]: "sched_wf plain_env left_serde job_serde attempt_serde empty_store"
  by (simp add: sched_wf_def) (auto simp: serde_ok_def job_serde_def attempt_serde_def)

definition sample_schedule :: "schedule_spec \<Rightarrow> new_scheduled_job" where
  "sample_schedule schedule = \<lparr>nj_profile_id = EntityId 7, nj_session_id = EntityId 9, nj_schedule = schedule,
     nj_action = ContinueGoal (EntityId 5), nj_limits = action_limits_default, nj_reply_route = None,
     nj_missed_run = RunOnce\<rparr>"

abbreviation sample_state :: "(sched_payload embedded_store, sched_payload, store_error) state_repository" where
  "sample_state \<equiv> embedded_state plain_env"

abbreviation sample_action_sink :: "sched_payload embedded_store action_sink" where
  "sample_action_sink \<equiv>
     inbox_action_sink (embedded_repository plain_env PendingActions) left_serde unary_ulid sample_inbox"

definition sample_scheduler :: scheduler where
  "sample_scheduler = \<lparr>sched_config = scheduler_config_default, sched_poisoned = False\<rparr>"

definition sample_ids :: "job_id \<Rightarrow> nat \<Rightarrow> entity_id \<times> action_id" where
  "sample_ids i k = (EntityId (of_nat (2 * k + 4)), EntityId (of_nat (2 * k + 5)))"

definition sample_scheduled :: "sched_payload embedded_store" where
  "sample_scheduled = snd (sched_create utc_env sample_state job_serde empty_store
     (sample_schedule (Interval 1000 10)) 0 (EntityId 2))"

definition sample_ticked :: "(scheduler_error + job_attempt list) \<times> sched_payload embedded_store" where
  "sample_ticked = sched_tick utc_env sample_state job_serde attempt_serde sample_action_sink sample_scheduler
     sample_scheduled (EntityId 3) 20 sample_ids"

text \<open>A second job, whose interval does not fit a signed timestamp.\<close>

definition sample_oversized :: "(scheduler_error + scheduled_job) \<times> sched_payload embedded_store" where
  "sample_oversized = sched_create utc_env sample_state job_serde sample_scheduled
     (sample_schedule (Interval (2 ^ 63) 10)) 0 (EntityId 1)"

lemmas sched_eval = sched_create_def sched_tick_def tick_filtered_def retry_due_def load_attempts_def load_jobs_def
  claim_job_def due_decision_def due_occurrences_def due_loop.simps next_after_def
  initial_run_def validate_schedule_def validate_scheduled_action_def
  enqueue_attempt_def attempt_outcome_def put_attempt_def put_job_def required_job_def
  required_attempt_def decode_job_def decode_attempt_def job_record_def attempt_record_def
  sched_next_revision_def job_due_def session_selected_def claimed_job_def scheduled_action_def
  attempt_enqueued_def new_attempt_def new_job_def add_millis_def checked_succ_u32_def
  first_of_def last_of_def option_list_def missed_runs_def embedded_state_def
  inbox_action_sink_def inbox_enqueue_def action_get_def scheduler_config_default_def
  sample_schedule_def sample_scheduler_def sample_ids_def job_serde_def attempt_serde_def left_serde_def
  sample_eval jobs_of_def attempts_of_def checked_eval

lemma sample_scheduled_jobs:
  "stored_jobs plain_env job_serde sample_scheduled (EntityId 2)
   = Some \<lparr>st_job = new_job (sample_schedule (Interval 1000 10)) 0 (EntityId 2) (Some 10), st_job_revision = 0\<rparr>"
  by (simp add: sample_scheduled_def sched_eval)

lemma sample_ticked_attempts:
  "\<exists>x. stored_attempts plain_env attempt_serde (snd sample_ticked) (EntityId 4) = Some x
     \<and> ja_state (st_attempt x) = AttemptEnqueued \<and> ja_action_id (st_attempt x) = EntityId 5
     \<and> ja_job_id (st_attempt x) = EntityId 2 \<and> ja_ordinal (st_attempt x) = 1"
  by (simp add: sample_ticked_def sample_scheduled_def sched_eval)

lemma sched_runs_sample:
  "(sched_step utc_env plain_env left_serde job_serde attempt_serde unary_ulid sample_scheduler sample_inbox)\<^sup>*\<^sup>*
     empty_store sample_scheduled"
  "(sched_step utc_env plain_env left_serde job_serde attempt_serde unary_ulid sample_scheduler sample_inbox)\<^sup>*\<^sup>*
     sample_scheduled (snd sample_ticked)"
  unfolding sample_scheduled_def sample_ticked_def sched_tick_def
  by (rule r_into_rtranclp, rule sched_step.scheduler_step, rule sched_op.op_create, rule prod.collapse [symmetric],
      simp add: attempts_of_def,
      rule r_into_rtranclp, rule sched_step.scheduler_step, rule sched_op.op_tick, rule prod.collapse [symmetric])

lemma sched_run_inv:
  assumes "sched_wf E CA CJ CT s" and "stored_jobs E CJ s = Map.empty" and "stored_attempts E CT s = Map.empty"
    and "(sched_step env E CA CJ CT U sched inbox)\<^sup>*\<^sup>* s s'"
  shows "sched_inv (sched_config sched) (sched_table E CA CJ CT s')"
proof -
  have "sched_inv (sched_config sched) (sched_table E CA CJ CT s)"
    unfolding assms(2,3) by (rule sched_inv_empty)
  then show ?thesis using sched_spec_star_inv [OF conjunct2 [OF sched_steps_spec [OF assms(4,1)]]] by blast
qed

lemma empty_store_tables:
  "stored_jobs plain_env CJ empty_store = Map.empty" "stored_attempts plain_env CT empty_store = Map.empty"
  by (simp_all add: jobs_of_def attempts_of_def)

text \<open>C20. Every operation of the scheduler, alone or interleaved with the inbox's, whatever it returns
  and whichever write, transaction or enqueue fails, changes the jobs and attempts only as
  \<open>sched_spec\<close> allows: a job is claimed only when active and due, together with one new attempt per
  occurrence to run, an attempt is marked enqueued only when its action is in the inbox, and a
  deleted job takes its open attempts with it.\<close>

theorem scheduler_refines_spec:
  assumes "sched_wf E CA CJ CT s" and "(sched_step env E CA CJ CT U sched inbox)\<^sup>*\<^sup>* s s'"
  shows "sched_wf E CA CJ CT s' \<and> (sched_spec env (sched_config sched))\<^sup>*\<^sup>*
    (sched_table E CA CJ CT s) (sched_table E CA CJ CT s')"
  using sched_steps_spec assms by blast

theorem scheduler_refines_spec_witness:
  "(sched_spec utc_env scheduler_config_default)\<^sup>*\<^sup>* (Map.empty, Map.empty, \<lambda>i. False)
     (sched_table plain_env left_serde job_serde attempt_serde sample_scheduled)
   \<and> stored_jobs plain_env job_serde sample_scheduled (EntityId 2) \<noteq> None"
  using scheduler_refines_spec [OF empty_store_sched_wf sched_runs_sample(1)] sample_scheduled_jobs
  by (simp add: jobs_of_def attempts_of_def actions_of_def sample_scheduler_def)

text \<open>C21. The attempts of a job are numbered without gap or repetition: in every state reached from an
  empty schedule, a stored job with attempt count \<open>n\<close> has for each number from 1 to \<open>n\<close> exactly one
  attempt, and no attempt with another number.\<close>

theorem attempts_numbered:
  assumes "sched_wf E CA CJ CT s" and "stored_jobs E CJ s = Map.empty" and "stored_attempts E CT s = Map.empty"
    and "(sched_step env E CA CJ CT U sched inbox)\<^sup>*\<^sup>* s s'" and "stored_jobs E CJ s' i = Some x"
  shows "if 1 \<le> k \<and> k \<le> unat (sj_attempt_count (st_job x))
    then \<exists>!j. \<exists>a. stored_attempts E CT s' j = Some a \<and> ja_job_id (st_attempt a) = i
      \<and> unat (ja_ordinal (st_attempt a)) = k
    else \<nexists>j a. stored_attempts E CT s' j = Some a \<and> ja_job_id (st_attempt a) = i
      \<and> unat (ja_ordinal (st_attempt a)) = k"
proof (cases "1 \<le> k \<and> k \<le> unat (sj_attempt_count (st_job x))")
  case True
  note uniq = sched_invD(4) [OF sched_run_inv [OF assms(1-4)], unfolded ordinals_unique_def]
  obtain j a where a: "stored_attempts E CT s' j = Some a" "ja_job_id (st_attempt a) = i"
    "unat (ja_ordinal (st_attempt a)) = k"
    using sched_invD(3) [OF sched_run_inv [OF assms(1-4)] assms(5), unfolded numbering_def] True by blast
  have "l = j" if "stored_attempts E CT s' l = Some b" "ja_job_id (st_attempt b) = i"
    "unat (ja_ordinal (st_attempt b)) = k" for l b
    using uniq a that by (metis unsigned_word_eqI)
  then show ?thesis using True a by (intro if_bool_eq_conj [THEN iffD2]) blast
next
  case False
  then show ?thesis
    using sched_invD(3) [OF sched_run_inv [OF assms(1-4)] assms(5), unfolded numbering_def]
    by (simp only: if_False) blast
qed

theorem attempts_numbered_witness:
  "\<exists>!j. \<exists>a. stored_attempts plain_env attempt_serde (snd sample_ticked) j = Some a
     \<and> ja_job_id (st_attempt a) = EntityId 2 \<and> unat (ja_ordinal (st_attempt a)) = 1"
proof -
  have "\<exists>x. stored_jobs plain_env job_serde (snd sample_ticked) (EntityId 2) = Some x
      \<and> sj_attempt_count (st_job x) = 1"
    by (simp add: sample_ticked_def sample_scheduled_def sched_eval)
  then obtain x where x: "stored_jobs plain_env job_serde (snd sample_ticked) (EntityId 2) = Some x"
    "sj_attempt_count (st_job x) = 1" by blast
  show ?thesis
    using attempts_numbered [OF empty_store_sched_wf empty_store_tables rtranclp_trans [OF sched_runs_sample] x(1), of 1]
      x(2) by simp
qed

text \<open>C22. No run is lost or left behind: in every state reached from an empty schedule, an attempt that is
  enqueued or completed has its action in the inbox, an attempt still to be enqueued belongs to a
  stored job, and no attempt has been retried more often than configured.\<close>

theorem attempts_settled:
  assumes "sched_wf E CA CJ CT s" and "stored_jobs E CJ s = Map.empty" and "stored_attempts E CT s = Map.empty"
    and "(sched_step env E CA CJ CT U sched inbox)\<^sup>*\<^sup>* s s'" and "stored_attempts E CT s' j = Some a"
  shows "(ja_state (st_attempt a) \<in> {AttemptEnqueued, AttemptCompleted} \<longrightarrow>
        (\<exists>r. inbox_actions E CA s' (ja_action_id (st_attempt a)) = Some r))
    \<and> (ja_state (st_attempt a) \<in> {AttemptClaimed, AttemptRetryScheduled} \<longrightarrow>
        (\<exists>x. stored_jobs E CJ s' (ja_job_id (st_attempt a)) = Some x))
    \<and> ja_retry_count (st_attempt a) \<le> max_enqueue_retries (sched_config sched)"
  using sched_invD(5,6) [OF sched_run_inv [OF assms(1-4)] assms(5)]
  by (auto simp: attempt_ok_def attempt_terminal_def)

theorem attempts_settled_witness:
  "\<exists>r. inbox_actions plain_env left_serde (snd sample_ticked) (EntityId 5) = Some r"
proof -
  obtain a where a: "stored_attempts plain_env attempt_serde (snd sample_ticked) (EntityId 4) = Some a"
    "ja_state (st_attempt a) = AttemptEnqueued" "ja_action_id (st_attempt a) = EntityId 5"
    using sample_ticked_attempts by blast
  show ?thesis
    using attempts_settled [OF empty_store_sched_wf empty_store_tables rtranclp_trans [OF sched_runs_sample] a(1)] a(2,3)
    by simp
qed

text \<open>C23. Attempts are history: over any run an attempt stays stored with its job, number, occurrence and
  action, every change raises its revision, an enqueued attempt only completes or fails, and a
  completed, failed or cancelled attempt does not change at all.\<close>

theorem attempts_monotone:
  assumes "sched_wf E CA CJ CT s" and "(sched_step env E CA CJ CT U sched inbox)\<^sup>*\<^sup>* s s'"
    and "stored_attempts E CT s j = Some a"
  shows "\<exists>b. stored_attempts E CT s' j = Some b \<and> attempt_later a b"
  using sched_spec_star_later [OF conjunct2 [OF sched_steps_spec [OF assms(2,1)]], of j a] assms(3) by simp

definition sample_finished :: "(scheduler_error + job_attempt) \<times> sched_payload embedded_store" where
  "sample_finished = finish_attempt sample_state job_serde attempt_serde sample_scheduler (snd sample_ticked)
     (EntityId 4) True None 30"

theorem attempts_monotone_witness:
  "\<exists>a b. stored_attempts plain_env attempt_serde (snd sample_ticked) (EntityId 4) = Some a
     \<and> stored_attempts plain_env attempt_serde (snd sample_finished) (EntityId 4) = Some b \<and> attempt_later a b"
proof -
  obtain a where a: "stored_attempts plain_env attempt_serde (snd sample_ticked) (EntityId 4) = Some a"
    using sample_ticked_attempts by blast
  have wf: "sched_wf plain_env left_serde job_serde attempt_serde (snd sample_ticked)"
    using sched_steps_spec [OF rtranclp_trans [OF sched_runs_sample] empty_store_sched_wf] by blast
  have run: "(sched_step utc_env plain_env left_serde job_serde attempt_serde unary_ulid sample_scheduler sample_inbox)\<^sup>*\<^sup>*
     (snd sample_ticked) (snd sample_finished)"
    unfolding sample_finished_def
    by (rule r_into_rtranclp, rule sched_step.scheduler_step, rule sched_op.op_finish, rule prod.collapse [symmetric])
  show ?thesis using attempts_monotone [OF wf run a] a by blast
qed




end
