(* ===== verification/Resource_Model.thy ===== *)
theory Resource_Model
  imports State_Store
begin

text \<open>
  \<open>crates/resource-governor/src/model.rs\<close>: the scopes and kinds of governed resources, ceilings and
  policies, scope paths, requests and leases. Scopes, kinds and priorities carry the order their
  declarations derive.
\<close>

type_synonym root_tree_id = entity_id

section \<open>Scopes and kinds\<close>

datatype resource_scope =
    InstallationScope
  | WorkerScope root_tree_id
  | ProfileScope profile_id
  | TreeScope root_tree_id
  | SessionScope session_id
  | GoalScope goal_id
  | ActionScope action_id
  | ProviderAccountScope string string
  | ToolScope string
  | ChildScope session_id
  | KernelScope session_id
  | BrowserScope session_id
  | ProcessScope session_id
  | ChannelScope string
  | SchedulerScope profile_id
  | BackgroundScope profile_id

text \<open>The derived order compares the position of the constructor and then its fields.\<close>

fun scope_key :: "resource_scope \<Rightarrow> nat \<times> entity_id \<times> string \<times> string" where
  "scope_key InstallationScope = (0, EntityId 0, [], [])"
| "scope_key (WorkerScope i) = (1, i, [], [])"
| "scope_key (ProfileScope i) = (2, i, [], [])"
| "scope_key (TreeScope i) = (3, i, [], [])"
| "scope_key (SessionScope i) = (4, i, [], [])"
| "scope_key (GoalScope i) = (5, i, [], [])"
| "scope_key (ActionScope i) = (6, i, [], [])"
| "scope_key (ProviderAccountScope provider account) = (7, EntityId 0, provider, account)"
| "scope_key (ToolScope name) = (8, EntityId 0, name, [])"
| "scope_key (ChildScope i) = (9, i, [], [])"
| "scope_key (KernelScope i) = (10, i, [], [])"
| "scope_key (BrowserScope i) = (11, i, [], [])"
| "scope_key (ProcessScope i) = (12, i, [], [])"
| "scope_key (ChannelScope name) = (13, EntityId 0, name, [])"
| "scope_key (SchedulerScope i) = (14, i, [], [])"
| "scope_key (BackgroundScope i) = (15, i, [], [])"

lemma scope_key_inject [simp]: "scope_key s = scope_key t \<longleftrightarrow> s = t"
  by (cases s; cases t) simp_all

instantiation resource_scope :: linorder
begin

definition less_eq_resource_scope :: "resource_scope \<Rightarrow> resource_scope \<Rightarrow> bool" where
  "s \<le> t \<longleftrightarrow> scope_key s \<le> scope_key t"

definition less_resource_scope :: "resource_scope \<Rightarrow> resource_scope \<Rightarrow> bool" where
  "s < t \<longleftrightarrow> scope_key s < scope_key t"

instance
proof
  fix s t u :: resource_scope
  show "s < t \<longleftrightarrow> s \<le> t \<and> \<not> t \<le> s"
    unfolding less_eq_resource_scope_def less_resource_scope_def by (rule less_le_not_le)
  show "s \<le> s" by (simp add: less_eq_resource_scope_def)
  show "s \<le> t \<Longrightarrow> t \<le> u \<Longrightarrow> s \<le> u"
    unfolding less_eq_resource_scope_def by (rule order_trans)
  show "s \<le> t \<Longrightarrow> t \<le> s \<Longrightarrow> s = t"
    unfolding less_eq_resource_scope_def using antisym scope_key_inject by blast
  show "s \<le> t \<or> t \<le> s" unfolding less_eq_resource_scope_def by (rule linear)
qed

end

fun safe_label :: "ulid_codec \<Rightarrow> resource_scope \<Rightarrow> string" where
  "safe_label U InstallationScope = ''installation''"
| "safe_label U (WorkerScope i) = ''worker:'' @ entity_id_as_str U i"
| "safe_label U (ProfileScope i) = ''profile:'' @ entity_id_as_str U i"
| "safe_label U (TreeScope i) = ''tree:'' @ entity_id_as_str U i"
| "safe_label U (SessionScope i) = ''session:'' @ entity_id_as_str U i"
| "safe_label U (GoalScope i) = ''goal:'' @ entity_id_as_str U i"
| "safe_label U (ActionScope i) = ''action:'' @ entity_id_as_str U i"
| "safe_label U (ProviderAccountScope provider _) = ''provider:'' @ provider @ '':<redacted>''"
| "safe_label U (ToolScope name) = ''tool:'' @ name"
| "safe_label U (ChildScope i) = ''child:'' @ entity_id_as_str U i"
| "safe_label U (KernelScope i) = ''kernel:'' @ entity_id_as_str U i"
| "safe_label U (BrowserScope i) = ''browser:'' @ entity_id_as_str U i"
| "safe_label U (ProcessScope i) = ''process:'' @ entity_id_as_str U i"
| "safe_label U (ChannelScope name) = ''channel:'' @ name"
| "safe_label U (SchedulerScope i) = ''scheduler:'' @ entity_id_as_str U i"
| "safe_label U (BackgroundScope i) = ''background:'' @ entity_id_as_str U i"

datatype resource_kind =
    WorkersKind | ActiveSessionsKind | ProviderRequestsKind | SafeParallelToolsKind | ChildrenKind
  | RecursiveDepthKind | KernelsKind | BrowsersKind | ProcessesKind | ChannelsKind | SchedulesKind
  | BackgroundInitiativesKind | McpSessionsKind | EvolutionHypothesesKind | EvolutionShadowTreesKind
  | EvolutionBuildsKind | EvolutionCanariesKind | TokensKind | ModelCostMicrosKind | WallTimeMsKind
  | CpuTimeMsKind | ToolCallsKind | MemoryBytesKind | StorageBytesKind | NetworkBytesKind
  | RetriesKind | NotificationsKind

fun kind_index :: "resource_kind \<Rightarrow> nat" where
  "kind_index WorkersKind = 0"
| "kind_index ActiveSessionsKind = 1"
| "kind_index ProviderRequestsKind = 2"
| "kind_index SafeParallelToolsKind = 3"
| "kind_index ChildrenKind = 4"
| "kind_index RecursiveDepthKind = 5"
| "kind_index KernelsKind = 6"
| "kind_index BrowsersKind = 7"
| "kind_index ProcessesKind = 8"
| "kind_index ChannelsKind = 9"
| "kind_index SchedulesKind = 10"
| "kind_index BackgroundInitiativesKind = 11"
| "kind_index McpSessionsKind = 12"
| "kind_index EvolutionHypothesesKind = 13"
| "kind_index EvolutionShadowTreesKind = 14"
| "kind_index EvolutionBuildsKind = 15"
| "kind_index EvolutionCanariesKind = 16"
| "kind_index TokensKind = 17"
| "kind_index ModelCostMicrosKind = 18"
| "kind_index WallTimeMsKind = 19"
| "kind_index CpuTimeMsKind = 20"
| "kind_index ToolCallsKind = 21"
| "kind_index MemoryBytesKind = 22"
| "kind_index StorageBytesKind = 23"
| "kind_index NetworkBytesKind = 24"
| "kind_index RetriesKind = 25"
| "kind_index NotificationsKind = 26"

definition all_kinds :: "resource_kind list" where
  "all_kinds =
     [WorkersKind, ActiveSessionsKind, ProviderRequestsKind, SafeParallelToolsKind, ChildrenKind,
      RecursiveDepthKind, KernelsKind, BrowsersKind, ProcessesKind, ChannelsKind, SchedulesKind,
      BackgroundInitiativesKind, McpSessionsKind, EvolutionHypothesesKind, EvolutionShadowTreesKind,
      EvolutionBuildsKind, EvolutionCanariesKind, TokensKind, ModelCostMicrosKind, WallTimeMsKind,
      CpuTimeMsKind, ToolCallsKind, MemoryBytesKind, StorageBytesKind, NetworkBytesKind, RetriesKind,
      NotificationsKind]"

lemma all_kinds_nth: "all_kinds ! kind_index r = r"
  by (cases r) (simp_all add: all_kinds_def)

lemma kind_index_inject [simp]: "kind_index r = kind_index k \<longleftrightarrow> r = k"
  using all_kinds_nth by metis

declare kind_index.simps [simp del]

instantiation resource_kind :: linorder
begin

definition less_eq_resource_kind :: "resource_kind \<Rightarrow> resource_kind \<Rightarrow> bool" where
  "r \<le> k \<longleftrightarrow> kind_index r \<le> kind_index k"

definition less_resource_kind :: "resource_kind \<Rightarrow> resource_kind \<Rightarrow> bool" where
  "r < k \<longleftrightarrow> kind_index r < kind_index k"

instance
  by standard (auto simp: less_eq_resource_kind_def less_resource_kind_def dest: antisym)

end

definition concurrency_kinds :: "resource_kind list" where
  "concurrency_kinds =
     [WorkersKind, ActiveSessionsKind, ProviderRequestsKind, SafeParallelToolsKind, ChildrenKind,
      RecursiveDepthKind, KernelsKind, BrowsersKind, ProcessesKind, ChannelsKind, SchedulesKind,
      BackgroundInitiativesKind, McpSessionsKind, EvolutionHypothesesKind, EvolutionShadowTreesKind,
      EvolutionBuildsKind, EvolutionCanariesKind]"

definition is_concurrency :: "resource_kind \<Rightarrow> bool" where
  "is_concurrency r \<longleftrightarrow>
     r \<in> {WorkersKind, ActiveSessionsKind, ProviderRequestsKind, SafeParallelToolsKind, ChildrenKind,
          RecursiveDepthKind, KernelsKind, BrowsersKind, ProcessesKind, ChannelsKind, SchedulesKind,
          BackgroundInitiativesKind, McpSessionsKind, EvolutionHypothesesKind, EvolutionShadowTreesKind,
          EvolutionBuildsKind, EvolutionCanariesKind}"

lemma is_concurrency_kinds: "is_concurrency r \<longleftrightarrow> r \<in> set concurrency_kinds"
  by (simp add: is_concurrency_def concurrency_kinds_def)

text \<open>The derived \<open>Debug\<close> rendering of a concurrency kind, used in one message.\<close>

fun kind_debug :: "resource_kind \<Rightarrow> string" where
  "kind_debug WorkersKind = ''Workers''"
| "kind_debug ActiveSessionsKind = ''ActiveSessions''"
| "kind_debug ProviderRequestsKind = ''ProviderRequests''"
| "kind_debug SafeParallelToolsKind = ''SafeParallelTools''"
| "kind_debug ChildrenKind = ''Children''"
| "kind_debug RecursiveDepthKind = ''RecursiveDepth''"
| "kind_debug KernelsKind = ''Kernels''"
| "kind_debug BrowsersKind = ''Browsers''"
| "kind_debug ProcessesKind = ''Processes''"
| "kind_debug ChannelsKind = ''Channels''"
| "kind_debug SchedulesKind = ''Schedules''"
| "kind_debug BackgroundInitiativesKind = ''BackgroundInitiatives''"
| "kind_debug McpSessionsKind = ''McpSessions''"
| "kind_debug EvolutionHypothesesKind = ''EvolutionHypotheses''"
| "kind_debug EvolutionShadowTreesKind = ''EvolutionShadowTrees''"
| "kind_debug EvolutionBuildsKind = ''EvolutionBuilds''"
| "kind_debug EvolutionCanariesKind = ''EvolutionCanaries''"
| "kind_debug TokensKind = ''Tokens''"
| "kind_debug ModelCostMicrosKind = ''ModelCostMicros''"
| "kind_debug WallTimeMsKind = ''WallTimeMs''"
| "kind_debug CpuTimeMsKind = ''CpuTimeMs''"
| "kind_debug ToolCallsKind = ''ToolCalls''"
| "kind_debug MemoryBytesKind = ''MemoryBytes''"
| "kind_debug StorageBytesKind = ''StorageBytes''"
| "kind_debug NetworkBytesKind = ''NetworkBytes''"
| "kind_debug RetriesKind = ''Retries''"
| "kind_debug NotificationsKind = ''Notifications''"

section \<open>Policies\<close>

datatype work_priority = BackgroundWork | NormalWork | InteractiveWork

fun priority_index :: "work_priority \<Rightarrow> nat" where
  "priority_index BackgroundWork = 0"
| "priority_index NormalWork = 1"
| "priority_index InteractiveWork = 2"

instantiation work_priority :: linorder
begin

definition less_eq_work_priority :: "work_priority \<Rightarrow> work_priority \<Rightarrow> bool" where
  "p \<le> q \<longleftrightarrow> priority_index p \<le> priority_index q"

definition less_work_priority :: "work_priority \<Rightarrow> work_priority \<Rightarrow> bool" where
  "p < q \<longleftrightarrow> priority_index p < priority_index q"

instance
proof
  fix p q :: work_priority
  show "p \<le> q \<Longrightarrow> q \<le> p \<Longrightarrow> p = q" by (cases p; cases q) (auto simp: less_eq_work_priority_def)
qed (auto simp: less_eq_work_priority_def less_work_priority_def)

end

datatype exhaustion_behavior = PauseWork | FailWork

record resource_ceiling =
  rc_maximum :: u64
  rc_exhaustion :: exhaustion_behavior

record queue_ceiling =
  qc_maximum :: nat
  qc_interactive_reserve :: nat

datatype resource_error =
    ResourceInvalid string
  | ResourceDuplicate entity_id
  | ResourceMissing entity_id
  | ResourceQueueFull string work_priority
  | ResourceLockPoisoned
  | ResourceRepositoryError string
  | ResourceRepositoryConflict string
  | ResourceSerialize string

record resource_policy =
  rp_ceilings :: "((resource_scope \<times> resource_kind) \<times> resource_ceiling) list"
  rp_queue_ceilings :: "(resource_scope \<times> queue_ceiling) list"

definition policy_new ::
  "((resource_scope \<times> resource_kind) \<times> resource_ceiling) list \<Rightarrow> resource_error + resource_policy" where
  "policy_new ceilings =
     (if list_ex (\<lambda>c. rc_maximum c = 0) (bt_values ceilings)
      then Inl (ResourceInvalid ''resource ceilings must be non-zero'')
      else (case find (\<lambda>r. map_of ceilings (InstallationScope, r) = None) concurrency_kinds of
          Some r \<Rightarrow> Inl (ResourceInvalid (''installation ceiling is missing for '' @ kind_debug r))
        | None \<Rightarrow>
            Inr \<lparr>rp_ceilings = ceilings,
                 rp_queue_ceilings = [(InstallationScope, \<lparr>qc_maximum = 4096, qc_interactive_reserve = 256\<rparr>)]\<rparr>))"

definition with_queue_ceilings ::
  "resource_policy \<Rightarrow> (resource_scope \<times> queue_ceiling) list \<Rightarrow> resource_error + resource_policy" where
  "with_queue_ceilings policy queue_ceilings =
     (if map_of queue_ceilings InstallationScope = None
        \<or> list_ex (\<lambda>l. qc_maximum l = 0 \<or> qc_interactive_reserve l > qc_maximum l) (bt_values queue_ceilings)
      then Inl (ResourceInvalid
        ''queue ceilings require a non-zero installation bound and valid reserves'')
      else Inr (policy\<lparr>rp_queue_ceilings := queue_ceilings\<rparr>))"

definition policy_ceiling :: "resource_policy \<Rightarrow> resource_scope \<Rightarrow> resource_kind \<Rightarrow> resource_ceiling option" where
  "policy_ceiling policy scope resource = map_of (rp_ceilings policy) (scope, resource)"

definition policy_queue_ceiling :: "resource_policy \<Rightarrow> resource_scope \<Rightarrow> queue_ceiling option" where
  "policy_queue_ceiling policy scope = map_of (rp_queue_ceilings policy) scope"

text \<open>What the two constructors establish: every installation-wide concurrency resource is bounded,
  by a positive ceiling.\<close>

definition policy_ok :: "resource_policy \<Rightarrow> bool" where
  "policy_ok policy \<longleftrightarrow>
     (\<forall>c \<in> set (bt_values (rp_ceilings policy)). rc_maximum c \<noteq> 0)
     \<and> (\<forall>r. is_concurrency r \<longrightarrow> policy_ceiling policy InstallationScope r \<noteq> None)
     \<and> policy_queue_ceiling policy InstallationScope \<noteq> None
     \<and> (\<forall>l \<in> set (bt_values (rp_queue_ceilings policy)).
          qc_maximum l \<noteq> 0 \<and> qc_interactive_reserve l \<le> qc_maximum l)"

lemma policy_new_ok: "policy_new ceilings = Inr policy \<Longrightarrow> policy_ok policy"
  by (auto simp: policy_new_def policy_ok_def policy_ceiling_def policy_queue_ceiling_def list_ex_iff
      find_None_iff is_concurrency_kinds bt_values_def split: if_splits option.splits)

lemma with_queue_ceilings_ok:
  "with_queue_ceilings policy qs = Inr policy' \<Longrightarrow> policy_ok policy \<Longrightarrow> policy_ok policy'"
  by (auto simp: with_queue_ceilings_def policy_ok_def policy_ceiling_def policy_queue_ceiling_def list_ex_iff
      not_less split: if_splits)

section \<open>Paths, requests and leases\<close>

type_synonym scope_path = "resource_scope list"

definition scope_path_new :: "resource_scope list \<Rightarrow> resource_error + scope_path" where
  "scope_path_new scopes =
     (if (case scopes of [] \<Rightarrow> True | s # _ \<Rightarrow> s \<noteq> InstallationScope)
        \<or> length scopes > 32 \<or> card (set scopes) \<noteq> length scopes
      then Inl (ResourceInvalid
        ''scope path must start at installation and contain unique bounded scopes'')
      else Inr scopes)"

definition path_ok :: "scope_path \<Rightarrow> bool" where
  "path_ok path \<longleftrightarrow> distinct path \<and> InstallationScope \<in> set path \<and> length path \<le> 32"

lemma scope_path_new_ok: "scope_path_new scopes = Inr path \<Longrightarrow> path_ok path"
  by (auto simp: scope_path_new_def path_ok_def card_distinct split: if_splits list.splits)

fun path_tree :: "scope_path \<Rightarrow> root_tree_id option" where
  "path_tree [] = None"
| "path_tree (s # ss) = (case s of TreeScope i \<Rightarrow> Some i | _ \<Rightarrow> path_tree ss)"

fun path_session :: "scope_path \<Rightarrow> session_id option" where
  "path_session [] = None"
| "path_session (s # ss) = (case s of SessionScope i \<Rightarrow> Some i | _ \<Rightarrow> path_session ss)"

datatype reclaim_class =
  WorkerClass | ChildClass | KernelClass | BrowserClass | McpSessionClass | ToolProcessClass

fun class_resource :: "reclaim_class \<Rightarrow> resource_kind" where
  "class_resource WorkerClass = WorkersKind"
| "class_resource ChildClass = ChildrenKind"
| "class_resource KernelClass = KernelsKind"
| "class_resource BrowserClass = BrowsersKind"
| "class_resource McpSessionClass = McpSessionsKind"
| "class_resource ToolProcessClass = ProcessesKind"

record recovery_descriptor =
  rd_class :: reclaim_class
  rd_durable_state_id :: entity_id
  rd_resume_marker :: string

record acquire_request =
  rq_id :: entity_id
  rq_path :: scope_path
  rq_resource :: resource_kind
  rq_units :: u64
  rq_priority :: work_priority
  rq_recovery :: "recovery_descriptor option"
  rq_submitted_at :: timestamp
  rq_idle_timeout_ms :: u64

record resource_lease =
  ls_id :: entity_id
  ls_request :: acquire_request
  ls_acquired_at :: timestamp
  ls_heartbeat_at :: timestamp
  ls_expires_at :: timestamp
  ls_revision :: revision

datatype schedule_outcome =
    Granted resource_lease
  | SchedulePaused entity_id resource_scope resource_kind
  | ScheduleFailed entity_id resource_scope resource_kind

record reclaimed_resource =
  rr_lease_id :: entity_id
  rr_recovery :: recovery_descriptor

record usage_delta =
  ud_path :: scope_path
  ud_resource :: resource_kind
  ud_units :: u64

datatype usage_outcome =
    UsageRecorded
  | UsagePaused resource_scope resource_kind
  | UsageFailed resource_scope resource_kind

record resource_projection =
  pj_scope :: string
  pj_resource :: resource_kind
  pj_consumed :: u64
  pj_active :: u64
  pj_ceiling :: "u64 option"
  pj_remaining :: "u64 option"

end
