(* ===== verification/Resource_Governor.thy ===== *)
theory Resource_Governor
  imports Resource_Model Typed_Store
begin

text \<open>
  \<open>crates/resource-governor/src/service.rs\<close>: durable admission control. Accounts count, per scope and
  resource, the units of the live leases; a request waits as a pending record until it is granted a
  lease, which raises the accounts of all scopes on its path in one transaction. Several processes
  work on one store: each keeps a cache (\<open>State\<close>), refreshes it at the start of an operation, and
  relies on revision preconditions for what happens in between. What the other processes do between
  the reads and the transaction of an operation is part of the model: the contract of the shared
  store lets any number of governor transactions happen before a transaction takes effect.

  The digest that names an account comes from a package outside the repository; it and the encoding
  of its input are the parameter \<open>account_hash\<close>. Generated lease identifiers are arguments.
\<close>

section \<open>Data\<close>

record account =
  ac_id :: entity_id
  ac_scope :: resource_scope
  ac_resource :: resource_kind
  ac_consumed :: u64
  ac_active :: u64
  ac_revision :: revision
  ac_updated_at :: timestamp

record pending_request =
  pd_request :: acquire_request
  pd_revision :: revision

datatype stored_resource =
    AccountRecord account
  | PendingRecord pending_request
  | LeaseRecord resource_lease

type_synonym account_key = "resource_scope \<times> resource_kind"

definition MAX_CONFLICT_RETRIES :: nat where
  "MAX_CONFLICT_RETRIES = 8"

record governor_cache =
  gc_accounts :: "(account_key \<times> account) list"
  gc_pending :: "(entity_id \<times> pending_request) list"
  gc_leases :: "(entity_id \<times> resource_lease) list"
  gc_last_tree :: "work_priority \<Rightarrow> root_tree_id option"

definition empty_cache :: governor_cache where
  "empty_cache = \<lparr>gc_accounts = [], gc_pending = [], gc_leases = [], gc_last_tree = Map.empty\<rparr>"

record account_hash =
  key_bytes :: "account_key \<Rightarrow> string + string"
  sha256 :: "string \<Rightarrow> 256 word"

record ('s, 'j, 'e) governor =
  gv_repository :: "('s, 'j, 'e) state_repository"
  gv_is_conflict :: "'e \<Rightarrow> bool"
  gv_serde :: "(stored_resource, 'j) serde"
  gv_hash :: account_hash
  gv_labels :: ulid_codec
  gv_policy :: resource_policy
  gv_poisoned :: bool

abbreviation resource_repo :: "('s, 'j, 'e) governor \<Rightarrow> ('s, 'j, 'e) repository" where
  "resource_repo G \<equiv> collection_repository (gv_repository G) ResourceGovernance"

section \<open>Records\<close>

definition governor_repository_error :: "('s, 'j, 'e) governor \<Rightarrow> 'e \<Rightarrow> resource_error" where
  "governor_repository_error G e = ResourceRepositoryError (repo_display (resource_repo G) e)"

definition classified_repository_error :: "('s, 'j, 'e) governor \<Rightarrow> 'e \<Rightarrow> resource_error" where
  "classified_repository_error G e =
     (if gv_is_conflict G e then ResourceRepositoryConflict (repo_display (resource_repo G) e)
      else ResourceRepositoryError (repo_display (resource_repo G) e))"

definition put_mutation ::
  "('s, 'j, 'e) governor \<Rightarrow> entity_id \<Rightarrow> stored_resource \<Rightarrow> revision \<Rightarrow> timestamp \<Rightarrow> write_precondition \<Rightarrow>
   resource_error + 'j record_mutation" where
  "put_mutation G i resource n now p =
     (case to_value (gv_serde G) resource of
        Inl e \<Rightarrow> Inl (ResourceSerialize e)
      | Inr payload \<Rightarrow>
          Inr (Put ResourceGovernance
            \<lparr>vr_version = CURRENT_SCHEMA_VERSION, vr_id = i, vr_revision = n, vr_updated_at = now,
             vr_payload = payload\<rparr> p))"

fun resource_id :: "stored_resource \<Rightarrow> entity_id" where
  "resource_id (AccountRecord a) = ac_id a"
| "resource_id (PendingRecord p) = rq_id (pd_request p)"
| "resource_id (LeaseRecord l) = ls_id l"

fun resource_revision :: "stored_resource \<Rightarrow> revision" where
  "resource_revision (AccountRecord a) = ac_revision a"
| "resource_revision (PendingRecord p) = pd_revision p"
| "resource_revision (LeaseRecord l) = ls_revision l"

definition decode_resource ::
  "('s, 'j, 'e) governor \<Rightarrow> 'j versioned_record \<Rightarrow> resource_error + stored_resource" where
  "decode_resource G r =
     (case from_value (gv_serde G) (vr_payload r) of
        Inl e \<Rightarrow> Inl (ResourceSerialize e)
      | Inr resource \<Rightarrow>
          if resource_id resource \<noteq> vr_id r \<or> resource_revision resource \<noteq> vr_revision r
          then Inl (ResourceInvalid ''resource record identity or revision mismatch'')
          else Inr resource)"

fun load_resources ::
  "('s, 'j, 'e) governor \<Rightarrow> governor_cache \<Rightarrow> 'j versioned_record list \<Rightarrow> resource_error + governor_cache" where
  "load_resources G cache [] = Inr cache"
| "load_resources G cache (r # rs) =
     (case decode_resource G r of
        Inl e \<Rightarrow> Inl e
      | Inr (AccountRecord a) \<Rightarrow>
          if map_of (gc_accounts cache) (ac_scope a, ac_resource a) \<noteq> None
          then Inl (ResourceInvalid ''duplicate durable resource account'')
          else load_resources G (cache\<lparr>gc_accounts :=
                 bt_insert (ac_scope a, ac_resource a) a (gc_accounts cache)\<rparr>) rs
      | Inr (PendingRecord p) \<Rightarrow>
          if map_of (gc_pending cache) (rq_id (pd_request p)) \<noteq> None
          then Inl (ResourceInvalid ''duplicate durable pending request'')
          else load_resources G (cache\<lparr>gc_pending := bt_insert (rq_id (pd_request p)) p (gc_pending cache)\<rparr>) rs
      | Inr (LeaseRecord l) \<Rightarrow>
          if map_of (gc_leases cache) (ls_id l) \<noteq> None
          then Inl (ResourceInvalid ''duplicate durable lease'')
          else load_resources G (cache\<lparr>gc_leases := bt_insert (ls_id l) l (gc_leases cache)\<rparr>) rs)"

definition load_state :: "('s, 'j, 'e) governor \<Rightarrow> 's \<Rightarrow> resource_error + governor_cache" where
  "load_state G s =
     (case repo_list (resource_repo G) s of
        Inl e \<Rightarrow> Inl (governor_repository_error G e)
      | Inr rs \<Rightarrow> load_resources G empty_cache rs)"

text \<open>A failed refresh has already taken \<open>last_tree\<close> out of the cache.\<close>

definition refresh_durable_state ::
  "('s, 'j, 'e) governor \<Rightarrow> 's \<Rightarrow> governor_cache \<Rightarrow> (resource_error + unit) \<times> governor_cache" where
  "refresh_durable_state G s cache =
     (case load_state G s of
        Inl e \<Rightarrow> (Inl e, cache\<lparr>gc_last_tree := Map.empty\<rparr>)
      | Inr refreshed \<Rightarrow> (Inr (), refreshed\<lparr>gc_last_tree := gc_last_tree cache\<rparr>))"

section \<open>Decisions\<close>

definition validate_acquire :: "acquire_request \<Rightarrow> resource_error + unit" where
  "validate_acquire request =
     (if \<not> is_concurrency (rq_resource request) \<or> rq_units request = 0 \<or> rq_idle_timeout_ms request = 0
        \<or> path_tree (rq_path request) = None
        \<or> rq_resource request \<noteq> WorkersKind \<and> path_session (rq_path request) = None
        \<or> (case rq_recovery request of
             None \<Rightarrow> False
           | Some recovery \<Rightarrow>
               class_resource (rd_class recovery) \<noteq> rq_resource request
               \<or> is_blank (rd_resume_marker recovery) \<or> length (rd_resume_marker recovery) > 1024)
      then Inl (ResourceInvalid
        ''acquire requests require bounded concurrency, tree/session scope, and valid recovery'')
      else Inr ())"

fun ensure_queue_capacity ::
  "('s, 'j, 'e) governor \<Rightarrow> governor_cache \<Rightarrow> acquire_request \<Rightarrow> resource_scope list \<Rightarrow> resource_error + unit" where
  "ensure_queue_capacity G cache request [] = Inr ()"
| "ensure_queue_capacity G cache request (scope # scopes) =
     (case policy_queue_ceiling (gv_policy G) scope of
        None \<Rightarrow> ensure_queue_capacity G cache request scopes
      | Some ceiling \<Rightarrow>
          if length (filter (\<lambda>p. scope \<in> set (rq_path (pd_request p))) (bt_values (gc_pending cache)))
             \<ge> (if rq_priority request = BackgroundWork
                then qc_maximum ceiling - qc_interactive_reserve ceiling else qc_maximum ceiling)
          then Inl (ResourceQueueFull (safe_label (gv_labels G) scope) (rq_priority request))
          else ensure_queue_capacity G cache request scopes)"

fun exhausted ::
  "('s, 'j, 'e) governor \<Rightarrow> governor_cache \<Rightarrow> resource_scope list \<Rightarrow> resource_kind \<Rightarrow> u64 \<Rightarrow> bool \<Rightarrow>
   resource_error + (resource_scope \<times> exhaustion_behavior) option" where
  "exhausted G cache [] resource units active = Inr None"
| "exhausted G cache (scope # scopes) resource units active =
     (case policy_ceiling (gv_policy G) scope resource of
        None \<Rightarrow> exhausted G cache scopes resource units active
      | Some ceiling \<Rightarrow>
          (case checked_add_u64
                  (case map_of (gc_accounts cache) (scope, resource) of
                     None \<Rightarrow> 0
                   | Some a \<Rightarrow> if active then ac_active a else ac_consumed a) units of
             None \<Rightarrow> Inl (ResourceInvalid ''resource counter overflow'')
           | Some next \<Rightarrow>
               if next > rc_maximum ceiling then Inr (Some (scope, rc_exhaustion ceiling))
               else exhausted G cache scopes resource units active))"

definition account_id :: "account_hash \<Rightarrow> account_key \<Rightarrow> resource_error + entity_id" where
  "account_id H key =
     (case key_bytes H key of
        Inl e \<Rightarrow> Inl (ResourceSerialize e)
      | Inr bytes \<Rightarrow>
          Inr (entity_id_from_u128 (ucast (drop_bit 128
            (sha256 H (''keith-resource-account-v1'' @ [char_of (0 :: nat)] @ bytes))))))"

text \<open>One step of \<open>account_updates\<close>: the account after the change and the precondition of its write.\<close>

definition new_account :: "entity_id \<Rightarrow> account_key \<Rightarrow> timestamp \<Rightarrow> account" where
  "new_account i key now =
     \<lparr>ac_id = i, ac_scope = fst key, ac_resource = snd key, ac_consumed = 0, ac_active = 0,
      ac_revision = revision_zero, ac_updated_at = now\<rparr>"

definition account_update ::
  "('s, 'j, 'e) governor \<Rightarrow> governor_cache \<Rightarrow> account_key \<Rightarrow> u64 \<Rightarrow> bool \<Rightarrow> timestamp \<Rightarrow>
   resource_error + account \<times> write_precondition" where
  "account_update G cache key units active now =
     (case account_id (gv_hash G) key of Inl e \<Rightarrow> Inl e | Inr i \<Rightarrow>
      (case (case map_of (gc_accounts cache) key of
               None \<Rightarrow> Inr (new_account i key now, Missing)
             | Some current \<Rightarrow>
                 (case checked_next (ac_revision current) of
                    None \<Rightarrow> Inl (ResourceInvalid ''account revision exhausted'')
                  | Some n \<Rightarrow> Inr (current\<lparr>ac_revision := n\<rparr>, Exact (ac_revision current)))) of
         Inl e \<Rightarrow> Inl e
       | Inr (a, p) \<Rightarrow>
           if active
           then (case checked_add_u64 (ac_active a) units of
               None \<Rightarrow> Inl (ResourceInvalid ''active counter overflow'')
             | Some n \<Rightarrow> Inr (a\<lparr>ac_active := n, ac_updated_at := now\<rparr>, p))
           else (case checked_add_u64 (ac_consumed a) units of
               None \<Rightarrow> Inl (ResourceInvalid ''usage counter overflow'')
             | Some n \<Rightarrow> Inr (a\<lparr>ac_consumed := n, ac_updated_at := now\<rparr>, p))))"

fun account_updates ::
  "('s, 'j, 'e) governor \<Rightarrow> governor_cache \<Rightarrow> resource_scope list \<Rightarrow> resource_kind \<Rightarrow> u64 \<Rightarrow> bool \<Rightarrow> timestamp \<Rightarrow>
   resource_error + (account_key \<times> account) list \<times> 'j record_mutation list" where
  "account_updates G cache [] resource units active now = Inr ([], [])"
| "account_updates G cache (scope # scopes) resource units active now =
     (case account_update G cache (scope, resource) units active now of Inl e \<Rightarrow> Inl e | Inr (a, p) \<Rightarrow>
      (case put_mutation G (ac_id a) (AccountRecord a) (ac_revision a) now p of Inl e \<Rightarrow> Inl e | Inr m \<Rightarrow>
       (case account_updates G cache scopes resource units active now of
          Inl e \<Rightarrow> Inl e
        | Inr (updates, ms) \<Rightarrow> Inr (((scope, resource), a) # updates, m # ms))))"

definition account_release ::
  "governor_cache \<Rightarrow> account_key \<Rightarrow> u64 \<Rightarrow> timestamp \<Rightarrow> resource_error + account \<times> write_precondition" where
  "account_release cache key units now =
     (case map_of (gc_accounts cache) key of
        None \<Rightarrow> Inl (ResourceInvalid ''active lease is missing its resource account'')
      | Some current \<Rightarrow>
          (case checked_sub_u64 (ac_active current) units of
             None \<Rightarrow> Inl (ResourceInvalid ''resource accounting underflow'')
           | Some left \<Rightarrow>
               (case checked_next (ac_revision current) of
                  None \<Rightarrow> Inl (ResourceInvalid ''account revision exhausted'')
                | Some n \<Rightarrow>
                    Inr (current\<lparr>ac_active := left, ac_revision := n, ac_updated_at := now\<rparr>,
                         Exact (ac_revision current)))))"

fun account_releases ::
  "('s, 'j, 'e) governor \<Rightarrow> governor_cache \<Rightarrow> resource_scope list \<Rightarrow> resource_kind \<Rightarrow> u64 \<Rightarrow> timestamp \<Rightarrow>
   resource_error + (account_key \<times> account) list \<times> 'j record_mutation list" where
  "account_releases G cache [] resource units now = Inr ([], [])"
| "account_releases G cache (scope # scopes) resource units now =
     (case account_release cache (scope, resource) units now of Inl e \<Rightarrow> Inl e | Inr (a, p) \<Rightarrow>
      (case put_mutation G (ac_id a) (AccountRecord a) (ac_revision a) now p of Inl e \<Rightarrow> Inl e | Inr m \<Rightarrow>
       (case account_releases G cache scopes resource units now of
          Inl e \<Rightarrow> Inl e
        | Inr (updates, ms) \<Rightarrow> Inr (((scope, resource), a) # updates, m # ms))))"

definition apply_accounts :: "governor_cache \<Rightarrow> (account_key \<times> account) list \<Rightarrow> governor_cache" where
  "apply_accounts cache updates =
     cache\<lparr>gc_accounts := fold (\<lambda>(key, a) m. bt_insert key a m) updates (gc_accounts cache)\<rparr>"

definition checked_timestamp :: "timestamp \<Rightarrow> u64 \<Rightarrow> resource_error + timestamp" where
  "checked_timestamp t delta_ms =
     (case i64_try_from delta_ms of
        None \<Rightarrow> Inl (ResourceInvalid ''idle timeout is too large'')
      | Some delta \<Rightarrow>
          (case i64_checked_add t delta of
             None \<Rightarrow> Inl (ResourceInvalid ''lease expiry overflow'')
           | Some expiry \<Rightarrow> Inr expiry))"

section \<open>Selection\<close>

definition arrival_key :: "pending_request \<Rightarrow> timestamp \<times> entity_id" where
  "arrival_key p = (rq_submitted_at (pd_request p), rq_id (pd_request p))"

definition pending_session :: "pending_request \<Rightarrow> session_id option" where
  "pending_session p = path_session (rq_path (pd_request p))"

definition pending_tree :: "pending_request \<Rightarrow> root_tree_id option" where
  "pending_tree p = path_tree (rq_path (pd_request p))"

text \<open>\<open>Option<SessionId>\<close> is ordered with \<open>None\<close> first.\<close>

definition session_rank :: "session_id option \<Rightarrow> nat \<times> entity_id" where
  "session_rank x = (case x of None \<Rightarrow> (0, EntityId 0) | Some i \<Rightarrow> (1, i))"

fun session_heads ::
  "((nat \<times> entity_id) \<times> pending_request) list \<Rightarrow> pending_request list \<Rightarrow>
   ((nat \<times> entity_id) \<times> pending_request) list" where
  "session_heads heads [] = heads"
| "session_heads heads (p # ps) =
     (let session = session_rank (pending_session p);
          replace = (case map_of heads session of None \<Rightarrow> True | Some current \<Rightarrow> arrival_key p < arrival_key current)
      in session_heads (if replace then bt_insert session p heads else heads) ps)"

definition candidate_key :: "pending_request \<Rightarrow> (nat \<times> entity_id) \<times> timestamp \<times> entity_id" where
  "candidate_key p = (session_rank (pending_tree p), arrival_key p)"

definition next_request :: "governor_cache \<Rightarrow> entity_id set \<Rightarrow> entity_id option" where
  "next_request cache attempted =
     (let heads = filter (\<lambda>p. rq_id (pd_request p) \<notin> attempted)
            (bt_values (session_heads [] (bt_values (gc_pending cache))))
      in if heads = [] then None
         else let priority = Max (set (map (\<lambda>p. rq_priority (pd_request p)) heads));
                  candidates = sort_key candidate_key (filter (\<lambda>p. rq_priority (pd_request p) = priority) heads);
                  selected = (case gc_last_tree cache priority of
                      None \<Rightarrow> None
                    | Some latest \<Rightarrow>
                        find (\<lambda>p. case pending_tree p of None \<Rightarrow> False | Some tree \<Rightarrow> tree > latest) candidates)
              in (case selected of
                    Some p \<Rightarrow> Some (rq_id (pd_request p))
                  | None \<Rightarrow> (case candidates of [] \<Rightarrow> None | p # _ \<Rightarrow> Some (rq_id (pd_request p)))))"

section \<open>Operations\<close>

text \<open>An operation takes the cache of the process and the store, and returns both.\<close>

definition gov_open :: "('s, 'j, 'e) governor \<Rightarrow> 's \<Rightarrow> resource_error + governor_cache" where
  "gov_open G s = load_state G s"

definition gov_submit ::
  "('s, 'j, 'e) governor \<Rightarrow> governor_cache \<Rightarrow> 's \<Rightarrow> acquire_request \<Rightarrow>
   (resource_error + unit) \<times> governor_cache \<times> 's" where
  "gov_submit G cache s request =
     (case validate_acquire request of Inl e \<Rightarrow> (Inl e, cache, s) | Inr _ \<Rightarrow>
      if gv_poisoned G then (Inl ResourceLockPoisoned, cache, s)
      else (case refresh_durable_state G s cache of (Inl e, cache1) \<Rightarrow> (Inl e, cache1, s) | (Inr _, cache1) \<Rightarrow>
       if map_of (gc_pending cache1) (rq_id request) \<noteq> None
         \<or> list_ex (\<lambda>l. rq_id (ls_request l) = rq_id request) (bt_values (gc_leases cache1))
       then (Inl (ResourceDuplicate (rq_id request)), cache1, s)
       else (case ensure_queue_capacity G cache1 request (rq_path request) of Inl e \<Rightarrow> (Inl e, cache1, s) | Inr _ \<Rightarrow>
        let pending = \<lparr>pd_request = request, pd_revision = revision_zero\<rparr> in
        (case put_mutation G (rq_id request) (PendingRecord pending) revision_zero (rq_submitted_at request) Missing of
           Inl e \<Rightarrow> (Inl e, cache1, s)
         | Inr m \<Rightarrow>
             (case transact (gv_repository G) s [m] of
                (Inl e, s') \<Rightarrow> (Inl (classified_repository_error G e), cache1, s')
              | (Inr _, s') \<Rightarrow>
                  (Inr (), cache1\<lparr>gc_pending := bt_insert (rq_id request) pending (gc_pending cache1)\<rparr>, s'))))))"

definition gov_delete_pending ::
  "('s, 'j, 'e) governor \<Rightarrow> governor_cache \<Rightarrow> 's \<Rightarrow> pending_request \<Rightarrow>
   (resource_error + unit) \<times> governor_cache \<times> 's" where
  "gov_delete_pending G cache s pending =
     (case transact (gv_repository G) s
             [Delete ResourceGovernance (rq_id (pd_request pending)) (Exact (pd_revision pending))] of
        (Inl e, s') \<Rightarrow> (Inl (classified_repository_error G e), cache, s')
      | (Inr _, s') \<Rightarrow>
          (Inr (), cache\<lparr>gc_pending := bt_remove (rq_id (pd_request pending)) (gc_pending cache)\<rparr>, s'))"

definition gov_grant ::
  "('s, 'j, 'e) governor \<Rightarrow> governor_cache \<Rightarrow> 's \<Rightarrow> pending_request \<Rightarrow> timestamp \<Rightarrow> entity_id \<Rightarrow>
   (resource_error + resource_lease) \<times> governor_cache \<times> 's" where
  "gov_grant G cache s pending now new_id =
     (let request = pd_request pending in
      case checked_timestamp now (rq_idle_timeout_ms request) of Inl e \<Rightarrow> (Inl e, cache, s) | Inr expires \<Rightarrow>
      let lease = \<lparr>ls_id = new_id, ls_request = request, ls_acquired_at = now, ls_heartbeat_at = now,
                   ls_expires_at = expires, ls_revision = revision_zero\<rparr> in
      case account_updates G cache (rq_path request) (rq_resource request) (rq_units request) True now of
        Inl e \<Rightarrow> (Inl e, cache, s)
      | Inr (updates, mutations) \<Rightarrow>
          (case put_mutation G new_id (LeaseRecord lease) revision_zero now Missing of
             Inl e \<Rightarrow> (Inl e, cache, s)
           | Inr m \<Rightarrow>
               (case transact (gv_repository G) s
                       (mutations @ [m, Delete ResourceGovernance (rq_id request) (Exact (pd_revision pending))]) of
                  (Inl e, s') \<Rightarrow> (Inl (classified_repository_error G e), cache, s')
                | (Inr _, s') \<Rightarrow>
                    (Inr lease,
                     (apply_accounts cache updates)
                       \<lparr>gc_pending := bt_remove (rq_id request) (gc_pending cache),
                        gc_leases := bt_insert new_id lease (gc_leases cache)\<rparr>, s'))))"

text \<open>The loop of \<open>schedule\<close>: every round adds one outcome, so the bound on the outcomes counts the
  rounds. \<open>ids k q\<close> is the lease identifier generated in the round with \<open>k\<close> outcomes to go, whose
  request is \<open>q\<close>.\<close>

fun schedule_rounds ::
  "('s, 'j, 'e) governor \<Rightarrow> timestamp \<Rightarrow> (nat \<Rightarrow> acquire_request \<Rightarrow> entity_id) \<Rightarrow> nat \<Rightarrow> governor_cache \<Rightarrow> 's \<Rightarrow> entity_id set \<Rightarrow>
   (resource_error + schedule_outcome list) \<times> governor_cache \<times> 's" where
  "schedule_rounds G now ids 0 cache s attempted = (Inr [], cache, s)"
| "schedule_rounds G now ids (Suc k) cache s attempted =
     (case next_request cache attempted of None \<Rightarrow> (Inr [], cache, s) | Some i \<Rightarrow>
      (case map_of (gc_pending cache) i of None \<Rightarrow> (Inl (ResourceMissing i), cache, s) | Some pending \<Rightarrow>
       let request = pd_request pending;
           step = (case exhausted G cache (rq_path request) (rq_resource request) (rq_units request) True of
               Inl e \<Rightarrow> (Inl e, cache, s)
             | Inr (Some (scope, PauseWork)) \<Rightarrow> (Inr (SchedulePaused i scope (rq_resource request)), cache, s)
             | Inr (Some (scope, FailWork)) \<Rightarrow>
                 (case gov_delete_pending G cache s pending of
                    (Inl e, cache1, s1) \<Rightarrow> (Inl e, cache1, s1)
                  | (Inr _, cache1, s1) \<Rightarrow> (Inr (ScheduleFailed i scope (rq_resource request)), cache1, s1))
             | Inr None \<Rightarrow>
                 (case gov_grant G cache s pending now (ids k request) of
                    (Inl e, cache1, s1) \<Rightarrow> (Inl e, cache1, s1)
                  | (Inr lease, cache1, s1) \<Rightarrow>
                      (Inr (Granted lease),
                       (case path_tree (rq_path request) of
                          None \<Rightarrow> cache1
                        | Some tree \<Rightarrow>
                            cache1\<lparr>gc_last_tree := (gc_last_tree cache1)(rq_priority request \<mapsto> tree)\<rparr>), s1)))
       in (case step of
             (Inl e, cache1, s1) \<Rightarrow> (Inl e, cache1, s1)
           | (Inr outcome, cache1, s1) \<Rightarrow>
               (case schedule_rounds G now ids k cache1 s1 (insert i attempted) of
                  (Inl e, cache2, s2) \<Rightarrow> (Inl e, cache2, s2)
                | (Inr outcomes, cache2, s2) \<Rightarrow> (Inr (outcome # outcomes), cache2, s2)))))"

definition gov_schedule ::
  "('s, 'j, 'e) governor \<Rightarrow> governor_cache \<Rightarrow> 's \<Rightarrow> timestamp \<Rightarrow> nat \<Rightarrow> (nat \<Rightarrow> acquire_request \<Rightarrow> entity_id) \<Rightarrow>
   (resource_error + schedule_outcome list) \<times> governor_cache \<times> 's" where
  "gov_schedule G cache s now max_decisions ids =
     (if max_decisions = 0 then (Inl (ResourceInvalid ''schedule decision bound must be non-zero''), cache, s)
      else if gv_poisoned G then (Inl ResourceLockPoisoned, cache, s)
      else (case refresh_durable_state G s cache of (Inl e, cache1) \<Rightarrow> (Inl e, cache1, s) | (Inr _, cache1) \<Rightarrow>
        schedule_rounds G now ids max_decisions cache1 s {}))"

text \<open>The retry loops: \<open>k\<close> retries are left; a conflict with none left is returned.\<close>

fun is_repository_conflict :: "resource_error \<Rightarrow> bool" where
  "is_repository_conflict (ResourceRepositoryConflict _) = True"
| "is_repository_conflict _ = False"

fun schedule_request_loop ::
  "('s, 'j, 'e) governor \<Rightarrow> entity_id \<Rightarrow> timestamp \<Rightarrow> (nat \<Rightarrow> acquire_request \<Rightarrow> entity_id) \<Rightarrow> nat \<Rightarrow> governor_cache \<Rightarrow> 's \<Rightarrow>
   (resource_error + schedule_outcome) \<times> governor_cache \<times> 's" where
  "schedule_request_loop G i now ids k cache s =
     (case refresh_durable_state G s cache of (Inl e, cache1) \<Rightarrow> (Inl e, cache1, s) | (Inr _, cache1) \<Rightarrow>
      (case map_of (gc_pending cache1) i of None \<Rightarrow> (Inl (ResourceMissing i), cache1, s) | Some pending \<Rightarrow>
       let request = pd_request pending in
       (case (case exhausted G cache1 (rq_path request) (rq_resource request) (rq_units request) True of
                Inl e \<Rightarrow> (Inl e, cache1, s)
              | Inr (Some (scope, PauseWork)) \<Rightarrow> (Inr (SchedulePaused i scope (rq_resource request)), cache1, s)
              | Inr (Some (scope, FailWork)) \<Rightarrow>
                  (case gov_delete_pending G cache1 s pending of
                     (Inl e, cache2, s2) \<Rightarrow> (Inl e, cache2, s2)
                   | (Inr _, cache2, s2) \<Rightarrow> (Inr (ScheduleFailed i scope (rq_resource request)), cache2, s2))
              | Inr None \<Rightarrow>
                  (case gov_grant G cache1 s pending now (ids k request) of
                     (Inl e, cache2, s2) \<Rightarrow> (Inl e, cache2, s2)
                   | (Inr lease, cache2, s2) \<Rightarrow> (Inr (Granted lease), cache2, s2))) of
          (Inr outcome, cache2, s2) \<Rightarrow> (Inr outcome, cache2, s2)
        | (Inl e, cache2, s2) \<Rightarrow>
            (case k of
               0 \<Rightarrow> (Inl e, cache2, s2)
             | Suc m \<Rightarrow>
                 if is_repository_conflict e then schedule_request_loop G i now ids m cache2 s2
                 else (Inl e, cache2, s2)))))"

definition gov_schedule_request where
  "gov_schedule_request G cache s i now ids =
     (if gv_poisoned G then (Inl ResourceLockPoisoned, cache, s)
      else schedule_request_loop G i now ids MAX_CONFLICT_RETRIES cache s)"

definition release_locked ::
  "('s, 'j, 'e) governor \<Rightarrow> governor_cache \<Rightarrow> 's \<Rightarrow> resource_lease \<Rightarrow> timestamp \<Rightarrow>
   (resource_error + unit) \<times> governor_cache \<times> 's" where
  "release_locked G cache s lease now =
     (case account_releases G cache (rq_path (ls_request lease)) (rq_resource (ls_request lease))
             (rq_units (ls_request lease)) now of
        Inl e \<Rightarrow> (Inl e, cache, s)
      | Inr (changes, mutations) \<Rightarrow>
          (case transact (gv_repository G) s
                  (mutations @ [Delete ResourceGovernance (ls_id lease) (Exact (ls_revision lease))]) of
             (Inl e, s') \<Rightarrow> (Inl (classified_repository_error G e), cache, s')
           | (Inr _, s') \<Rightarrow>
               (Inr (), (apply_accounts cache changes)\<lparr>gc_leases := bt_remove (ls_id lease) (gc_leases cache)\<rparr>, s')))"

fun release_loop ::
  "('s, 'j, 'e) governor \<Rightarrow> entity_id \<Rightarrow> timestamp \<Rightarrow> nat \<Rightarrow> governor_cache \<Rightarrow> 's \<Rightarrow>
   (resource_error + unit) \<times> governor_cache \<times> 's" where
  "release_loop G i now k cache s =
     (case refresh_durable_state G s cache of (Inl e, cache1) \<Rightarrow> (Inl e, cache1, s) | (Inr _, cache1) \<Rightarrow>
      (case map_of (gc_leases cache1) i of None \<Rightarrow> (Inl (ResourceMissing i), cache1, s) | Some lease \<Rightarrow>
       (case release_locked G cache1 s lease now of
          (Inr _, cache2, s2) \<Rightarrow> (Inr (), cache2, s2)
        | (Inl e, cache2, s2) \<Rightarrow>
            (case k of
               0 \<Rightarrow> (Inl e, cache2, s2)
             | Suc m \<Rightarrow>
                 if is_repository_conflict e then release_loop G i now m cache2 s2
                 else (Inl e, cache2, s2)))))"

definition gov_release where
  "gov_release G cache s i now =
     (if gv_poisoned G then (Inl ResourceLockPoisoned, cache, s)
      else release_loop G i now MAX_CONFLICT_RETRIES cache s)"

definition beaten_lease :: "resource_lease \<Rightarrow> timestamp \<Rightarrow> timestamp \<Rightarrow> revision \<Rightarrow> resource_lease" where
  "beaten_lease lease now expires n =
     lease\<lparr>ls_heartbeat_at := now, ls_expires_at := expires, ls_revision := n\<rparr>"

fun heartbeat_loop ::
  "('s, 'j, 'e) governor \<Rightarrow> entity_id \<Rightarrow> timestamp \<Rightarrow> nat \<Rightarrow> governor_cache \<Rightarrow> 's \<Rightarrow>
   (resource_error + resource_lease) \<times> governor_cache \<times> 's" where
  "heartbeat_loop G i now k cache s =
     (case refresh_durable_state G s cache of (Inl e, cache1) \<Rightarrow> (Inl e, cache1, s) | (Inr _, cache1) \<Rightarrow>
      (case map_of (gc_leases cache1) i of None \<Rightarrow> (Inl (ResourceMissing i), cache1, s) | Some lease \<Rightarrow>
       if now < ls_heartbeat_at lease
       then (Inl (ResourceInvalid ''lease heartbeat cannot move backwards''), cache1, s)
       else (case checked_timestamp now (rq_idle_timeout_ms (ls_request lease)) of Inl e \<Rightarrow> (Inl e, cache1, s) | Inr expires \<Rightarrow>
        (case checked_next (ls_revision lease) of
           None \<Rightarrow> (Inl (ResourceInvalid ''lease revision exhausted''), cache1, s)
         | Some n \<Rightarrow>
             let updated = beaten_lease lease now expires n in
             (case put_mutation G (ls_id updated) (LeaseRecord updated) n now (Exact (ls_revision lease)) of
                Inl e \<Rightarrow> (Inl e, cache1, s)
              | Inr m \<Rightarrow>
                  (case transact (gv_repository G) s [m] of
                     (Inr _, s2) \<Rightarrow>
                       (Inr updated, cache1\<lparr>gc_leases := bt_insert (ls_id updated) updated (gc_leases cache1)\<rparr>, s2)
                   | (Inl e, s2) \<Rightarrow>
                       (case k of
                          0 \<Rightarrow> (Inl (governor_repository_error G e), cache1, s2)
                        | Suc m' \<Rightarrow>
                            if gv_is_conflict G e then heartbeat_loop G i now m' cache1 s2
                            else (Inl (governor_repository_error G e), cache1, s2))))))))"

definition gov_heartbeat where
  "gov_heartbeat G cache s i now =
     (if gv_poisoned G then (Inl ResourceLockPoisoned, cache, s)
      else heartbeat_loop G i now MAX_CONFLICT_RETRIES cache s)"

fun reclaim_leases ::
  "('s, 'j, 'e) governor \<Rightarrow> timestamp \<Rightarrow> governor_cache \<Rightarrow> 's \<Rightarrow> resource_lease list \<Rightarrow>
   (resource_error + reclaimed_resource list) \<times> governor_cache \<times> 's" where
  "reclaim_leases G now cache s [] = (Inr [], cache, s)"
| "reclaim_leases G now cache s (lease # leases) =
     (case rq_recovery (ls_request lease) of
        None \<Rightarrow> (Inl (ResourceInvalid ''recovery descriptor disappeared''), cache, s)
      | Some recovery \<Rightarrow>
          (case release_locked G cache s lease now of
             (Inl e, cache1, s1) \<Rightarrow> (Inl e, cache1, s1)
           | (Inr _, cache1, s1) \<Rightarrow>
               (case reclaim_leases G now cache1 s1 leases of
                  (Inl e, cache2, s2) \<Rightarrow> (Inl e, cache2, s2)
                | (Inr reclaimed, cache2, s2) \<Rightarrow>
                    (Inr (\<lparr>rr_lease_id = ls_id lease, rr_recovery = recovery\<rparr> # reclaimed), cache2, s2))))"

definition lease_idle :: "timestamp \<Rightarrow> resource_lease \<Rightarrow> bool" where
  "lease_idle now lease \<longleftrightarrow> ls_expires_at lease \<le> now \<and> rq_recovery (ls_request lease) \<noteq> None"

definition gov_reclaim_idle ::
  "('s, 'j, 'e) governor \<Rightarrow> governor_cache \<Rightarrow> 's \<Rightarrow> timestamp \<Rightarrow>
   (resource_error + reclaimed_resource list) \<times> governor_cache \<times> 's" where
  "gov_reclaim_idle G cache s now =
     (if gv_poisoned G then (Inl ResourceLockPoisoned, cache, s)
      else (case reclaim_leases G now cache s (filter (lease_idle now) (bt_values (gc_leases cache))) of
          (Inl e, cache1, s1) \<Rightarrow> (Inl e, cache1, s1)
        | (Inr reclaimed, cache1, s1) \<Rightarrow> (Inr (sort_key rr_lease_id reclaimed), cache1, s1)))"

fun usage_loop ::
  "('s, 'j, 'e) governor \<Rightarrow> usage_delta \<Rightarrow> timestamp \<Rightarrow> nat \<Rightarrow> governor_cache \<Rightarrow> 's \<Rightarrow>
   (resource_error + usage_outcome) \<times> governor_cache \<times> 's" where
  "usage_loop G delta now k cache s =
     (case refresh_durable_state G s cache of (Inl e, cache1) \<Rightarrow> (Inl e, cache1, s) | (Inr _, cache1) \<Rightarrow>
      (case exhausted G cache1 (ud_path delta) (ud_resource delta) (ud_units delta) False of
         Inl e \<Rightarrow> (Inl e, cache1, s)
       | Inr (Some (scope, PauseWork)) \<Rightarrow> (Inr (UsagePaused scope (ud_resource delta)), cache1, s)
       | Inr (Some (scope, FailWork)) \<Rightarrow> (Inr (UsageFailed scope (ud_resource delta)), cache1, s)
       | Inr None \<Rightarrow>
           (case account_updates G cache1 (ud_path delta) (ud_resource delta) (ud_units delta) False now of
              Inl e \<Rightarrow> (Inl e, cache1, s)
            | Inr (updates, mutations) \<Rightarrow>
                (case transact (gv_repository G) s mutations of
                   (Inr _, s2) \<Rightarrow> (Inr UsageRecorded, apply_accounts cache1 updates, s2)
                 | (Inl e, s2) \<Rightarrow>
                     (case k of
                        0 \<Rightarrow> (Inl (governor_repository_error G e), cache1, s2)
                      | Suc m \<Rightarrow>
                          if gv_is_conflict G e then usage_loop G delta now m cache1 s2
                          else (Inl (governor_repository_error G e), cache1, s2))))))"

definition gov_record_usage ::
  "('s, 'j, 'e) governor \<Rightarrow> governor_cache \<Rightarrow> 's \<Rightarrow> usage_delta \<Rightarrow> timestamp \<Rightarrow>
   (resource_error + usage_outcome) \<times> governor_cache \<times> 's" where
  "gov_record_usage G cache s delta now =
     (if is_concurrency (ud_resource delta) \<or> ud_units delta = 0
      then (Inl (ResourceInvalid ''usage accounting requires a non-zero measurable resource''), cache, s)
      else if gv_poisoned G then (Inl ResourceLockPoisoned, cache, s)
      else usage_loop G delta now MAX_CONFLICT_RETRIES cache s)"

definition account_projection :: "('s, 'j, 'e) governor \<Rightarrow> account \<Rightarrow> resource_projection" where
  "account_projection G a =
     (let ceiling = policy_ceiling (gv_policy G) (ac_scope a) (ac_resource a);
          used = (if is_concurrency (ac_resource a) then ac_active a else ac_consumed a)
      in \<lparr>pj_scope = safe_label (gv_labels G) (ac_scope a), pj_resource = ac_resource a,
          pj_consumed = ac_consumed a, pj_active = ac_active a,
          pj_ceiling = map_option rc_maximum ceiling,
          pj_remaining = map_option (\<lambda>c. saturating_sub (rc_maximum c) used) ceiling\<rparr>)"

definition gov_projections ::
  "('s, 'j, 'e) governor \<Rightarrow> governor_cache \<Rightarrow> resource_error + resource_projection list" where
  "gov_projections G cache =
     (if gv_poisoned G then Inl ResourceLockPoisoned
      else Inr (sort_key (\<lambda>p. (pj_scope p, pj_resource p))
        (map (account_projection G) (bt_values (gc_accounts cache)))))"

definition gov_pending_count :: "('s, 'j, 'e) governor \<Rightarrow> governor_cache \<Rightarrow> resource_error + nat" where
  "gov_pending_count G cache =
     (if gv_poisoned G then Inl ResourceLockPoisoned else Inr (length (gc_pending cache)))"

definition gov_lease_count :: "('s, 'j, 'e) governor \<Rightarrow> governor_cache \<Rightarrow> resource_error + nat" where
  "gov_lease_count G cache =
     (if gv_poisoned G then Inl ResourceLockPoisoned else Inr (length (gc_leases cache)))"

declare schedule_request_loop.simps [simp del] release_loop.simps [simp del] heartbeat_loop.simps [simp del]
  usage_loop.simps [simp del]

end
