(* ===== verification/Resource_Accounts.thy ===== *)
theory Resource_Accounts
  imports Resource_Governor
begin

text \<open>
  What a set of governors on one store does to the table of durable records, one transaction at a time,
  and the invariant of that table: the active units of every account are the sum over the live leases
  whose path covers it, and neither active nor consumed units pass a ceiling of the policy.
\<close>

section \<open>Specification\<close>

type_synonym resource_table = "entity_id \<Rightarrow> stored_resource option"

text \<open>
  Identifiers are generated or digests. What a set of governors relies on is stated of the requests
  and scopes they are used with: digests of accounts do not collide with each other or with a generated
  identifier, and a lease identifier is generated for one request (\<open>nm_ticket\<close>).
\<close>

record naming =
  nm_scopes :: "resource_scope set"
  nm_requests :: "acquire_request set"
  nm_ticket :: "entity_id \<Rightarrow> acquire_request option"

definition naming_ok :: "account_hash \<Rightarrow> naming \<Rightarrow> bool" where
  "naming_ok H N \<longleftrightarrow>
     (\<forall>k l i. fst k \<in> nm_scopes N \<longrightarrow> fst l \<in> nm_scopes N \<longrightarrow> account_id H k = Inr i \<longrightarrow> account_id H l = Inr i \<longrightarrow> k = l)
     \<and> (\<forall>k i. fst k \<in> nm_scopes N \<longrightarrow> account_id H k = Inr i \<longrightarrow> nm_ticket N i = None)
     \<and> (\<forall>q \<in> nm_requests N. set (rq_path q) \<subseteq> nm_scopes N \<and> nm_ticket N (rq_id q) = None
          \<and> (\<forall>k. fst k \<in> nm_scopes N \<longrightarrow> account_id H k \<noteq> Inr (rq_id q)))"

definition ids_ok :: "naming \<Rightarrow> (nat \<Rightarrow> acquire_request \<Rightarrow> entity_id) \<Rightarrow> bool" where
  "ids_ok N ids \<longleftrightarrow> (\<forall>k. \<forall>q \<in> nm_requests N. nm_ticket N (ids k q) = Some q)"

lemma naming_inj:
  "naming_ok H N \<Longrightarrow> fst k \<in> nm_scopes N \<Longrightarrow> fst l \<in> nm_scopes N \<Longrightarrow> account_id H k = Inr i \<Longrightarrow> account_id H l = Inr i \<Longrightarrow>
   k = l"
  unfolding naming_ok_def by blast

lemma naming_ticket:
  "naming_ok H N \<Longrightarrow> fst k \<in> nm_scopes N \<Longrightarrow> nm_ticket N i = Some q \<Longrightarrow> account_id H k \<noteq> Inr i"
  unfolding naming_ok_def by (metis option.distinct(1))

lemma naming_request:
  assumes "naming_ok H N" and "q \<in> nm_requests N"
  shows "set (rq_path q) \<subseteq> nm_scopes N" and "nm_ticket N (rq_id q) = None"
    and "fst k \<in> nm_scopes N \<Longrightarrow> account_id H k \<noteq> Inr (rq_id q)"
  using assms unfolding naming_ok_def by blast+

definition account_key_of :: "account \<Rightarrow> account_key" where
  "account_key_of a = (ac_scope a, ac_resource a)"

definition account_values :: "account \<Rightarrow> nat \<times> nat" where
  "account_values a = (unat (ac_active a), unat (ac_consumed a))"

definition account_at :: "account_hash \<Rightarrow> resource_table \<Rightarrow> account_key \<Rightarrow> account option" where
  "account_at H T k =
     (case account_id H k of
        Inl _ \<Rightarrow> None
      | Inr j \<Rightarrow>
          (case T j of
             Some (AccountRecord a) \<Rightarrow> if account_key_of a = k then Some a else None
           | _ \<Rightarrow> None))"

definition table_values :: "account_hash \<Rightarrow> resource_table \<Rightarrow> account_key \<Rightarrow> nat \<times> nat" where
  "table_values H T k = (case account_at H T k of None \<Rightarrow> (0, 0) | Some a \<Rightarrow> account_values a)"

definition leases_of :: "resource_table \<Rightarrow> entity_id \<Rightarrow> resource_lease option" where
  "leases_of T i = (case T i of Some (LeaseRecord x) \<Rightarrow> Some x | _ \<Rightarrow> None)"

text \<open>The units a lease holds in an account, and the sum over all live leases.\<close>

definition lease_weight :: "account_key \<Rightarrow> resource_lease \<Rightarrow> nat" where
  "lease_weight k x =
     (if snd k = rq_resource (ls_request x) \<and> fst k \<in> set (rq_path (ls_request x))
      then unat (rq_units (ls_request x)) else 0)"

definition lease_load :: "resource_table \<Rightarrow> account_key \<Rightarrow> nat" where
  "lease_load T k = (\<Sum>i \<in> dom (leases_of T). lease_weight k (the (leases_of T i)))"

definition path_keys :: "scope_path \<Rightarrow> resource_kind \<Rightarrow> account_key set" where
  "path_keys path r = (\<lambda>s. (s, r)) ` set path"

definition request_ok :: "acquire_request \<Rightarrow> bool" where
  "request_ok q \<longleftrightarrow> path_ok (rq_path q) \<and> validate_acquire q = Inr ()"

definition accounts_moved ::
  "account_hash \<Rightarrow> resource_table \<Rightarrow> resource_table \<Rightarrow> account_key set \<Rightarrow> (nat \<times> nat \<Rightarrow> nat \<times> nat \<Rightarrow> bool) \<Rightarrow> bool" where
  "accounts_moved H T T' K f \<longleftrightarrow>
     (\<forall>j. (\<forall>k \<in> K. account_id H k \<noteq> Inr j) \<longrightarrow> T' j = T j)
     \<and> (\<forall>k \<in> K. \<exists>j a'. account_id H k = Inr j \<and> T' j = Some (AccountRecord a') \<and> account_key_of a' = k
          \<and> (case T j of
               None \<Rightarrow> f (0, 0) (account_values a')
             | Some (AccountRecord a) \<Rightarrow>
                 account_key_of a = k \<and> ac_revision a < ac_revision a' \<and> f (account_values a) (account_values a')
             | _ \<Rightarrow> False))"

definition raised :: "nat \<Rightarrow> nat \<times> nat \<Rightarrow> nat \<times> nat \<Rightarrow> bool" where
  "raised u v w \<longleftrightarrow> w = (fst v + u, snd v)"

definition lowered :: "nat \<Rightarrow> nat \<times> nat \<Rightarrow> nat \<times> nat \<Rightarrow> bool" where
  "lowered u v w \<longleftrightarrow> v = (fst w + u, snd w)"

definition spent :: "nat \<Rightarrow> nat \<times> nat \<Rightarrow> nat \<times> nat \<Rightarrow> bool" where
  "spent u v w \<longleftrightarrow> w = (fst v, snd v + u)"

definition within :: "resource_policy \<Rightarrow> account_key \<Rightarrow> nat \<Rightarrow> bool" where
  "within policy k n \<longleftrightarrow> (\<forall>c. policy_ceiling policy (fst k) (snd k) = Some c \<longrightarrow> n \<le> unat (rc_maximum c))"

text \<open>One transaction of some governor.\<close>

inductive gov_spec :: "account_hash \<Rightarrow> resource_policy \<Rightarrow> naming \<Rightarrow> resource_table \<Rightarrow> resource_table \<Rightarrow> bool"
  for H policy N where
  submitted: "request_ok q \<Longrightarrow> q \<in> nm_requests N \<Longrightarrow> T (rq_id q) = None \<Longrightarrow>
     gov_spec H policy N T (T(rq_id q \<mapsto> PendingRecord \<lparr>pd_request = q, pd_revision = 0\<rparr>))"
| dropped: "T i = Some (PendingRecord p) \<Longrightarrow> gov_spec H policy N T (T(i := None))"
| granted: "request_ok q \<Longrightarrow> q \<in> nm_requests N \<Longrightarrow> T (rq_id q) = Some (PendingRecord p) \<Longrightarrow> T i = None \<Longrightarrow>
     nm_ticket N i = Some q \<Longrightarrow>
     ls_id x = i \<Longrightarrow> ls_request x = q \<Longrightarrow>
     accounts_moved H T T1 (path_keys (rq_path q) (rq_resource q)) (raised (unat (rq_units q))) \<Longrightarrow>
     (\<And>k. k \<in> path_keys (rq_path q) (rq_resource q) \<Longrightarrow> within policy k (fst (table_values H T1 k))) \<Longrightarrow>
     gov_spec H policy N T (T1(i \<mapsto> LeaseRecord x, rq_id q := None))"
| released: "T i = Some (LeaseRecord x) \<Longrightarrow>
     accounts_moved H T T1 (path_keys (rq_path (ls_request x)) (rq_resource (ls_request x)))
       (lowered (unat (rq_units (ls_request x)))) \<Longrightarrow>
     gov_spec H policy N T (T1(i := None))"
| renewed: "T i = Some (LeaseRecord x) \<Longrightarrow> ls_id y = i \<Longrightarrow> ls_request y = ls_request x \<Longrightarrow>
     ls_revision x < ls_revision y \<Longrightarrow> gov_spec H policy N T (T(i \<mapsto> LeaseRecord y))"
| consumed: "\<not> is_concurrency r \<Longrightarrow> set path \<subseteq> nm_scopes N \<Longrightarrow>
     accounts_moved H T T1 (path_keys path r) (spent u) \<Longrightarrow>
     (\<And>k. k \<in> path_keys path r \<Longrightarrow> within policy k (snd (table_values H T1 k))) \<Longrightarrow>
     gov_spec H policy N T T1"

section \<open>The books balance\<close>

definition gov_inv :: "account_hash \<Rightarrow> resource_policy \<Rightarrow> naming \<Rightarrow> resource_table \<Rightarrow> bool" where
  "gov_inv H policy N T \<longleftrightarrow>
     finite (dom (leases_of T))
     \<and> (\<forall>i a. T i = Some (AccountRecord a) \<longrightarrow>
          account_id H (account_key_of a) = Inr i \<and> ac_scope a \<in> nm_scopes N)
     \<and> (\<forall>i p. T i = Some (PendingRecord p) \<longrightarrow>
          request_ok (pd_request p) \<and> pd_request p \<in> nm_requests N \<and> rq_id (pd_request p) = i)
     \<and> (\<forall>i x. T i = Some (LeaseRecord x) \<longrightarrow>
          ls_id x = i \<and> request_ok (ls_request x) \<and> ls_request x \<in> nm_requests N \<and> nm_ticket N i = Some (ls_request x))
     \<and> (\<forall>k. fst (table_values H T k) = lease_load T k)
     \<and> (\<forall>k. within policy k (fst (table_values H T k)) \<and> within policy k (snd (table_values H T k)))"

lemma gov_invD:
  assumes "gov_inv H policy N T"
  shows "finite (dom (leases_of T))"
    and "T i = Some (AccountRecord a) \<Longrightarrow> account_id H (account_key_of a) = Inr i \<and> ac_scope a \<in> nm_scopes N"
    and "T i = Some (PendingRecord p) \<Longrightarrow>
      request_ok (pd_request p) \<and> pd_request p \<in> nm_requests N \<and> rq_id (pd_request p) = i"
    and "T i = Some (LeaseRecord x) \<Longrightarrow>
      ls_id x = i \<and> request_ok (ls_request x) \<and> ls_request x \<in> nm_requests N \<and> nm_ticket N i = Some (ls_request x)"
    and "fst (table_values H T k) = lease_load T k"
    and "within policy k (fst (table_values H T k))" and "within policy k (snd (table_values H T k))"
  using assms unfolding gov_inv_def by blast+

lemma gov_invI:
  assumes "finite (dom (leases_of T))"
    and "\<And>i a. T i = Some (AccountRecord a) \<Longrightarrow> account_id H (account_key_of a) = Inr i \<and> ac_scope a \<in> nm_scopes N"
    and "\<And>i p. T i = Some (PendingRecord p) \<Longrightarrow>
      request_ok (pd_request p) \<and> pd_request p \<in> nm_requests N \<and> rq_id (pd_request p) = i"
    and "\<And>i x. T i = Some (LeaseRecord x) \<Longrightarrow>
      ls_id x = i \<and> request_ok (ls_request x) \<and> ls_request x \<in> nm_requests N \<and> nm_ticket N i = Some (ls_request x)"
    and "\<And>k. fst (table_values H T k) = lease_load T k"
    and "\<And>k. within policy k (fst (table_values H T k))" and "\<And>k. within policy k (snd (table_values H T k))"
  shows "gov_inv H policy N T"
  using assms unfolding gov_inv_def by blast

lemma gov_inv_empty: "gov_inv H policy N Map.empty"
  by (rule gov_invI)
    (auto simp: leases_of_def dom_def table_values_def account_at_def lease_load_def within_def split: sum.splits)

text \<open>Where no account is stored, a change of the table is not seen in the accounts; a change of
  accounts is not seen in the leases.\<close>

lemma table_values_other:
  assumes "\<And>a. T i \<noteq> Some (AccountRecord a)" and "\<And>a. r \<noteq> Some (AccountRecord a)"
  shows "table_values H (T(i := r)) = table_values H T"
proof
  fix k
  have "account_at H (T(i := r)) k = account_at H T k"
    using assms by (auto simp: account_at_def split: sum.splits option.splits stored_resource.splits)
  then show "table_values H (T(i := r)) k = table_values H T k" by (simp add: table_values_def)
qed

lemma leases_of_upd:
  "leases_of (T(i := r)) = (leases_of T)(i := (case r of Some (LeaseRecord x) \<Rightarrow> Some x | _ \<Rightarrow> None))"
  by (auto simp: leases_of_def fun_eq_iff)

lemma accounts_moved_same:
  assumes "accounts_moved H T T' K f" and "\<And>k. k \<in> K \<Longrightarrow> account_id H k \<noteq> Inr j"
  shows "T' j = T j"
  using assms unfolding accounts_moved_def by blast

lemma accounts_moved_key:
  assumes "accounts_moved H T T' K f" and "k \<in> K"
  obtains j a where "account_id H k = Inr j" and "T' j = Some (AccountRecord a)" and "account_key_of a = k"
    and "T j = None \<or> (\<exists>b. T j = Some (AccountRecord b) \<and> ac_revision b < ac_revision a)"
    and "f (table_values H T k) (table_values H T' k)"
proof -
  obtain j a where *: "account_id H k = Inr j" "T' j = Some (AccountRecord a)" "account_key_of a = k"
    "case T j of None \<Rightarrow> f (0, 0) (account_values a)
     | Some (AccountRecord b) \<Rightarrow>
         account_key_of b = k \<and> ac_revision b < ac_revision a \<and> f (account_values b) (account_values a)
     | _ \<Rightarrow> False"
    using assms unfolding accounts_moved_def by blast
  then have "T j = None \<or> (\<exists>b. T j = Some (AccountRecord b) \<and> ac_revision b < ac_revision a)"
    and "f (table_values H T k) (table_values H T' k)"
    by (auto simp: table_values_def account_at_def split: option.splits stored_resource.splits)
  with * that show ?thesis by blast
qed

lemma accounts_moved_leases:
  assumes "accounts_moved H T T' K f"
  shows "leases_of T' = leases_of T"
proof
  fix i
  show "leases_of T' i = leases_of T i"
  proof (cases "\<exists>k \<in> K. account_id H k = Inr i")
    case True
    then obtain k where k: "k \<in> K" "account_id H k = Inr i" by blast
    obtain j a where "account_id H k = Inr j" "T' j = Some (AccountRecord a)"
      "T j = None \<or> (\<exists>b. T j = Some (AccountRecord b) \<and> ac_revision b < ac_revision a)"
      by (rule accounts_moved_key [OF assms k(1)])
    then show ?thesis using k(2) by (auto simp: leases_of_def)
  next
    case False
    then show ?thesis using accounts_moved_same [OF assms, of i] by (auto simp: leases_of_def)
  qed
qed

lemma accounts_moved_record:
  assumes "accounts_moved H T T' K f" and "T' i = Some r"
  shows "T i = Some r \<or> (\<exists>a. r = AccountRecord a \<and> account_id H (account_key_of a) = Inr i)"
proof (cases "\<exists>k \<in> K. account_id H k = Inr i")
  case True
  then obtain k where k: "k \<in> K" "account_id H k = Inr i" by blast
  obtain j a where "account_id H k = Inr j" "T' j = Some (AccountRecord a)" "account_key_of a = k"
    by (rule accounts_moved_key [OF assms(1) k(1)])
  then show ?thesis using k(2) assms(2) by auto
next
  case False
  then show ?thesis using accounts_moved_same [OF assms(1), of i] assms(2) by auto
qed

lemma accounts_moved_kept:
  assumes "accounts_moved H T T' K f" and "T i = Some r" and "\<And>a. r \<noteq> AccountRecord a"
  shows "T' i = Some r"
proof (cases "\<exists>k \<in> K. account_id H k = Inr i")
  case True
  then obtain k where k: "k \<in> K" "account_id H k = Inr i" by blast
  obtain j a where "account_id H k = Inr j" "T' j = Some (AccountRecord a)"
    "T j = None \<or> (\<exists>b. T j = Some (AccountRecord b) \<and> ac_revision b < ac_revision a)"
    by (rule accounts_moved_key [OF assms(1) k(1)])
  then show ?thesis using k(2) assms(2,3) by auto
next
  case False
  then show ?thesis using accounts_moved_same [OF assms(1), of i] assms(2) by auto
qed

lemma accounts_moved_others:
  assumes "accounts_moved H T T' K f" and "naming_ok H N" and "fst ` K \<subseteq> nm_scopes N" and "k \<notin> K"
    and stored: "\<And>i a. T i = Some (AccountRecord a) \<Longrightarrow> ac_scope a \<in> nm_scopes N"
  shows "table_values H T' k = table_values H T k"
proof (cases "account_id H k")
  case (Inr j)
  show ?thesis
  proof (cases "\<exists>l \<in> K. account_id H l = Inr j")
    case True
    then obtain l where l: "l \<in> K" "account_id H l = Inr j" by blast
    then have out: "fst k \<notin> nm_scopes N" using assms(3,4) Inr naming_inj [OF assms(2)] by blast
    obtain i a where "account_id H l = Inr i" "T' i = Some (AccountRecord a)" "account_key_of a = l"
      by (rule accounts_moved_key [OF assms(1) l(1)])
    then have "account_at H T' k = None" using l Inr assms(4) by (auto simp: account_at_def)
    moreover have "account_at H T k = None"
      using Inr out stored [of j]
      by (auto simp: account_at_def account_key_of_def split: option.splits stored_resource.splits)
    ultimately show ?thesis by (simp add: table_values_def)
  next
    case False
    then show ?thesis
      using accounts_moved_same [OF assms(1), of j] Inr by (auto simp: table_values_def account_at_def)
  qed
qed (simp add: table_values_def account_at_def)

text \<open>The load after granting, releasing and renewing a lease.\<close>

lemma lease_load_cong: "leases_of T' = leases_of T \<Longrightarrow> lease_load T' k = lease_load T k"
  by (simp add: lease_load_def)

lemma lease_load_grant:
  assumes "finite (dom (leases_of T))" and "leases_of T i = None" and "leases_of T' = (leases_of T)(i \<mapsto> x)"
  shows "lease_load T' k = lease_load T k + lease_weight k x"
proof -
  have "lease_load T' k = lease_weight k x + (\<Sum>j \<in> dom (leases_of T). lease_weight k (the (((leases_of T)(i \<mapsto> x)) j)))"
    using assms by (simp add: lease_load_def sum.insert domIff)
  also have "(\<Sum>j \<in> dom (leases_of T). lease_weight k (the (((leases_of T)(i \<mapsto> x)) j))) = lease_load T k"
    unfolding lease_load_def using assms(2) by (intro sum.cong) auto
  finally show ?thesis by simp
qed

lemma lease_load_release:
  assumes "finite (dom (leases_of T))" and "leases_of T i = Some x" and "leases_of T' = (leases_of T)(i := None)"
  shows "lease_load T k = lease_load T' k + lease_weight k x"
proof -
  have "leases_of T = (leases_of T')(i \<mapsto> x)" using assms(2,3) by auto
  moreover have "finite (dom (leases_of T'))" "leases_of T' i = None" using assms(1,3) by auto
  ultimately show ?thesis using lease_load_grant by metis
qed

lemma lease_weight_request: "ls_request y = ls_request x \<Longrightarrow> lease_weight k y = lease_weight k x"
  by (simp add: lease_weight_def)

lemma lease_weight_keys:
  "lease_weight k x = (if k \<in> path_keys (rq_path (ls_request x)) (rq_resource (ls_request x))
     then unat (rq_units (ls_request x)) else 0)"
  by (cases k) (auto simp: lease_weight_def path_keys_def)


section \<open>Every transaction keeps the books\<close>

lemma accounts_moved_inv:
  assumes inv: "gov_inv H policy N T" and moved: "accounts_moved H T T' K f" and scopes: "fst ` K \<subseteq> nm_scopes N"
  shows "T' i = Some (AccountRecord a) \<Longrightarrow> account_id H (account_key_of a) = Inr i \<and> ac_scope a \<in> nm_scopes N"
    and "T' i = Some (PendingRecord p) \<Longrightarrow> T i = Some (PendingRecord p)"
    and "T' i = Some (LeaseRecord x) \<Longrightarrow> T i = Some (LeaseRecord x)"
proof -
  show "account_id H (account_key_of a) = Inr i \<and> ac_scope a \<in> nm_scopes N" if "T' i = Some (AccountRecord a)"
  proof (cases "\<exists>k \<in> K. account_id H k = Inr i")
    case True
    then obtain k where k: "k \<in> K" "account_id H k = Inr i" by blast
    obtain j b where "account_id H k = Inr j" "T' j = Some (AccountRecord b)" "account_key_of b = k"
      by (rule accounts_moved_key [OF moved k(1)])
    then show ?thesis using k that scopes by (auto simp: account_key_of_def)
  next
    case False
    then have "T i = Some (AccountRecord a)" using accounts_moved_same [OF moved, of i] that by auto
    then show ?thesis by (rule gov_invD(2) [OF inv])
  qed
qed (use accounts_moved_record [OF moved, of i] in auto)

lemma accounts_moved_values:
  assumes inv: "gov_inv H policy N T" and moved: "accounts_moved H T T' K f" and scopes: "fst ` K \<subseteq> nm_scopes N"
    and naming: "naming_ok H N"
  shows "if k \<in> K then f (table_values H T k) (table_values H T' k) else table_values H T' k = table_values H T k"
proof (cases "k \<in> K")
  case True
  have "f (table_values H T k) (table_values H T' k)" by (rule accounts_moved_key [OF moved True])
  then show ?thesis using True by simp
next
  case False
  then show ?thesis
    using accounts_moved_others [OF moved naming scopes False] gov_invD(2) [OF inv] by simp
qed

lemma path_keys_scopes: "fst ` path_keys path r = set path"
  by (auto simp: path_keys_def image_iff)

lemma submitted_inv:
  assumes inv: "gov_inv H policy N T" and q: "request_ok q" "q \<in> nm_requests N" and none: "T (rq_id q) = None"
  shows "gov_inv H policy N (T(rq_id q \<mapsto> PendingRecord \<lparr>pd_request = q, pd_revision = 0\<rparr>))"
    (is "gov_inv H policy N ?T")
proof -
  have vals: "table_values H ?T = table_values H T" using none by (intro table_values_other) auto
  have leases: "leases_of ?T = leases_of T"
    using none unfolding leases_of_upd by (auto simp: leases_of_def fun_eq_iff)
  show ?thesis
    using gov_invD [OF inv] q by (intro gov_invI) (auto simp: vals leases lease_load_cong [OF leases] split: if_splits)
qed

lemma dropped_inv:
  assumes inv: "gov_inv H policy N T" and p: "T i = Some (PendingRecord p)"
  shows "gov_inv H policy N (T(i := None))" (is "gov_inv H policy N ?T")
proof -
  have vals: "table_values H ?T = table_values H T" using p by (intro table_values_other) auto
  have leases: "leases_of ?T = leases_of T"
    using p unfolding leases_of_upd by (auto simp: leases_of_def fun_eq_iff)
  show ?thesis
    using gov_invD [OF inv] by (intro gov_invI) (auto simp: vals leases lease_load_cong [OF leases] split: if_splits)
qed

lemma granted_free:
  assumes naming: "naming_ok H N" and q: "q \<in> nm_requests N" and ticket: "nm_ticket N i = Some q"
    and none: "T i = None" and moved: "accounts_moved H T T1 (path_keys (rq_path q) r) f"
  shows "T1 i = None" and "rq_id q \<noteq> i"
proof -
  have "account_id H k \<noteq> Inr i" if "k \<in> path_keys (rq_path q) r" for k
    using naming_ticket [OF naming _ ticket, of k] naming_request(1) [OF naming q] that by (auto simp: path_keys_def)
  then show "T1 i = None" using accounts_moved_same [OF moved, of i] none by simp
  show "rq_id q \<noteq> i" using naming_request(2) [OF naming q] ticket by auto
qed

lemma granted_inv:
  assumes inv: "gov_inv H policy N T" and naming: "naming_ok H N" and q: "request_ok q" "q \<in> nm_requests N"
    and p: "T (rq_id q) = Some (PendingRecord p)" and none: "T i = None" and ticket: "nm_ticket N i = Some q"
    and x: "ls_id x = i" "ls_request x = q"
    and moved: "accounts_moved H T T1 (path_keys (rq_path q) (rq_resource q)) (raised (unat (rq_units q)))"
    and limit: "\<And>k. k \<in> path_keys (rq_path q) (rq_resource q) \<Longrightarrow> within policy k (fst (table_values H T1 k))"
  shows "gov_inv H policy N (T1(i \<mapsto> LeaseRecord x, rq_id q := None))" (is "gov_inv H policy N ?T")
proof -
  let ?K = "path_keys (rq_path q) (rq_resource q)"
  have scopes: "fst ` ?K \<subseteq> nm_scopes N" using naming_request(1) [OF naming q(2)] by (simp add: path_keys_scopes)
  note free = granted_free [OF naming q(2) ticket none moved]
  have pend: "T1 (rq_id q) = Some (PendingRecord p)" by (rule accounts_moved_kept [OF moved p]) simp
  have vals: "table_values H ?T = table_values H T1"
    using free pend by (subst table_values_other; (subst table_values_other)?) auto
  have leases: "leases_of ?T = (leases_of T)(i \<mapsto> x)"
    using p free unfolding leases_of_upd accounts_moved_leases [OF moved] by (auto simp: leases_of_def fun_eq_iff)
  have load: "lease_load ?T k = lease_load T k + lease_weight k x" for k
    using none by (intro lease_load_grant [OF gov_invD(1) [OF inv] _ leases]) (simp add: leases_of_def)
  note step = accounts_moved_values [OF inv moved scopes naming]
  note weight = lease_weight_keys [of _ x, unfolded x(2)]
  show ?thesis
  proof (rule gov_invI, goal_cases)
    case 1
    then show ?case using gov_invD(1) [OF inv] by (simp add: leases)
  next
    case (2 j a)
    then have "T1 j = Some (AccountRecord a)" by (simp split: if_splits)
    then show ?case by (rule accounts_moved_inv(1) [OF inv moved scopes])
  next
    case (3 j r)
    then have "T1 j = Some (PendingRecord r)" by (simp split: if_splits)
    then show ?case by (intro gov_invD(3) [OF inv] accounts_moved_inv(2) [OF inv moved scopes])
  next
    case (4 j y)
    show ?case
    proof (cases "j = i")
      case True
      then have "y = x" using 4 free by simp
      then show ?thesis using True q ticket x by simp
    next
      case False
      then have "T1 j = Some (LeaseRecord y)" using 4 by (simp split: if_splits)
      then show ?thesis by (intro gov_invD(4) [OF inv] accounts_moved_inv(3) [OF inv moved scopes])
    qed
  next
    case (5 k)
    then show ?case using step [of k] gov_invD(5) [OF inv, of k] unfolding vals load weight by (auto simp: raised_def)
  next
    case (6 k)
    then show ?case
      using limit [of k] step [of k] gov_invD(6) [OF inv, of k] unfolding vals by (auto split: if_splits)
  next
    case (7 k)
    then show ?case
      using step [of k] gov_invD(7) [OF inv, of k] unfolding vals by (auto simp: raised_def split: if_splits)
  qed
qed

lemma released_inv:
  assumes inv: "gov_inv H policy N T" and naming: "naming_ok H N" and x: "T i = Some (LeaseRecord x)"
    and moved: "accounts_moved H T T1 (path_keys (rq_path (ls_request x)) (rq_resource (ls_request x)))
       (lowered (unat (rq_units (ls_request x))))"
  shows "gov_inv H policy N (T1(i := None))" (is "gov_inv H policy N ?T")
proof -
  let ?K = "path_keys (rq_path (ls_request x)) (rq_resource (ls_request x))"
  have scopes: "fst ` ?K \<subseteq> nm_scopes N"
    using naming_request(1) [OF naming, of "ls_request x"] gov_invD(4) [OF inv x] by (simp add: path_keys_scopes)
  have vals: "table_values H ?T = table_values H T1"
    using accounts_moved_kept [OF moved x] by (intro table_values_other) auto
  have leases: "leases_of ?T = (leases_of T)(i := None)"
    unfolding leases_of_upd accounts_moved_leases [OF moved] by simp
  have load: "lease_load T k = lease_load ?T k + lease_weight k x" for k
    using x by (intro lease_load_release [OF gov_invD(1) [OF inv] _ leases]) (simp add: leases_of_def)
  note step = accounts_moved_values [OF inv moved scopes naming]
  show ?thesis
  proof (rule gov_invI, goal_cases)
    case 1
    then show ?case using gov_invD(1) [OF inv] by (simp add: leases)
  next
    case (2 j a)
    then have "T1 j = Some (AccountRecord a)" by (simp split: if_splits)
    then show ?case by (rule accounts_moved_inv(1) [OF inv moved scopes])
  next
    case (3 j r)
    then have "T1 j = Some (PendingRecord r)" by (simp split: if_splits)
    then show ?case by (intro gov_invD(3) [OF inv] accounts_moved_inv(2) [OF inv moved scopes])
  next
    case (4 j y)
    then have "T1 j = Some (LeaseRecord y)" by (simp split: if_splits)
    then show ?case by (intro gov_invD(4) [OF inv] accounts_moved_inv(3) [OF inv moved scopes])
  next
    case (5 k)
    then show ?case
      using step [of k] gov_invD(5) [OF inv, of k] load [of k] unfolding vals lease_weight_keys
      by (auto simp: lowered_def split: if_splits)
  next
    case (6 k)
    then show ?case
      using step [of k] gov_invD(6) [OF inv, of k] unfolding vals
      by (auto simp: lowered_def within_def split: if_splits)
  next
    case (7 k)
    then show ?case
      using step [of k] gov_invD(7) [OF inv, of k] unfolding vals by (auto simp: lowered_def split: if_splits)
  qed
qed

lemma renewed_inv:
  assumes inv: "gov_inv H policy N T" and x: "T i = Some (LeaseRecord x)" and y: "ls_id y = i" "ls_request y = ls_request x"
  shows "gov_inv H policy N (T(i \<mapsto> LeaseRecord y))" (is "gov_inv H policy N ?T")
proof -
  have vals: "table_values H ?T = table_values H T" using x by (intro table_values_other) auto
  have leases: "leases_of ?T = (leases_of T)(i \<mapsto> y)" unfolding leases_of_upd by simp
  have "lease_load ?T k = lease_load T k" for k
    unfolding lease_load_def leases using x lease_weight_request [OF y(2)]
    by (intro sum.cong) (auto simp: leases_of_def)
  then show ?thesis
    using gov_invD [OF inv] x y by (intro gov_invI) (auto simp: vals leases split: if_splits)
qed

lemma consumed_inv:
  assumes inv: "gov_inv H policy N T" and naming: "naming_ok H N" and path: "set path \<subseteq> nm_scopes N"
    and moved: "accounts_moved H T T1 (path_keys path r) (spent u)"
    and limit: "\<And>k. k \<in> path_keys path r \<Longrightarrow> within policy k (snd (table_values H T1 k))"
  shows "gov_inv H policy N T1"
proof -
  have scopes: "fst ` path_keys path r \<subseteq> nm_scopes N" using path by (simp add: path_keys_scopes)
  note step = accounts_moved_values [OF inv moved scopes naming]
  have same: "fst (table_values H T1 k) = fst (table_values H T k)" for k
    using step [of k] by (auto simp: spent_def split: if_splits)
  note leases = accounts_moved_leases [OF moved]
  show ?thesis
  proof (rule gov_invI, goal_cases)
    case (2 i a)
    then show ?case by (rule accounts_moved_inv(1) [OF inv moved scopes])
  next
    case (3 j r)
    then show ?case by (intro gov_invD(3) [OF inv] accounts_moved_inv(2) [OF inv moved scopes])
  next
    case (4 j y)
    then show ?case by (intro gov_invD(4) [OF inv] accounts_moved_inv(3) [OF inv moved scopes])
  next
    case (6 k)
    then show ?case using gov_invD(6) [OF inv, of k] same by simp
  next
    case (7 k)
    then show ?case using limit [of k] step [of k] gov_invD(7) [OF inv, of k] by (auto split: if_splits)
  qed (simp_all add: same leases lease_load_cong [OF leases] gov_invD(1,5) [OF inv])
qed

lemma gov_spec_inv:
  assumes "gov_spec H policy N T T'" and "naming_ok H N" and "gov_inv H policy N T"
  shows "gov_inv H policy N T'"
  using assms(1)
proof cases
  case submitted
  then show ?thesis using submitted_inv [OF assms(3)] by simp
next
  case dropped
  then show ?thesis using dropped_inv [OF assms(3)] by simp
next
  case (granted q p i x T1)
  show ?thesis unfolding granted(1) by (rule granted_inv [OF assms(3,2) granted(2-9)]) (rule granted(10))
next
  case (released i x T1)
  show ?thesis unfolding released(1) by (rule released_inv [OF assms(3,2) released(2,3)])
next
  case (renewed i x y)
  show ?thesis unfolding renewed(1) by (rule renewed_inv [OF assms(3) renewed(2-4)])
next
  case (consumed r path u)
  show ?thesis by (rule consumed_inv [OF assms(3,2) consumed(2,3)]) (rule consumed(4))
qed

lemma gov_specs_inv:
  assumes "(gov_spec H policy N)\<^sup>*\<^sup>* T T'" and "naming_ok H N" and "gov_inv H policy N T"
  shows "gov_inv H policy N T'"
  using assms(1,3) by (induction rule: rtranclp_induct) (auto intro: gov_spec_inv [OF _ assms(2)])
end
