(* ===== verification/Resource_Changes.thy ===== *)
theory Resource_Changes
  imports Resource_Accounts
begin

text \<open>
  From the records of a store to the table of the specification: what a cache may know of a table that
  other processes change, what the mutations built by an operation do when they take effect, and that
  every transaction an operation builds is a transaction of the specification, for any table that is
  consistent with its cache.
\<close>

section \<open>Tables of a store\<close>

definition governor_table :: "('s, 'j, 'e) governor \<Rightarrow> (collection \<Rightarrow> 'j view) \<Rightarrow> resource_table" where
  "governor_table G V = typed (decode_resource G) (V ResourceGovernance)"

definition decodable :: "('s, 'j, 'e) governor \<Rightarrow> (collection \<Rightarrow> 'j view) \<Rightarrow> bool" where
  "decodable G V \<longleftrightarrow>
     (\<forall>i r. V ResourceGovernance i = Some r \<longrightarrow> vr_id r = i \<and> (\<exists>x. decode_resource G r = Inr x))"

definition governed :: "('s, 'j, 'e) governor \<Rightarrow> naming \<Rightarrow> (collection \<Rightarrow> 'j view) \<Rightarrow> bool" where
  "governed G N V \<longleftrightarrow> decodable G V \<and> gov_inv (gv_hash G) (gv_policy G) N (governor_table G V)"

lemma decode_fields: "decode_resource G r = Inr x \<Longrightarrow> resource_id x = vr_id r \<and> resource_revision x = vr_revision r"
  by (auto simp: decode_resource_def split: sum.splits if_splits)

lemma governor_table_Some: "governor_table G V i = Some x \<longleftrightarrow> (\<exists>r. V ResourceGovernance i = Some r \<and> decode_resource G r = Inr x)"
  by (simp add: governor_table_def typed_Some)

lemma decodable_row:
  assumes "decodable G V" and "V ResourceGovernance i = Some r"
  obtains x where "governor_table G V i = Some x" and "resource_id x = i" and "resource_revision x = vr_revision r"
proof -
  obtain x where x: "decode_resource G r = Inr x" "vr_id r = i" using assms unfolding decodable_def by blast
  then show ?thesis using that [of x] decode_fields [OF x(1)] assms(2) by (auto simp: governor_table_Some)
qed

lemma put_mutation_effect:
  assumes "serde_ok (gv_serde G)" and "put_mutation G (resource_id x) x (resource_revision x) now p = Inr m"
    and "decodable G V" and "mutation_effect m V W"
  shows "governor_table G W = (governor_table G V)(resource_id x \<mapsto> x)" and "decodable G W"
    and "p = Missing \<Longrightarrow> governor_table G V (resource_id x) = None"
    and "p = Exact n \<Longrightarrow> \<exists>y. governor_table G V (resource_id x) = Some y \<and> resource_revision y = n"
proof -
  obtain j where j: "to_value (gv_serde G) x = Inr j"
    and m: "m = Put ResourceGovernance \<lparr>vr_version = CURRENT_SCHEMA_VERSION, vr_id = resource_id x,
      vr_revision = resource_revision x, vr_updated_at = now, vr_payload = j\<rparr> p" (is "m = Put _ ?r p")
    using assms(2) by (auto simp: put_mutation_def split: sum.splits)
  have dec: "decode_resource G ?r = Inr x"
    using serde_okD [OF assms(1) j] by (simp add: decode_resource_def)
  have put: "put_effect (V ResourceGovernance) ?r p (W ResourceGovernance)" using assms(4) m by simp
  show "governor_table G W = (governor_table G V)(resource_id x \<mapsto> x)"
    using typed_put [where dec = "decode_resource G", OF put dec] by (simp add: governor_table_def)
  show "decodable G W" using assms(3) dec put unfolding decodable_def put_effect_def by auto
  show "governor_table G V (resource_id x) = None" if "p = Missing"
    using put_effect_missing [of "V ResourceGovernance" ?r] put that by (simp add: governor_table_def typed_missing)
  show "\<exists>y. governor_table G V (resource_id x) = Some y \<and> resource_revision y = n" if exact: "p = Exact n"
  proof -
    obtain old where old: "V ResourceGovernance (resource_id x) = Some old" "vr_revision old = n"
      using put_effect_exact [of "V ResourceGovernance" ?r] put exact by auto
    then show ?thesis by (metis decodable_row [OF assms(3) old(1)])
  qed
qed

lemma delete_mutation_effect:
  assumes "decodable G V" and "mutation_effect (Delete ResourceGovernance i (Exact n)) V W"
  shows "governor_table G W = (governor_table G V)(i := None)" and "decodable G W"
    and "\<exists>y. governor_table G V i = Some y \<and> resource_revision y = n"
proof -
  have del: "delete_effect (V ResourceGovernance) i (Exact n) (W ResourceGovernance)" using assms(2) by simp
  show "governor_table G W = (governor_table G V)(i := None)"
    using del by (auto simp: delete_effect_def governor_table_def typed_def fun_eq_iff)
  show "decodable G W" using assms(1) del unfolding decodable_def delete_effect_def by auto
  obtain r where r: "V ResourceGovernance i = Some r" "vr_revision r = n" using del by (auto simp: delete_effect_def)
  then show "\<exists>y. governor_table G V i = Some y \<and> resource_revision y = n"
    by (metis decodable_row [OF assms(1) r(1)])
qed

section \<open>Caches\<close>

text \<open>
  A cache is a past reading of the table. Every cached account is the stored one or has been
  overtaken by a later revision; cached requests and leases may be gone.
\<close>

definition overtaken :: "account \<Rightarrow> account \<Rightarrow> bool" where
  "overtaken a b \<longleftrightarrow> b = a \<or> ac_revision a < ac_revision b"

definition known_request :: "naming \<Rightarrow> acquire_request \<Rightarrow> bool" where
  "known_request N q \<longleftrightarrow> request_ok q \<and> q \<in> nm_requests N"

definition accounts_ok :: "account_hash \<Rightarrow> naming \<Rightarrow> (account_key \<times> account) list \<Rightarrow> resource_table \<Rightarrow> bool" where
  "accounts_ok H N m T \<longleftrightarrow>
     (\<forall>k a. map_of m k = Some a \<longrightarrow>
        account_key_of a = k \<and> fst k \<in> nm_scopes N \<and> account_id H k = Inr (ac_id a)
        \<and> (\<exists>b. T (ac_id a) = Some (AccountRecord b) \<and> overtaken a b))"

definition cache_ok :: "account_hash \<Rightarrow> naming \<Rightarrow> governor_cache \<Rightarrow> resource_table \<Rightarrow> bool" where
  "cache_ok H N c T \<longleftrightarrow>
     accounts_ok H N (gc_accounts c) T
     \<and> (\<forall>i p. map_of (gc_pending c) i = Some p \<longrightarrow> rq_id (pd_request p) = i \<and> known_request N (pd_request p))
     \<and> (\<forall>i x. map_of (gc_leases c) i = Some x \<longrightarrow>
          ls_id x = i \<and> known_request N (ls_request x) \<and> nm_ticket N i = Some (ls_request x))
     \<and> bt_ok (gc_leases c)"

lemma cache_okD:
  assumes "cache_ok H N c T"
  shows "accounts_ok H N (gc_accounts c) T"
    and "map_of (gc_pending c) i = Some p \<Longrightarrow> rq_id (pd_request p) = i \<and> known_request N (pd_request p)"
    and "map_of (gc_leases c) i = Some x \<Longrightarrow>
      ls_id x = i \<and> known_request N (ls_request x) \<and> nm_ticket N i = Some (ls_request x)"
    and "bt_ok (gc_leases c)"
  using assms unfolding cache_ok_def by blast+

lemma cache_okI:
  assumes "accounts_ok H N (gc_accounts c) T"
    and "\<And>i p. map_of (gc_pending c) i = Some p \<Longrightarrow> rq_id (pd_request p) = i \<and> known_request N (pd_request p)"
    and "\<And>i x. map_of (gc_leases c) i = Some x \<Longrightarrow>
      ls_id x = i \<and> known_request N (ls_request x) \<and> nm_ticket N i = Some (ls_request x)"
    and "bt_ok (gc_leases c)"
  shows "cache_ok H N c T"
  using assms unfolding cache_ok_def by blast

lemma accounts_okD:
  assumes "accounts_ok H N m T" and "map_of m k = Some a"
  shows "account_key_of a = k" and "fst k \<in> nm_scopes N" and "account_id H k = Inr (ac_id a)"
    and "\<exists>b. T (ac_id a) = Some (AccountRecord b) \<and> overtaken a b"
  using assms unfolding accounts_ok_def by blast+

lemma cache_ok_lease_mem:
  "cache_ok H N c T \<Longrightarrow> x \<in> set (bt_values (gc_leases c)) \<Longrightarrow>
   known_request N (ls_request x) \<and> nm_ticket N (ls_id x) = Some (ls_request x)"
  using bt_values_iff [OF cache_okD(4)] cache_okD(3) by metis

lemma cache_ok_empty [simp]: "cache_ok H N empty_cache T"
  by (simp add: cache_ok_def accounts_ok_def empty_cache_def)

lemma cache_ok_last_tree [simp]: "cache_ok H N (c\<lparr>gc_last_tree := f\<rparr>) T = cache_ok H N c T"
  by (simp add: cache_ok_def)

lemma cache_ok_insert_pending:
  "cache_ok H N c T \<Longrightarrow> known_request N (pd_request p) \<Longrightarrow>
   cache_ok H N (c\<lparr>gc_pending := bt_insert (rq_id (pd_request p)) p (gc_pending c)\<rparr>) T"
  by (auto simp: cache_ok_def split: if_splits)

lemma cache_ok_remove_pending:
  "cache_ok H N c T \<Longrightarrow> cache_ok H N (c\<lparr>gc_pending := bt_remove i (gc_pending c)\<rparr>) T"
  by (auto simp: cache_ok_def split: if_splits)

lemma cache_ok_insert_lease:
  "cache_ok H N c T \<Longrightarrow> known_request N (ls_request x) \<Longrightarrow> nm_ticket N (ls_id x) = Some (ls_request x) \<Longrightarrow>
   cache_ok H N (c\<lparr>gc_leases := bt_insert (ls_id x) x (gc_leases c)\<rparr>) T"
  by (auto simp: cache_ok_def split: if_splits)

lemma cache_ok_remove_lease:
  "cache_ok H N c T \<Longrightarrow> cache_ok H N (c\<lparr>gc_leases := bt_remove i (gc_leases c)\<rparr>) T"
  by (auto simp: cache_ok_def split: if_splits)

text \<open>No transaction removes an account or lowers its revision, so a cache stays a past reading.\<close>

definition accounts_grow :: "resource_table \<Rightarrow> resource_table \<Rightarrow> bool" where
  "accounts_grow T T' \<longleftrightarrow>
     (\<forall>i a. T i = Some (AccountRecord a) \<longrightarrow> (\<exists>b. T' i = Some (AccountRecord b) \<and> overtaken a b))"

lemma overtaken_refl [simp]: "overtaken a a"
  by (simp add: overtaken_def)

lemma overtaken_trans: "overtaken a b \<Longrightarrow> overtaken b c \<Longrightarrow> overtaken a c"
  by (auto simp: overtaken_def)

lemma accounts_moved_grow:
  assumes "accounts_moved H T T' K f"
  shows "accounts_grow T T'"
  unfolding accounts_grow_def
proof (intro allI impI)
  fix i a
  assume a: "T i = Some (AccountRecord a)"
  show "\<exists>b. T' i = Some (AccountRecord b) \<and> overtaken a b"
  proof (cases "\<exists>k \<in> K. account_id H k = Inr i")
    case True
    then obtain k where k: "k \<in> K" "account_id H k = Inr i" by blast
    obtain j b where "account_id H k = Inr j" "T' j = Some (AccountRecord b)"
      "T j = None \<or> (\<exists>a. T j = Some (AccountRecord a) \<and> ac_revision a < ac_revision b)"
      by (rule accounts_moved_key [OF assms k(1)])
    then show ?thesis using k(2) a by (auto simp: overtaken_def)
  next
    case False
    then show ?thesis using accounts_moved_same [OF assms, of i] a by auto
  qed
qed

lemma accounts_grow_upd:
  "accounts_grow T T' \<Longrightarrow> (\<And>a. T i \<noteq> Some (AccountRecord a)) \<Longrightarrow> accounts_grow T (T'(i := r))"
  by (auto simp: accounts_grow_def)

lemma gov_spec_accounts_grow: "gov_spec H policy N T T' \<Longrightarrow> accounts_grow T T'"
proof (induction rule: gov_spec.induct)
  case (granted q T p i x T1)
  then show ?case by (intro accounts_grow_upd accounts_moved_grow) auto
next
  case (released T i x T1)
  then show ?case by (intro accounts_grow_upd accounts_moved_grow) auto
next
  case consumed
  then show ?case by (intro accounts_moved_grow)
qed (auto simp: accounts_grow_def)

lemma accounts_ok_grow: "accounts_ok H N m T \<Longrightarrow> accounts_grow T T' \<Longrightarrow> accounts_ok H N m T'"
  unfolding accounts_ok_def accounts_grow_def by (meson overtaken_trans)

lemma cache_ok_grow: "cache_ok H N c T \<Longrightarrow> accounts_grow T T' \<Longrightarrow> cache_ok H N c T'"
  unfolding cache_ok_def using accounts_ok_grow by blast

lemma cache_ok_steps: "(gov_spec H policy N)\<^sup>*\<^sup>* T T' \<Longrightarrow> cache_ok H N c T \<Longrightarrow> cache_ok H N c T'"
  by (induction rule: rtranclp_induct) (auto intro: cache_ok_grow gov_spec_accounts_grow)

text \<open>Reading the whole table.\<close>

lemma load_resources_ok:
  assumes "load_resources G c rs = Inr c'" and "cache_ok (gv_hash G) N c T"
    and "gov_inv (gv_hash G) policy N T"
    and "\<And>r x. r \<in> set rs \<Longrightarrow> decode_resource G r = Inr x \<Longrightarrow> T (vr_id r) = Some x"
  shows "cache_ok (gv_hash G) N c' T"
  using assms
proof (induction G c rs arbitrary: c' rule: load_resources.induct)
  case (2 G c r rs)
  obtain x where x: "decode_resource G r = Inr x" using 2(4) by (auto split: sum.splits)
  have T: "T (vr_id r) = Some x" using 2(7) x by simp
  note id = decode_fields [OF x]
  have rest: "T (vr_id r) = Some x" if "r \<in> set rs" "decode_resource G r = Inr x" for r x
    using 2(7) [of r x] that by simp
  show ?case
  proof (cases x)
    case (AccountRecord a)
    have "accounts_ok (gv_hash G) N (bt_insert (ac_scope a, ac_resource a) a (gc_accounts c)) T"
      using cache_okD(1) [OF 2(5)] gov_invD(2) [OF 2(6), of "vr_id r" a] T id
      unfolding AccountRecord accounts_ok_def by (auto simp: account_key_of_def)
    then have "cache_ok (gv_hash G) N (c\<lparr>gc_accounts := bt_insert (ac_scope a, ac_resource a) a (gc_accounts c)\<rparr>) T"
      using 2(5) by (simp add: cache_ok_def)
    then show ?thesis using 2(1) [OF x AccountRecord] 2(4,6) rest x AccountRecord by (auto split: if_splits)
  next
    case (PendingRecord p)
    have "known_request N (pd_request p)"
      using gov_invD(3) [OF 2(6), of "vr_id r" p] T PendingRecord by (simp add: known_request_def)
    note ok = cache_ok_insert_pending [OF 2(5) this]
    show ?thesis using 2(2) [OF x PendingRecord] 2(4,6) ok rest x PendingRecord by (auto split: if_splits)
  next
    case (LeaseRecord l)
    have "known_request N (ls_request l)" "nm_ticket N (ls_id l) = Some (ls_request l)"
      using gov_invD(4) [OF 2(6), of "vr_id r" l] T LeaseRecord by (simp_all add: known_request_def)
    note ok = cache_ok_insert_lease [OF 2(5) this]
    show ?thesis using 2(3) [OF x LeaseRecord] 2(4,6) ok rest x LeaseRecord by (auto split: if_splits)
  qed
qed simp

section \<open>Changes of accounts\<close>

definition cached_values :: "governor_cache \<Rightarrow> account_key \<Rightarrow> nat \<times> nat" where
  "cached_values c k = (case map_of (gc_accounts c) k of None \<Rightarrow> (0, 0) | Some a \<Rightarrow> account_values a)"

text \<open>What \<open>account_updates\<close> and the loop of \<open>release_locked\<close> have in common: for every scope of a path
  the changed account, written under a precondition that pins the cached one.\<close>

definition account_step ::
  "account_hash \<Rightarrow> (nat \<times> nat \<Rightarrow> nat \<times> nat \<Rightarrow> bool) \<Rightarrow> governor_cache \<Rightarrow> account_key \<Rightarrow> account \<Rightarrow>
   write_precondition \<Rightarrow> bool" where
  "account_step H f c k a p \<longleftrightarrow>
     account_key_of a = k \<and> account_id H k = Inr (ac_id a) \<and> f (cached_values c k) (account_values a)
     \<and> (case map_of (gc_accounts c) k of
          None \<Rightarrow> p = Missing
        | Some b \<Rightarrow> p = Exact (ac_revision b) \<and> ac_revision b < ac_revision a)"

fun account_changes ::
  "('s, 'j, 'e) governor \<Rightarrow> (nat \<times> nat \<Rightarrow> nat \<times> nat \<Rightarrow> bool) \<Rightarrow> governor_cache \<Rightarrow> resource_kind \<Rightarrow> timestamp \<Rightarrow>
   resource_scope list \<Rightarrow> (account_key \<times> account) list \<Rightarrow> 'j record_mutation list \<Rightarrow> bool" where
  "account_changes G f c r now [] ups ms \<longleftrightarrow> ups = [] \<and> ms = []"
| "account_changes G f c r now (s # path) ups ms \<longleftrightarrow>
     (\<exists>a p m ups' ms'. ups = ((s, r), a) # ups' \<and> ms = m # ms'
        \<and> account_step (gv_hash G) f c (s, r) a p
        \<and> put_mutation G (ac_id a) (AccountRecord a) (ac_revision a) now p = Inr m
        \<and> account_changes G f c r now path ups' ms')"

lemma account_update_step:
  assumes "account_update G c k u active now = Inr (a, p)" and "accounts_ok (gv_hash G) N (gc_accounts c) T"
  shows "account_step (gv_hash G) (if active then raised (unat u) else spent (unat u)) c k a p"
proof (cases "map_of (gc_accounts c) k")
  case None
  then show ?thesis
    using assms(1)
    by (auto simp: account_update_def account_step_def cached_values_def account_key_of_def account_values_def
          new_account_def raised_def spent_def dest!: checked_add_u64_Some split: sum.splits option.splits if_splits)
next
  case (Some b)
  note ok = accounts_okD [OF assms(2) Some]
  show ?thesis
    using assms(1) Some ok(1,3)
    by (auto simp: account_update_def account_step_def cached_values_def account_key_of_def account_values_def
          raised_def spent_def split: sum.splits option.splits if_splits)
      (simp_all add: checked_add_u64_Some checked_next_less)
qed

lemma account_release_step:
  assumes "account_release c k u now = Inr (a, p)" and "accounts_ok H N (gc_accounts c) T"
  shows "account_step H (lowered (unat u)) c k a p"
proof (cases "map_of (gc_accounts c) k")
  case None
  then show ?thesis using assms(1) by (simp add: account_release_def)
next
  case (Some b)
  note ok = accounts_okD [OF assms(2) Some]
  show ?thesis
    using assms(1) Some ok(1,3)
    by (auto simp: account_release_def account_step_def cached_values_def account_key_of_def account_values_def
          lowered_def split: option.splits if_splits)
      (simp_all add: checked_sub_u64_Some checked_next_less)
qed

lemma account_updates_changes:
  assumes "account_updates G c path r u active now = Inr (ups, ms)" and "accounts_ok (gv_hash G) N (gc_accounts c) T"
  shows "account_changes G (if active then raised (unat u) else spent (unat u)) c r now path ups ms"
  using assms
proof (induction path arbitrary: ups ms)
  case (Cons s path)
  then show ?case
    using account_update_step [OF _ Cons.prems(2), of "(s, r)" u active now]
    by (auto split: sum.splits prod.splits)
qed simp

lemma account_releases_changes:
  assumes "account_releases G c path r u now = Inr (ups, ms)" and "accounts_ok (gv_hash G) N (gc_accounts c) T"
  shows "account_changes G (lowered (unat u)) c r now path ups ms"
  using assms
proof (induction path arbitrary: ups ms)
  case (Cons s path)
  then show ?case
    using account_release_step [OF _ Cons.prems(2), of "(s, r)" u now]
    by (auto split: sum.splits prod.splits)
qed simp

text \<open>A write under such a precondition takes effect only if the cached account is the stored one.\<close>

lemma account_step_effect:
  assumes step: "account_step (gv_hash G) f c k a p" and ok: "accounts_ok (gv_hash G) N (gc_accounts c) (governor_table G V)"
    and serde: "serde_ok (gv_serde G)"
    and m: "put_mutation G (ac_id a) (AccountRecord a) (ac_revision a) now p = Inr m"
    and dec: "decodable G V" and eff: "mutation_effect m V W"
  shows "governor_table G W = (governor_table G V)(ac_id a \<mapsto> AccountRecord a)" and "decodable G W"
    and "case governor_table G V (ac_id a) of
           None \<Rightarrow> f (0, 0) (account_values a)
         | Some (AccountRecord b) \<Rightarrow>
             account_key_of b = k \<and> ac_revision b < ac_revision a \<and> f (account_values b) (account_values a)
         | _ \<Rightarrow> False"
    and "table_values (gv_hash G) (governor_table G V) k = cached_values c k"
proof -
  have m': "put_mutation G (resource_id (AccountRecord a)) (AccountRecord a) (resource_revision (AccountRecord a)) now p = Inr m"
    using m by simp
  note put = put_mutation_effect [OF serde m' dec eff]
  show "governor_table G W = (governor_table G V)(ac_id a \<mapsto> AccountRecord a)" "decodable G W" using put(1,2) by simp_all
  have "(case governor_table G V (ac_id a) of
           None \<Rightarrow> f (0, 0) (account_values a)
         | Some (AccountRecord b) \<Rightarrow>
             account_key_of b = k \<and> ac_revision b < ac_revision a \<and> f (account_values b) (account_values a)
         | _ \<Rightarrow> False) \<and> table_values (gv_hash G) (governor_table G V) k = cached_values c k"
  proof (cases "map_of (gc_accounts c) k")
    case None
    then show ?thesis
      using step put(3) by (auto simp: account_step_def cached_values_def table_values_def account_at_def)
  next
    case (Some b)
    note b = accounts_okD [OF ok Some]
    have id: "ac_id b = ac_id a" using b(3) step by (simp add: account_step_def)
    obtain b' where b': "governor_table G V (ac_id a) = Some (AccountRecord b')" "overtaken b b'"
      using b(4) id by auto
    have "ac_revision b' = ac_revision b"
      using put(4) [of "ac_revision b"] step Some b'(1) by (auto simp: account_step_def)
    then have "b' = b" using b'(2) by (auto simp: overtaken_def)
    then show ?thesis
      using b'(1) b(1) Some step by (auto simp: account_step_def cached_values_def table_values_def account_at_def)
  qed
  then show "case governor_table G V (ac_id a) of
           None \<Rightarrow> f (0, 0) (account_values a)
         | Some (AccountRecord b) \<Rightarrow>
             account_key_of b = k \<and> ac_revision b < ac_revision a \<and> f (account_values b) (account_values a)
         | _ \<Rightarrow> False"
    and "table_values (gv_hash G) (governor_table G V) k = cached_values c k" by blast+
qed

lemma accounts_moved_empty: "accounts_moved H T T {} f"
  by (simp add: accounts_moved_def)

lemma accounts_moved_insert:
  assumes moved: "accounts_moved H (T(j \<mapsto> AccountRecord a)) T' K f"
    and k: "account_id H k = Inr j" "account_key_of a = k" and other: "\<And>l. l \<in> K \<Longrightarrow> account_id H l \<noteq> Inr j"
    and step: "case T j of
           None \<Rightarrow> f (0, 0) (account_values a)
         | Some (AccountRecord b) \<Rightarrow>
             account_key_of b = k \<and> ac_revision b < ac_revision a \<and> f (account_values b) (account_values a)
         | _ \<Rightarrow> False"
  shows "accounts_moved H T T' (insert k K) f"
proof -
  have same: "T' j = Some (AccountRecord a)" using accounts_moved_same [OF moved, of j] other by auto
  have rest: "\<exists>j' a'. account_id H l = Inr j' \<and> T' j' = Some (AccountRecord a') \<and> account_key_of a' = l
     \<and> (case T j' of None \<Rightarrow> f (0, 0) (account_values a')
        | Some (AccountRecord b) \<Rightarrow>
            account_key_of b = l \<and> ac_revision b < ac_revision a' \<and> f (account_values b) (account_values a')
        | _ \<Rightarrow> False)" if l: "l \<in> K" for l
  proof -
    obtain j' a' where *: "account_id H l = Inr j'" "T' j' = Some (AccountRecord a')" "account_key_of a' = l"
      "case (T(j \<mapsto> AccountRecord a)) j' of None \<Rightarrow> f (0, 0) (account_values a')
        | Some (AccountRecord b) \<Rightarrow>
            account_key_of b = l \<and> ac_revision b < ac_revision a' \<and> f (account_values b) (account_values a')
        | _ \<Rightarrow> False"
      using moved l unfolding accounts_moved_def by blast
    have "j' \<noteq> j" using other [OF l] *(1) by auto
    then show ?thesis using * by auto
  qed
  show ?thesis
    unfolding accounts_moved_def
  proof (intro conjI allI impI ballI)
    fix i
    assume i: "\<forall>l \<in> insert k K. account_id H l \<noteq> Inr i"
    then have "T' i = (T(j \<mapsto> AccountRecord a)) i" using accounts_moved_same [OF moved, of i] by blast
    then show "T' i = T i" using i k(1) by auto
  next
    fix l
    assume "l \<in> insert k K"
    then consider "l = k" | "l \<in> K" by blast
    then show "\<exists>j a'. account_id H l = Inr j \<and> T' j = Some (AccountRecord a') \<and> account_key_of a' = l
     \<and> (case T j of None \<Rightarrow> f (0, 0) (account_values a')
        | Some (AccountRecord b) \<Rightarrow>
            account_key_of b = l \<and> ac_revision b < ac_revision a' \<and> f (account_values b) (account_values a')
        | _ \<Rightarrow> False)"
    proof cases
      case 1
      then show ?thesis using k same step by blast
    next
      case 2
      then show ?thesis by (rule rest)
    qed
  qed
qed

lemma table_values_upd: "account_id H k \<noteq> Inr i \<Longrightarrow> table_values H (T(i := r)) k = table_values H T k"
  by (cases "account_id H k") (auto simp: table_values_def account_at_def)

definition stored_change :: "account_hash \<Rightarrow> resource_table \<Rightarrow> account_key \<times> account \<Rightarrow> bool" where
  "stored_change H T e \<longleftrightarrow>
     account_key_of (snd e) = fst e \<and> account_id H (fst e) = Inr (ac_id (snd e))
     \<and> T (ac_id (snd e)) = Some (AccountRecord (snd e))"

lemma account_changes_effect:
  assumes "account_changes G f c r now path ups ms" and "mutations_effect (ms @ ns) V V'"
    and "decodable G V" and "accounts_ok (gv_hash G) N (gc_accounts c) (governor_table G V)"
    and serde: "serde_ok (gv_serde G)" and naming: "naming_ok (gv_hash G) N"
    and "distinct path" and "set path \<subseteq> nm_scopes N"
  shows "\<exists>W. mutations_effect ns W V' \<and> decodable G W
     \<and> accounts_moved (gv_hash G) (governor_table G V) (governor_table G W) (path_keys path r) f
     \<and> (\<forall>k \<in> path_keys path r. table_values (gv_hash G) (governor_table G V) k = cached_values c k)
     \<and> (\<forall>e \<in> set ups. fst e \<in> path_keys path r \<and> stored_change (gv_hash G) (governor_table G W) e)"
  using assms(1-4,7,8)
proof (induction path arbitrary: V ups ms)
  case Nil
  then show ?case by (auto simp: accounts_moved_empty path_keys_def)
next
  case (Cons s path)
  let ?H = "gv_hash G"
  obtain a p m ups' ms' where ups: "ups = ((s, r), a) # ups'" and ms: "ms = m # ms'"
    and step: "account_step ?H f c (s, r) a p"
    and m: "put_mutation G (ac_id a) (AccountRecord a) (ac_revision a) now p = Inr m"
    and rest: "account_changes G f c r now path ups' ms'"
    using Cons.prems(1) by auto
  obtain V1 where V1: "mutation_effect m V V1" "mutations_effect (ms' @ ns) V1 V'" using Cons.prems(2) ms by auto
  note eff = account_step_effect [OF step Cons.prems(4) serde m Cons.prems(3) V1(1)]
  have key: "account_id ?H (s, r) = Inr (ac_id a)" "account_key_of a = (s, r)"
    using step by (simp_all add: account_step_def)
  have K: "path_keys (s # path) r = insert (s, r) (path_keys path r)" by (auto simp: path_keys_def)
  have other: "account_id ?H l \<noteq> Inr (ac_id a)" if "l \<in> path_keys path r" for l
    using that naming_inj [OF naming, of l "(s, r)"] key(1) Cons.prems(5,6) by (auto simp: path_keys_def)
  have "accounts_moved ?H (governor_table G V) (governor_table G V1) (insert (s, r) {}) f"
    by (rule accounts_moved_insert [where T = "governor_table G V" and f = f, OF _ key _ eff(3)]) (simp_all add: eff(1) accounts_moved_empty)
  then have "accounts_ok ?H N (gc_accounts c) (governor_table G V1)"
    using accounts_ok_grow [OF Cons.prems(4)] accounts_moved_grow by blast
  moreover have "distinct path" "set path \<subseteq> nm_scopes N" using Cons.prems(5,6) by simp_all
  ultimately obtain W where W: "mutations_effect ns W V'" "decodable G W"
    and moved: "accounts_moved ?H (governor_table G V1) (governor_table G W) (path_keys path r) f"
    and vals: "\<forall>k \<in> path_keys path r. table_values ?H (governor_table G V1) k = cached_values c k"
    and changes: "\<forall>e \<in> set ups'. fst e \<in> path_keys path r \<and> stored_change ?H (governor_table G W) e"
    using Cons.IH [OF rest V1(2) eff(2)] by blast
  have "accounts_moved ?H (governor_table G V) (governor_table G W) (path_keys (s # path) r) f"
    unfolding K by (rule accounts_moved_insert [where T = "governor_table G V" and f = f, OF moved [unfolded eff(1)] key other eff(3)])
  moreover have "\<forall>k \<in> path_keys (s # path) r. table_values ?H (governor_table G V) k = cached_values c k"
    using vals eff(4) other unfolding K eff(1) by (auto simp: table_values_upd)
  moreover have "governor_table G W (ac_id a) = Some (AccountRecord a)"
    using accounts_moved_same [OF moved, of "ac_id a"] other by (auto simp: eff(1))
  then have "\<forall>e \<in> set ups. fst e \<in> path_keys (s # path) r \<and> stored_change ?H (governor_table G W) e"
    using changes key unfolding ups K by (auto simp: stored_change_def)
  ultimately show ?case using W by blast
qed

lemma accounts_ok_changes:
  assumes "accounts_ok H N m T" and "\<And>e. e \<in> set ups \<Longrightarrow> fst (fst e) \<in> nm_scopes N \<and> stored_change H T e"
  shows "accounts_ok H N (fold (\<lambda>(k, a) m. bt_insert k a m) ups m) T"
  using assms
proof (induction ups arbitrary: m)
  case (Cons e ups)
  obtain k a where e: "e = (k, a)" by (cases e)
  have "accounts_ok H N (bt_insert k a m) T"
    using Cons.prems(1) Cons.prems(2) [of e] unfolding e accounts_ok_def stored_change_def
    by (simp del: split_paired_All)
  then show ?case using Cons.IH Cons.prems(2) by (simp add: e)
qed simp

lemma exhausted_None:
  assumes "exhausted G c path r u active = Inr None" and "s \<in> set path"
  shows "within (gv_policy G) (s, r) ((if active then fst else snd) (cached_values c (s, r)) + unat u)"
  using assms
proof (induction path)
  case (Cons t path)
  show ?case
  proof (cases "s = t")
    case True
    have "n + unat u \<le> unat (rc_maximum ceiling)"
      if "policy_ceiling (gv_policy G) t r = Some ceiling"
        and "n = (if active then fst else snd) (cached_values c (t, r))" for ceiling n
      using Cons.prems(1) that
      by (auto simp: cached_values_def account_values_def word_le_nat_alt not_less dest!: checked_add_u64_Some
            split: option.splits if_splits)
    then show ?thesis using True by (simp add: within_def)
  next
    case False
    then show ?thesis using Cons by (auto split: option.splits if_splits)
  qed
qed simp

section \<open>Transactions of the operations\<close>

definition governor_step :: "('s, 'j, 'e) governor \<Rightarrow> naming \<Rightarrow> governor_cache \<Rightarrow> governor_cache \<Rightarrow> 'j record_mutation list \<Rightarrow> bool" where
  "governor_step G N c c1 ms \<longleftrightarrow>
     (\<forall>V V'. governed G N V \<longrightarrow> cache_ok (gv_hash G) N c (governor_table G V) \<longrightarrow> mutations_effect ms V V' \<longrightarrow>
        decodable G V' \<and> gov_spec (gv_hash G) (gv_policy G) N (governor_table G V) (governor_table G V')
        \<and> cache_ok (gv_hash G) N c1 (governor_table G V'))"

lemma governor_stepI:
  assumes "\<And>V V'. decodable G V \<Longrightarrow> gov_inv (gv_hash G) (gv_policy G) N (governor_table G V) \<Longrightarrow>
     cache_ok (gv_hash G) N c (governor_table G V) \<Longrightarrow> mutations_effect ms V V' \<Longrightarrow>
     decodable G V' \<and> gov_spec (gv_hash G) (gv_policy G) N (governor_table G V) (governor_table G V')
     \<and> (cache_ok (gv_hash G) N c (governor_table G V') \<longrightarrow> cache_ok (gv_hash G) N c1 (governor_table G V'))"
  shows "governor_step G N c c1 ms"
  unfolding governor_step_def governed_def
  using assms cache_ok_grow [OF _ gov_spec_accounts_grow] by blast

text \<open>Records of requests and leases are told apart from accounts by their identifiers.\<close>

lemma stored_pending:
  assumes "naming_ok H N" and "gov_inv H policy N T" and "q \<in> nm_requests N" and "T (rq_id q) = Some y"
  obtains p where "y = PendingRecord p"
proof (cases y)
  case (AccountRecord a)
  then show ?thesis
    using naming_request(3) [OF assms(1,3), of "account_key_of a"] gov_invD(2) [OF assms(2), of "rq_id q" a] assms(4)
    by (simp add: account_key_of_def)
next
  case (LeaseRecord x)
  then show ?thesis
    using naming_request(2) [OF assms(1,3)] gov_invD(4) [OF assms(2), of "rq_id q" x] assms(4) by simp
qed (rule that)

lemma stored_lease:
  assumes "naming_ok H N" and "gov_inv H policy N T" and "nm_ticket N i = Some q" and "T i = Some y"
  obtains x where "y = LeaseRecord x" and "ls_request x = q"
proof (cases y)
  case (AccountRecord a)
  then show ?thesis
    using naming_ticket [OF assms(1) _ assms(3), of "account_key_of a"] gov_invD(2) [OF assms(2), of i a] assms(4)
    by (simp add: account_key_of_def)
next
  case (PendingRecord p)
  then show ?thesis
    using naming_request(2) [OF assms(1), of "pd_request p"] gov_invD(3) [OF assms(2), of i p] assms(3,4) by auto
next
  case (LeaseRecord x)
  then show ?thesis using gov_invD(4) [OF assms(2), of i x] assms(3,4) that by simp
qed

lemma moved_elsewhere:
  assumes "accounts_moved H T T' (path_keys path r) f" and "naming_ok H N" and "set path \<subseteq> nm_scopes N"
    and "nm_ticket N i = Some q \<or> (\<exists>q \<in> nm_requests N. rq_id q = i)"
  shows "T' i = T i"
proof (rule accounts_moved_same [OF assms(1)])
  fix k
  assume "k \<in> path_keys path r"
  then have "fst k \<in> nm_scopes N" using assms(3) by (auto simp: path_keys_def)
  then show "account_id H k \<noteq> Inr i"
    using assms(4) naming_ticket [OF assms(2)] naming_request(3) [OF assms(2)] by blast
qed

lemma submit_step:
  assumes serde: "serde_ok (gv_serde G)" and q: "known_request N q"
    and m: "put_mutation G (rq_id q) (PendingRecord \<lparr>pd_request = q, pd_revision = revision_zero\<rparr>) revision_zero now Missing = Inr m"
  shows "governor_step G N c (c\<lparr>gc_pending := bt_insert (rq_id q) \<lparr>pd_request = q, pd_revision = revision_zero\<rparr> (gc_pending c)\<rparr>) [m]"
proof (rule governor_stepI)
  fix V V'
  assume dec: "decodable G V" and "mutations_effect [m] V V'"
  then have eff: "mutation_effect m V V'" by simp
  let ?x = "PendingRecord \<lparr>pd_request = q, pd_revision = revision_zero\<rparr>"
  have m': "put_mutation G (resource_id ?x) ?x (resource_revision ?x) now Missing = Inr m" using m by simp
  note put = put_mutation_effect [OF serde m' dec eff]
  have "gov_spec (gv_hash G) (gv_policy G) N (governor_table G V) (governor_table G V')"
    using gov_spec.submitted [of q N "governor_table G V" "gv_hash G" "gv_policy G"] put(1,3) q
    by (simp add: known_request_def revision_zero_def)
  then show "decodable G V' \<and> gov_spec (gv_hash G) (gv_policy G) N (governor_table G V) (governor_table G V')
    \<and> (cache_ok (gv_hash G) N c (governor_table G V') \<longrightarrow>
       cache_ok (gv_hash G) N (c\<lparr>gc_pending := bt_insert (rq_id q) \<lparr>pd_request = q, pd_revision = revision_zero\<rparr> (gc_pending c)\<rparr>)
         (governor_table G V'))"
    using put(2) q cache_ok_insert_pending [where p = "\<lparr>pd_request = q, pd_revision = revision_zero\<rparr>"] by auto
qed

lemma delete_pending_step:
  assumes naming: "naming_ok (gv_hash G) N" and q: "known_request N q"
  shows "governor_step G N c (c\<lparr>gc_pending := bt_remove (rq_id q) (gc_pending c)\<rparr>)
     [Delete ResourceGovernance (rq_id q) (Exact n)]"
proof (rule governor_stepI)
  fix V V'
  assume dec: "decodable G V" and inv: "gov_inv (gv_hash G) (gv_policy G) N (governor_table G V)"
    and "mutations_effect [Delete ResourceGovernance (rq_id q) (Exact n)] V V'"
  then have eff: "mutation_effect (Delete ResourceGovernance (rq_id q) (Exact n)) V V'"
    by (simp del: mutation_effect.simps)
  note del = delete_mutation_effect [OF dec eff]
  obtain y where y: "governor_table G V (rq_id q) = Some y" using del(3) by blast
  have "q \<in> nm_requests N" using q by (simp add: known_request_def)
  then obtain p where p: "y = PendingRecord p" by (rule stored_pending [OF naming inv _ y])
  have "gov_spec (gv_hash G) (gv_policy G) N (governor_table G V) (governor_table G V')"
    unfolding del(1) by (rule gov_spec.dropped [where T = "governor_table G V", OF y [unfolded p]])
  then show "decodable G V' \<and> gov_spec (gv_hash G) (gv_policy G) N (governor_table G V) (governor_table G V')
    \<and> (cache_ok (gv_hash G) N c (governor_table G V') \<longrightarrow>
       cache_ok (gv_hash G) N (c\<lparr>gc_pending := bt_remove (rq_id q) (gc_pending c)\<rparr>) (governor_table G V'))"
    using del(2) cache_ok_remove_pending by blast
qed

lemma known_path:
  assumes "naming_ok H N" and "known_request N q"
  shows "distinct (rq_path q)" and "set (rq_path q) \<subseteq> nm_scopes N" and "q \<in> nm_requests N"
  using assms naming_request(1) [OF assms(1)] by (auto simp: known_request_def request_ok_def path_ok_def)

lemma cache_ok_apply:
  assumes "cache_ok H N c T" and "set path \<subseteq> nm_scopes N"
    and "\<forall>e \<in> set ups. fst e \<in> path_keys path r \<and> stored_change H T e"
  shows "cache_ok H N (apply_accounts c ups) T"
proof -
  have "accounts_ok H N (fold (\<lambda>(k, a) m. bt_insert k a m) ups (gc_accounts c)) T"
    using assms(2,3) path_keys_scopes [of path r]
    by (intro accounts_ok_changes [OF cache_okD(1) [OF assms(1)]]) blast
  then show ?thesis using assms(1) by (simp add: cache_ok_def apply_accounts_def)
qed

lemma stored_change_cong: "T' (ac_id (snd e)) = T (ac_id (snd e)) \<Longrightarrow> stored_change H T' e = stored_change H T e"
  by (simp add: stored_change_def)

lemma usage_step:
  assumes serde: "serde_ok (gv_serde G)" and naming: "naming_ok (gv_hash G) N"
    and path: "distinct path" "set path \<subseteq> nm_scopes N" and kind: "\<not> is_concurrency r"
    and fits: "exhausted G c path r u False = Inr None"
    and ups: "account_updates G c path r u False now = Inr (ups, ms)"
  shows "governor_step G N c (apply_accounts c ups) ms"
proof (rule governor_stepI)
  fix V V'
  let ?H = "gv_hash G" and ?T = "governor_table G V" and ?K = "path_keys path r"
  assume dec: "decodable G V" and inv: "gov_inv ?H (gv_policy G) N ?T" and cache: "cache_ok ?H N c ?T"
    and eff: "mutations_effect ms V V'"
  have changes: "account_changes G (spent (unat u)) c r now path ups ms"
    using account_updates_changes [OF ups cache_okD(1) [OF cache]] by simp
  have "mutations_effect (ms @ []) V V'" using eff by simp
  from account_changes_effect [OF changes this dec cache_okD(1) [OF cache] serde naming path]
  have dec': "decodable G V'" and moved: "accounts_moved ?H ?T (governor_table G V') ?K (spent (unat u))"
    and vals: "\<forall>k \<in> ?K. table_values ?H ?T k = cached_values c k"
    and stored: "\<forall>e \<in> set ups. fst e \<in> ?K \<and> stored_change ?H (governor_table G V') e"
    by auto
  have limit: "within (gv_policy G) k (snd (table_values ?H (governor_table G V') k))" if k: "k \<in> ?K" for k
  proof -
    have "spent (unat u) (table_values ?H ?T k) (table_values ?H (governor_table G V') k)"
      by (rule accounts_moved_key [OF moved k])
    moreover obtain s where "k = (s, r)" "s \<in> set path" using k by (auto simp: path_keys_def)
    ultimately show ?thesis using exhausted_None [OF fits, of s] vals k by (auto simp: spent_def)
  qed
  have "gov_spec ?H (gv_policy G) N ?T (governor_table G V')"
    by (rule gov_spec.consumed [OF kind path(2) moved limit])
  then show "decodable G V' \<and> gov_spec ?H (gv_policy G) N ?T (governor_table G V')
    \<and> (cache_ok ?H N c (governor_table G V') \<longrightarrow> cache_ok ?H N (apply_accounts c ups) (governor_table G V'))"
    using dec' cache_ok_apply [OF _ path(2) stored] by blast
qed

lemma grant_step:
  assumes serde: "serde_ok (gv_serde G)" and naming: "naming_ok (gv_hash G) N" and q: "known_request N q"
    and x: "ls_request x = q" "ls_revision x = revision_zero" and ticket: "nm_ticket N (ls_id x) = Some q"
    and fits: "exhausted G c (rq_path q) (rq_resource q) (rq_units q) True = Inr None"
    and ups: "account_updates G c (rq_path q) (rq_resource q) (rq_units q) True now = Inr (ups, ms)"
    and m: "put_mutation G (ls_id x) (LeaseRecord x) revision_zero now Missing = Inr m"
  shows "governor_step G N c
     ((apply_accounts c ups)\<lparr>gc_pending := bt_remove (rq_id q) (gc_pending c),
        gc_leases := bt_insert (ls_id x) x (gc_leases c)\<rparr>)
     (ms @ [m, Delete ResourceGovernance (rq_id q) (Exact n)])"
proof (rule governor_stepI)
  fix V V'
  let ?H = "gv_hash G" and ?T = "governor_table G V" and ?K = "path_keys (rq_path q) (rq_resource q)"
  let ?c = "(apply_accounts c ups)\<lparr>gc_pending := bt_remove (rq_id q) (gc_pending c),
        gc_leases := bt_insert (ls_id x) x (gc_leases c)\<rparr>"
  assume dec: "decodable G V" and inv: "gov_inv ?H (gv_policy G) N ?T" and cache: "cache_ok ?H N c ?T"
    and eff: "mutations_effect (ms @ [m, Delete ResourceGovernance (rq_id q) (Exact n)]) V V'"
  note path = known_path [OF naming q]
  have changes: "account_changes G (raised (unat (rq_units q))) c (rq_resource q) now (rq_path q) ups ms"
    using account_updates_changes [OF ups cache_okD(1) [OF cache]] by simp
  from account_changes_effect [OF changes eff dec cache_okD(1) [OF cache] serde naming path(1,2)]
  obtain W where W: "mutations_effect [m, Delete ResourceGovernance (rq_id q) (Exact n)] W V'" "decodable G W"
    and moved: "accounts_moved ?H ?T (governor_table G W) ?K (raised (unat (rq_units q)))"
    and vals: "\<forall>k \<in> ?K. table_values ?H ?T k = cached_values c k"
    and stored: "\<forall>e \<in> set ups. fst e \<in> ?K \<and> stored_change ?H (governor_table G W) e"
    by blast
  obtain U where U: "mutation_effect m W U" "mutation_effect (Delete ResourceGovernance (rq_id q) (Exact n)) U V'"
    using W(1) by (auto simp del: mutation_effect.simps)
  have m': "put_mutation G (resource_id (LeaseRecord x)) (LeaseRecord x) (resource_revision (LeaseRecord x)) now Missing = Inr m"
    using m x(2) by simp
  note put = put_mutation_effect [OF serde m' W(2) U(1)]
  note del = delete_mutation_effect [OF put(2) U(2)]
  have ids: "rq_id q \<noteq> ls_id x" using naming_request(2) [OF naming path(3)] ticket by auto
  have same: "governor_table G W (ls_id x) = ?T (ls_id x)" "governor_table G W (rq_id q) = ?T (rq_id q)"
    using moved_elsewhere [OF moved naming path(2)] ticket path(3) by blast+
  obtain y where y: "?T (rq_id q) = Some y" using del(3) put(1) ids same(2) by auto
  obtain p where p: "y = PendingRecord p" by (rule stored_pending [OF naming inv path(3) y])
  have free: "?T (ls_id x) = None" using put(3) same(1) by simp
  have limit: "within (gv_policy G) k (fst (table_values ?H (governor_table G W) k))" if k: "k \<in> ?K" for k
  proof -
    have "raised (unat (rq_units q)) (table_values ?H ?T k) (table_values ?H (governor_table G W) k)"
      by (rule accounts_moved_key [OF moved k])
    moreover obtain s where "k = (s, rq_resource q)" "s \<in> set (rq_path q)" using k by (auto simp: path_keys_def)
    ultimately show ?thesis using exhausted_None [OF fits, of s] vals k by (auto simp: raised_def)
  qed
  have T': "governor_table G V' = (governor_table G W)(ls_id x \<mapsto> LeaseRecord x, rq_id q := None)"
    using del(1) put(1) by simp
  have spec: "gov_spec ?H (gv_policy G) N ?T (governor_table G V')"
    unfolding T' using q
    by (intro gov_spec.granted [where T = "governor_table G V", OF _ path(3) y [unfolded p] free ticket refl x(1) moved limit])
      (simp_all add: known_request_def)
  have "stored_change ?H (governor_table G V') e \<and> fst e \<in> ?K" if e: "e \<in> set ups" for e
  proof -
    have old: "stored_change ?H (governor_table G W) e" "fst e \<in> ?K" using stored e by blast+
    then have "fst (fst e) \<in> nm_scopes N" using path(2) by (auto simp: path_keys_def)
    then have "ac_id (snd e) \<noteq> ls_id x" "ac_id (snd e) \<noteq> rq_id q"
      using naming_ticket [OF naming _ ticket, of "fst e"] naming_request(3) [OF naming path(3), of "fst e"] old(1)
      by (auto simp: stored_change_def)
    then show ?thesis using old stored_change_cong [of "governor_table G V'" e "governor_table G W"] by (simp add: T')
  qed
  then have "cache_ok ?H N (apply_accounts c ups) (governor_table G V')" if "cache_ok ?H N c (governor_table G V')"
    using cache_ok_apply [OF that path(2)] by blast
  then have "cache_ok ?H N ?c (governor_table G V')" if "cache_ok ?H N c (governor_table G V')"
    using cache_ok_insert_lease [OF cache_ok_remove_pending, of ?H N "apply_accounts c ups" _ x "rq_id q"] that q x ticket
    by (simp add: apply_accounts_def)
  then show "decodable G V' \<and> gov_spec ?H (gv_policy G) N ?T (governor_table G V')
    \<and> (cache_ok ?H N c (governor_table G V') \<longrightarrow> cache_ok ?H N ?c (governor_table G V'))"
    using del(2) spec by blast
qed

lemma release_step:
  assumes serde: "serde_ok (gv_serde G)" and naming: "naming_ok (gv_hash G) N" and q: "known_request N q"
    and ticket: "nm_ticket N i = Some q"
    and ups: "account_releases G c (rq_path q) (rq_resource q) (rq_units q) now = Inr (ups, ms)"
  shows "governor_step G N c ((apply_accounts c ups)\<lparr>gc_leases := bt_remove i (gc_leases c)\<rparr>)
     (ms @ [Delete ResourceGovernance i (Exact n)])"
proof (rule governor_stepI)
  fix V V'
  let ?H = "gv_hash G" and ?T = "governor_table G V" and ?K = "path_keys (rq_path q) (rq_resource q)"
  let ?c = "(apply_accounts c ups)\<lparr>gc_leases := bt_remove i (gc_leases c)\<rparr>"
  assume dec: "decodable G V" and inv: "gov_inv ?H (gv_policy G) N ?T" and cache: "cache_ok ?H N c ?T"
    and eff: "mutations_effect (ms @ [Delete ResourceGovernance i (Exact n)]) V V'"
  note path = known_path [OF naming q]
  note changes = account_releases_changes [OF ups cache_okD(1) [OF cache]]
  from account_changes_effect [OF changes eff dec cache_okD(1) [OF cache] serde naming path(1,2)]
  obtain W where W: "mutations_effect [Delete ResourceGovernance i (Exact n)] W V'" "decodable G W"
    and moved: "accounts_moved ?H ?T (governor_table G W) ?K (lowered (unat (rq_units q)))"
    and stored: "\<forall>e \<in> set ups. fst e \<in> ?K \<and> stored_change ?H (governor_table G W) e"
    by blast
  have U: "mutation_effect (Delete ResourceGovernance i (Exact n)) W V'" using W(1) by (auto simp del: mutation_effect.simps)
  note del = delete_mutation_effect [OF W(2) U]
  have "governor_table G W i = ?T i" using moved_elsewhere [OF moved naming path(2)] ticket by blast
  then obtain y where y: "?T i = Some y" using del(3) by auto
  obtain x where x: "y = LeaseRecord x" "ls_request x = q" by (rule stored_lease [OF naming inv ticket y])
  have spec: "gov_spec ?H (gv_policy G) N ?T (governor_table G V')"
    unfolding del(1) by (rule gov_spec.released [where T = "governor_table G V", OF y [unfolded x(1)]]) (simp add: x(2) moved)
  have "stored_change ?H (governor_table G V') e \<and> fst e \<in> ?K" if e: "e \<in> set ups" for e
  proof -
    have old: "stored_change ?H (governor_table G W) e" "fst e \<in> ?K" using stored e by blast+
    then have "fst (fst e) \<in> nm_scopes N" using path(2) by (auto simp: path_keys_def)
    then have "ac_id (snd e) \<noteq> i"
      using naming_ticket [OF naming _ ticket, of "fst e"] old(1) by (auto simp: stored_change_def)
    then show ?thesis using old stored_change_cong [of "governor_table G V'" e "governor_table G W"] by (simp add: del(1))
  qed
  then have "cache_ok ?H N (apply_accounts c ups) (governor_table G V')" if "cache_ok ?H N c (governor_table G V')"
    using cache_ok_apply [OF that path(2)] by blast
  then have "cache_ok ?H N ?c (governor_table G V')" if "cache_ok ?H N c (governor_table G V')"
    using cache_ok_remove_lease [of ?H N "apply_accounts c ups" _ i] that by (simp add: apply_accounts_def)
  then show "decodable G V' \<and> gov_spec ?H (gv_policy G) N ?T (governor_table G V')
    \<and> (cache_ok ?H N c (governor_table G V') \<longrightarrow> cache_ok ?H N ?c (governor_table G V'))"
    using del(2) spec by blast
qed

lemma heartbeat_step:
  assumes serde: "serde_ok (gv_serde G)" and naming: "naming_ok (gv_hash G) N" and q: "known_request N (ls_request x)"
    and ticket: "nm_ticket N (ls_id x) = Some (ls_request x)"
    and y: "ls_id y = ls_id x" "ls_request y = ls_request x" "ls_revision x < ls_revision y"
    and m: "put_mutation G (ls_id y) (LeaseRecord y) (ls_revision y) now (Exact (ls_revision x)) = Inr m"
  shows "governor_step G N c (c\<lparr>gc_leases := bt_insert (ls_id y) y (gc_leases c)\<rparr>) [m]"
proof (rule governor_stepI)
  fix V V'
  let ?H = "gv_hash G" and ?T = "governor_table G V"
  assume dec: "decodable G V" and inv: "gov_inv ?H (gv_policy G) N ?T" and "mutations_effect [m] V V'"
  then have eff: "mutation_effect m V V'" by simp
  have m': "put_mutation G (resource_id (LeaseRecord y)) (LeaseRecord y) (resource_revision (LeaseRecord y)) now
     (Exact (ls_revision x)) = Inr m" using m by simp
  note put = put_mutation_effect [OF serde m' dec eff]
  obtain z where z: "?T (ls_id x) = Some z" "resource_revision z = ls_revision x" using put(4) y(1) by auto
  obtain w where w: "z = LeaseRecord w" "ls_request w = ls_request x" by (rule stored_lease [OF naming inv ticket z(1)])
  have spec: "gov_spec ?H (gv_policy G) N ?T (governor_table G V')"
    unfolding put(1) resource_id.simps y(1)
    by (rule gov_spec.renewed [where T = "governor_table G V", OF z(1) [unfolded w(1)] y(1)]) (use w(2) y z(2) w(1) in simp_all)
  show "decodable G V' \<and> gov_spec ?H (gv_policy G) N ?T (governor_table G V')
    \<and> (cache_ok ?H N c (governor_table G V') \<longrightarrow>
       cache_ok ?H N (c\<lparr>gc_leases := bt_insert (ls_id y) y (gc_leases c)\<rparr>) (governor_table G V'))"
    using spec put(2) cache_ok_insert_lease [of ?H N c _ y] q ticket y by simp
qed

end
