(* ===== verification/Resource_Sharing.thy ===== *)
theory Resource_Sharing
  imports Resource_Changes
begin

text \<open>
  Every operation of the governor, run by several processes on one store: between an operation's
  reads and its transaction other governors may commit any number of transactions. Each operation
  is shown to do nothing but transactions of the specification, and the contract is discharged for the
  embedded store with processes that preempt each other.
\<close>

section \<open>A store shared with other processes\<close>

text \<open>
  The contract of a store that other processes write to: between the reads of an operation and its
  transaction anything the relation \<open>rely\<close> allows may happen. A store used by one process satisfies it
  with equality.
\<close>

locale shared_repository_laws =
  fixes S :: "('s, 'j, 'e) state_repository"
    and views :: "'s \<Rightarrow> collection \<Rightarrow> 'j view"
    and wf :: "'s \<Rightarrow> bool"
    and ready :: "(collection \<Rightarrow> 'j view) \<Rightarrow> bool"
    and rely :: "(collection \<Rightarrow> 'j view) \<Rightarrow> (collection \<Rightarrow> 'j view) \<Rightarrow> bool"
  assumes collection_laws: "repository_laws (collection_repository S c) (\<lambda>s. views s c) wf"
    and transact_shared: "wf s \<Longrightarrow> ready (views s) \<Longrightarrow> transact S s ms = (res, s') \<Longrightarrow>
      wf s' \<and> (\<exists>V. ready V \<and> rely (views s) V
        \<and> ((\<exists>e. res = Inl e) \<and> views s' = V \<or> mutations_effect ms V (views s')))"

sublocale state_repository_laws \<subseteq> alone: shared_repository_laws S views wf "\<lambda>_. True" "(=)"
proof (rule shared_repository_laws.intro, goal_cases)
  case 1
  show ?case by (rule collection_laws)
next
  case 2
  then show ?case using transact_effect by blast
qed

lemma beaten_lease_id: "ls_id (beaten_lease x now expires n) = ls_id x"
  by (simp add: beaten_lease_def)

definition governor_rely ::
  "('s, 'j, 'e) governor \<Rightarrow> naming \<Rightarrow> (collection \<Rightarrow> 'j view) \<Rightarrow> (collection \<Rightarrow> 'j view) \<Rightarrow> bool" where
  "governor_rely G N V W \<longleftrightarrow>
     (gov_spec (gv_hash G) (gv_policy G) N)\<^sup>*\<^sup>* (governor_table G V) (governor_table G W)"

locale governor_store = shared_repository_laws "gv_repository G" views wf "governed G N" "governor_rely G N"
  for G :: "('s, 'j, 'e) governor" and views :: "'s \<Rightarrow> collection \<Rightarrow> 'j view" and wf :: "'s \<Rightarrow> bool" and N :: naming +
  assumes faithful: "wf s \<Longrightarrow> serde_ok (gv_serde G) \<and> naming_ok (gv_hash G) N"
begin

abbreviation live :: "governor_cache \<Rightarrow> 's \<Rightarrow> bool" where
  "live c s \<equiv> wf s \<and> governed G N (views s) \<and> cache_ok (gv_hash G) N c (governor_table G (views s))"

definition moves :: "'s \<Rightarrow> governor_cache \<Rightarrow> 's \<Rightarrow> bool" where
  "moves s c' s' \<longleftrightarrow> live c' s' \<and> governor_rely G N (views s) (views s')"

lemma moves_refl: "live c s \<Longrightarrow> moves s c s"
  by (simp add: moves_def governor_rely_def)

lemma moves_trans: "moves s c1 s1 \<Longrightarrow> moves s1 c2 s2 \<Longrightarrow> moves s c2 s2"
  by (auto simp: moves_def governor_rely_def)

lemma moves_live: "moves s c' s' \<Longrightarrow> live c' s'"
  by (simp add: moves_def)

lemma load_state_live:
  assumes "wf s" and "governed G N (views s)" and "load_state G s = Inr c"
  shows "live c s"
proof -
  obtain rs where rs: "repo_list (resource_repo G) s = Inr rs" "load_resources G empty_cache rs = Inr c"
    using assms(3) by (auto simp: load_state_def split: sum.splits)
  have "governor_table G (views s) (vr_id r) = Some x" if "r \<in> set rs" "decode_resource G r = Inr x" for r x
    using repository_laws.list_mem [OF collection_laws assms(1) rs(1)] that by (auto simp: governor_table_Some)
  then have "cache_ok (gv_hash G) N c (governor_table G (views s))"
    using assms(2) by (intro load_resources_ok [OF rs(2)]) (auto simp: governed_def)
  then show ?thesis using assms by simp
qed

lemma refresh_live:
  assumes "live c s" and "refresh_durable_state G s c = (res, c')"
  shows "live c' s"
  using assms load_state_live [of s] by (auto simp: refresh_durable_state_def split: sum.splits)

lemma transact_moves:
  assumes live: "live c s" and step: "governor_step G N c c1 ms" and run: "transact (gv_repository G) s ms = (res, s')"
  shows "moves s c s'" and "res = Inr y \<Longrightarrow> moves s c1 s'"
proof -
  let ?H = "gv_hash G" and ?P = "gv_policy G"
  obtain V where wf': "wf s'" and V: "governed G N V" "governor_rely G N (views s) V"
    and effect: "(\<exists>e. res = Inl e) \<and> views s' = V \<or> mutations_effect ms V (views s')"
    using transact_shared [of s ms res s'] live run by blast
  have cache: "cache_ok ?H N c (governor_table G V)"
    using cache_ok_steps V(2) live unfolding governor_rely_def by blast
  have "moves s c s' \<and> (res = Inr y \<longrightarrow> moves s c1 s')"
  proof (cases "mutations_effect ms V (views s')")
    case True
    with step V(1) cache have dec: "decodable G (views s')"
      and spec: "gov_spec ?H ?P N (governor_table G V) (governor_table G (views s'))"
      and c1: "cache_ok ?H N c1 (governor_table G (views s'))"
      unfolding governor_step_def by blast+
    have "governed G N (views s')"
      using dec gov_spec_inv [OF spec] faithful live V(1) by (auto simp: governed_def)
    moreover have "governor_rely G N (views s) (views s')"
      using V(2) spec unfolding governor_rely_def by auto
    ultimately show ?thesis
      using wf' c1 cache_ok_grow [OF cache gov_spec_accounts_grow [OF spec]] by (simp add: moves_def)
  next
    case False
    then show ?thesis using effect wf' V cache by (auto simp: moves_def)
  qed
  then show "moves s c s'" "res = Inr y \<Longrightarrow> moves s c1 s'" by blast+
qed

lemma submit_moves:
  assumes live: "live c s" and q: "path_ok (rq_path q)" "q \<in> nm_requests N" and run: "gov_submit G c s q = (res, c', s')"
  shows "moves s c' s'"
proof (cases "validate_acquire q = Inr () \<and> \<not> gv_poisoned G")
  case False
  then show ?thesis using run moves_refl [OF live] by (auto simp: gov_submit_def split: sum.splits if_splits)
next
  case True
  then have known: "known_request N q" using q by (simp add: known_request_def request_ok_def)
  obtain r c1 where c1: "refresh_durable_state G s c = (r, c1)" by (cases "refresh_durable_state G s c")
  note live1 = refresh_live [OF live c1]
  have "moves s c' s'"
    if m: "put_mutation G (rq_id q) (PendingRecord \<lparr>pd_request = q, pd_revision = revision_zero\<rparr>) revision_zero
          (rq_submitted_at q) Missing = Inr m"
      and t: "transact (gv_repository G) s [m] = (res1, s1)"
      and r: "(case res1 of
           Inl e \<Rightarrow> (Inl (classified_repository_error G e), c1, s1)
         | Inr _ \<Rightarrow> (Inr (), c1\<lparr>gc_pending := bt_insert (rq_id q) \<lparr>pd_request = q, pd_revision = revision_zero\<rparr> (gc_pending c1)\<rparr>, s1))
         = (res, c', s')" for m res1 s1
  proof -
    have "serde_ok (gv_serde G)" using faithful live by blast
    note step = submit_step [OF this known m]
    show ?thesis using transact_moves [OF live1 step t] r by (cases res1) auto
  qed
  then show ?thesis
    using run True c1 moves_refl [OF live1]
    by (auto simp: gov_submit_def Let_def split: sum.splits prod.splits if_splits)
qed

lemma delete_pending_moves:
  assumes live: "live c s" and p: "known_request N (pd_request p)" and run: "gov_delete_pending G c s p = (res, c', s')"
  shows "moves s c' s'"
proof -
  have naming: "naming_ok (gv_hash G) N" using faithful live by blast
  obtain r s1 where t: "transact (gv_repository G) s
      [Delete ResourceGovernance (rq_id (pd_request p)) (Exact (pd_revision p))] = (r, s1)" by fastforce
  show ?thesis
    using transact_moves [OF live delete_pending_step [OF naming p] t] run t
    by (cases r) (auto simp: gov_delete_pending_def)
qed

lemma grant_moves:
  assumes live: "live c s" and p: "known_request N (pd_request p)" and ticket: "nm_ticket N i = Some (pd_request p)"
    and fits: "exhausted G c (rq_path (pd_request p)) (rq_resource (pd_request p)) (rq_units (pd_request p)) True = Inr None"
    and run: "gov_grant G c s p now i = (res, c', s')"
  shows "moves s c' s'"
proof -
  let ?q = "pd_request p"
  have ok: "serde_ok (gv_serde G)" "naming_ok (gv_hash G) N" using faithful live by blast+
  show ?thesis
  proof (cases "checked_timestamp now (rq_idle_timeout_ms ?q)")
    case (Inl e)
    then show ?thesis using run moves_refl [OF live] by (simp add: gov_grant_def Let_def)
  next
    case expires: (Inr expires)
    define x where "x = \<lparr>ls_id = i, ls_request = ?q, ls_acquired_at = now, ls_heartbeat_at = now,
      ls_expires_at = expires, ls_revision = revision_zero\<rparr>"
    have x: "ls_id x = i" "ls_request x = ?q" "ls_revision x = revision_zero" by (simp_all add: x_def)
    show ?thesis
    proof (cases "account_updates G c (rq_path ?q) (rq_resource ?q) (rq_units ?q) True now")
      case (Inl e)
      then show ?thesis using run expires moves_refl [OF live] by (simp add: gov_grant_def Let_def)
    next
      case (Inr ch)
      obtain ups ms where ch: "ch = (ups, ms)" by (cases ch)
      show ?thesis
      proof (cases "put_mutation G i (LeaseRecord x) revision_zero now Missing")
        case (Inl e)
        then show ?thesis
          using run expires Inr moves_refl [OF live] by (simp add: gov_grant_def Let_def ch x_def)
      next
        case m: (Inr m)
        note step = grant_step [OF ok p x(2,3) _ fits Inr [unfolded ch], unfolded x(1), OF ticket m]
        obtain r s1 where t: "transact (gv_repository G) s
            (ms @ [m, Delete ResourceGovernance (rq_id ?q) (Exact (pd_revision p))]) = (r, s1)" by fastforce
        show ?thesis
          using transact_moves [OF live step t] run expires Inr m t
          by (cases r) (auto simp: gov_grant_def Let_def ch x_def)
      qed
    qed
  qed
qed

lemma release_locked_moves:
  assumes live: "live c s" and x: "known_request N (ls_request x)" "nm_ticket N (ls_id x) = Some (ls_request x)"
    and run: "release_locked G c s x now = (res, c', s')"
  shows "moves s c' s'"
proof -
  let ?q = "ls_request x"
  have ok: "serde_ok (gv_serde G)" "naming_ok (gv_hash G) N" using faithful live by blast+
  show ?thesis
  proof (cases "account_releases G c (rq_path ?q) (rq_resource ?q) (rq_units ?q) now")
    case (Inl e)
    then show ?thesis using run moves_refl [OF live] by (simp add: release_locked_def)
  next
    case (Inr ch)
    obtain ups ms where ch: "ch = (ups, ms)" by (cases ch)
    obtain r s1 where t: "transact (gv_repository G) s
        (ms @ [Delete ResourceGovernance (ls_id x) (Exact (ls_revision x))]) = (r, s1)" by fastforce
    show ?thesis
      using transact_moves [OF live release_step [OF ok x Inr [unfolded ch]] t] run Inr t
      by (cases r) (auto simp: release_locked_def ch)
  qed
qed

lemma cached_pending: "live c s \<Longrightarrow> map_of (gc_pending c) i = Some p \<Longrightarrow> known_request N (pd_request p)"
  using cache_okD(2) by blast

lemma cached_lease:
  "live c s \<Longrightarrow> map_of (gc_leases c) i = Some x \<Longrightarrow>
   ls_id x = i \<and> known_request N (ls_request x) \<and> nm_ticket N (ls_id x) = Some (ls_request x)"
  using cache_okD(3) by blast

lemma moves_last_tree: "moves s (c\<lparr>gc_last_tree := f\<rparr>) s' = moves s c s'"
  by (simp add: moves_def)

lemma schedule_rounds_moves:
  assumes "live c s" and "ids_ok N ids" and "schedule_rounds G now ids k c s attempted = (res, c', s')"
  shows "moves s c' s'"
  using assms(1,3)
proof (induction k arbitrary: c s attempted res)
  case 0
  then show ?case by (simp add: moves_refl)
next
  case (Suc k)
  note stay = moves_refl [OF Suc.prems(1)]
  show ?case
  proof (cases "next_request c attempted")
    case None
    then show ?thesis using Suc.prems(2) stay by simp
  next
    case next_id: (Some i)
    show ?thesis
    proof (cases "map_of (gc_pending c) i")
      case None
      then show ?thesis using Suc.prems(2) stay next_id by simp
    next
      case (Some p)
      let ?q = "pd_request p"
      note known = cached_pending [OF Suc.prems(1) Some]
      have ticket: "nm_ticket N (ids k ?q) = Some ?q" using assms(2) known by (simp add: ids_ok_def known_request_def)
      define step where "step = (case exhausted G c (rq_path ?q) (rq_resource ?q) (rq_units ?q) True of
               Inl e \<Rightarrow> (Inl e, c, s)
             | Inr (Some (scope, PauseWork)) \<Rightarrow> (Inr (SchedulePaused i scope (rq_resource ?q)), c, s)
             | Inr (Some (scope, FailWork)) \<Rightarrow>
                 (case gov_delete_pending G c s p of
                    (Inl e, c1, s1) \<Rightarrow> (Inl e, c1, s1)
                  | (Inr _, c1, s1) \<Rightarrow> (Inr (ScheduleFailed i scope (rq_resource ?q)), c1, s1))
             | Inr None \<Rightarrow>
                 (case gov_grant G c s p now (ids k ?q) of
                    (Inl e, c1, s1) \<Rightarrow> (Inl e, c1, s1)
                  | (Inr lease, c1, s1) \<Rightarrow>
                      (Inr (Granted lease),
                       (case path_tree (rq_path ?q) of
                          None \<Rightarrow> c1
                        | Some tree \<Rightarrow> c1\<lparr>gc_last_tree := (gc_last_tree c1)(rq_priority ?q \<mapsto> tree)\<rparr>), s1)))"
      obtain r c1 s1 where out: "step = (r, c1, s1)" by (cases step)
      have first: "moves s c1 s1"
        using out stay delete_pending_moves [OF Suc.prems(1) known] grant_moves [OF Suc.prems(1) known ticket]
        unfolding step_def
        by (auto simp: moves_last_tree split: sum.splits option.splits exhaustion_behavior.splits prod.splits)
      have run: "(case step of
             (Inl e, c1, s1) \<Rightarrow> (Inl e, c1, s1)
           | (Inr outcome, c1, s1) \<Rightarrow>
               (case schedule_rounds G now ids k c1 s1 (insert i attempted) of
                  (Inl e, c2, s2) \<Rightarrow> (Inl e, c2, s2)
                | (Inr outcomes, c2, s2) \<Rightarrow> (Inr (outcome # outcomes), c2, s2))) = (res, c', s')"
        using Suc.prems(2) unfolding schedule_rounds.simps next_id option.case Some Let_def step_def [symmetric] .
      show ?thesis
      proof (cases r)
        case (Inl e)
        then show ?thesis using run out first by simp
      next
        case (Inr outcome)
        obtain r2 c2 s2 where rest: "schedule_rounds G now ids k c1 s1 (insert i attempted) = (r2, c2, s2)"
          by (cases "schedule_rounds G now ids k c1 s1 (insert i attempted)")
        have "(c', s') = (c2, s2)" using run out Inr rest by (cases r2) auto
        then show ?thesis
          using moves_trans [OF first] Suc.IH [OF moves_live [OF first]] rest by blast
      qed
    qed
  qed
qed

lemma schedule_moves:
  assumes live: "live c s" and "ids_ok N ids" and run: "gov_schedule G c s now n ids = (res, c', s')"
  shows "moves s c' s'"
proof -
  obtain r c1 where c1: "refresh_durable_state G s c = (r, c1)" by (cases "refresh_durable_state G s c")
  note live1 = refresh_live [OF live c1]
  show ?thesis
    using run c1 moves_refl [OF live] moves_refl [OF live1] schedule_rounds_moves [OF live1 assms(2)]
    by (cases r) (auto simp: gov_schedule_def split: if_splits)
qed

lemma schedule_request_moves:
  assumes "live c s" and "ids_ok N ids" and "schedule_request_loop G i now ids k c s = (res, c', s')"
  shows "moves s c' s'"
  using assms(1,3)
proof (induction k arbitrary: c s rule: less_induct)
  case (less k)
  obtain r c1 where c1: "refresh_durable_state G s c = (r, c1)" by (cases "refresh_durable_state G s c")
  note live1 = refresh_live [OF less.prems(1) c1]
  note stay = moves_refl [OF live1]
  note run = less.prems(2) [unfolded schedule_request_loop.simps [of G i now ids k c s] c1]
  show ?case
  proof (cases "r = Inr () \<and> map_of (gc_pending c1) i \<noteq> None")
    case False
    then show ?thesis using run stay by (cases r) auto
  next
    case True
    then obtain p where p: "map_of (gc_pending c1) i = Some p" by auto
    let ?q = "pd_request p"
    note known = cached_pending [OF live1 p]
    have ticket: "nm_ticket N (ids k ?q) = Some ?q" using assms(2) known by (simp add: ids_ok_def known_request_def)
    define step where "step = (case exhausted G c1 (rq_path ?q) (rq_resource ?q) (rq_units ?q) True of
                Inl e \<Rightarrow> (Inl e, c1, s)
              | Inr (Some (scope, PauseWork)) \<Rightarrow> (Inr (SchedulePaused i scope (rq_resource ?q)), c1, s)
              | Inr (Some (scope, FailWork)) \<Rightarrow>
                  (case gov_delete_pending G c1 s p of
                     (Inl e, c2, s2) \<Rightarrow> (Inl e, c2, s2)
                   | (Inr _, c2, s2) \<Rightarrow> (Inr (ScheduleFailed i scope (rq_resource ?q)), c2, s2))
              | Inr None \<Rightarrow>
                  (case gov_grant G c1 s p now (ids k ?q) of
                     (Inl e, c2, s2) \<Rightarrow> (Inl e, c2, s2)
                   | (Inr lease, c2, s2) \<Rightarrow> (Inr (Granted lease), c2, s2)))"
    obtain r2 c2 s2 where out: "step = (r2, c2, s2)" by (cases step)
    have first: "moves s c2 s2"
      using out stay delete_pending_moves [OF live1 known] grant_moves [OF live1 known ticket]
      unfolding step_def
      by (auto split: sum.splits option.splits exhaustion_behavior.splits prod.splits)
    have "(case step of
          (Inr outcome, c2, s2) \<Rightarrow> (Inr outcome, c2, s2)
        | (Inl e, c2, s2) \<Rightarrow>
            (case k of
               0 \<Rightarrow> (Inl e, c2, s2)
             | Suc m \<Rightarrow>
                 if is_repository_conflict e then schedule_request_loop G i now ids m c2 s2
                 else (Inl e, c2, s2))) = (res, c', s')"
      using run True unfolding Let_def step_def by (simp add: p)
    then have "(c', s') = (c2, s2) \<or> (\<exists>m < k. schedule_request_loop G i now ids m c2 s2 = (res, c', s'))"
      unfolding out by (auto split: sum.splits nat.splits if_splits)
    then show ?thesis
      using first moves_trans [OF first] less.IH [OF _ moves_live [OF first]] by blast
  qed
qed

lemma release_loop_moves:
  assumes "live c s" and "release_loop G i now k c s = (res, c', s')"
  shows "moves s c' s'"
  using assms
proof (induction k arbitrary: c s rule: less_induct)
  case (less k)
  obtain r c1 where c1: "refresh_durable_state G s c = (r, c1)" by (cases "refresh_durable_state G s c")
  note live1 = refresh_live [OF less.prems(1) c1]
  note stay = moves_refl [OF live1]
  note run = less.prems(2) [unfolded release_loop.simps [of G i now k c s] c1]
  show ?case
  proof (cases "r = Inr () \<and> map_of (gc_leases c1) i \<noteq> None")
    case False
    then show ?thesis using run stay by (cases r) auto
  next
    case True
    then obtain x where x: "map_of (gc_leases c1) i = Some x" by auto
    obtain r2 c2 s2 where out: "release_locked G c1 s x now = (r2, c2, s2)" by (cases "release_locked G c1 s x now")
    have first: "moves s c2 s2" using release_locked_moves [OF live1 _ _ out] cached_lease [OF live1 x] by blast
    have "(c', s') = (c2, s2) \<or> (\<exists>m < k. release_loop G i now m c2 s2 = (res, c', s'))"
      using run True by (auto simp: x out split: sum.splits nat.splits if_splits)
    then show ?thesis
      using first moves_trans [OF first] less.IH [OF _ moves_live [OF first]] by blast
  qed
qed

lemma heartbeat_loop_moves:
  assumes "live c s" and "heartbeat_loop G i now k c s = (res, c', s')"
  shows "moves s c' s'"
  using assms
proof (induction k arbitrary: c s rule: less_induct)
  case (less k)
  obtain r c1 where c1: "refresh_durable_state G s c = (r, c1)" by (cases "refresh_durable_state G s c")
  note live1 = refresh_live [OF less.prems(1) c1]
  note stay = moves_refl [OF live1]
  note run = less.prems(2) [unfolded heartbeat_loop.simps [of G i now k c s] c1]
  have ok: "serde_ok (gv_serde G)" "naming_ok (gv_hash G) N" using faithful less.prems(1) by blast+
  show ?case
  proof (cases "r = Inr () \<and> map_of (gc_leases c1) i \<noteq> None")
    case False
    then show ?thesis using run stay by (cases r) auto
  next
    case True
    then obtain x where x: "map_of (gc_leases c1) i = Some x" by auto
    note known = cached_lease [OF live1 x]
    consider (stays) "(c', s') = (c1, s)"
      | (puts) expires n m where "checked_next (ls_revision x) = Some n"
          "put_mutation G (ls_id x) (LeaseRecord (beaten_lease x now expires n)) n now (Exact (ls_revision x)) = Inr m"
          "(case transact (gv_repository G) s [m] of
                     (Inr _, s2) \<Rightarrow>
                       (Inr (beaten_lease x now expires n),
                        c1\<lparr>gc_leases := bt_insert (ls_id (beaten_lease x now expires n)) (beaten_lease x now expires n) (gc_leases c1)\<rparr>, s2)
                   | (Inl e, s2) \<Rightarrow>
                       (case k of
                          0 \<Rightarrow> (Inl (governor_repository_error G e), c1, s2)
                        | Suc m' \<Rightarrow>
                            if gv_is_conflict G e then heartbeat_loop G i now m' c1 s2
                            else (Inl (governor_repository_error G e), c1, s2))) = (res, c', s')"
      using run True
      by (auto simp: x Let_def beaten_lease_id split: if_splits sum.splits option.splits)
    then show ?thesis
    proof cases
      case stays
      then show ?thesis using stay by simp
    next
      case (puts expires n m)
      let ?y = "beaten_lease x now expires n"
      have y: "ls_id ?y = ls_id x" "ls_request ?y = ls_request x" "ls_revision ?y = n" by (simp_all add: beaten_lease_def)
      have m: "put_mutation G (ls_id ?y) (LeaseRecord ?y) (ls_revision ?y) now (Exact (ls_revision x)) = Inr m"
        using puts(2) y by simp
      have "ls_revision x < ls_revision ?y" using checked_next_less [OF puts(1)] y(3) by simp
      then have step: "governor_step G N c1 (c1\<lparr>gc_leases := bt_insert (ls_id ?y) ?y (gc_leases c1)\<rparr>) [m]"
        using known by (intro heartbeat_step [OF ok _ _ y(1,2) _ m]) auto
      obtain r2 s2 where t: "transact (gv_repository G) s [m] = (r2, s2)" by fastforce
      note moved = transact_moves [OF live1 step t]
      have "r2 = Inr y' \<and> (c', s') = (c1\<lparr>gc_leases := bt_insert (ls_id ?y) ?y (gc_leases c1)\<rparr>, s2)
          \<or> (c', s') = (c1, s2) \<or> (\<exists>m < k. heartbeat_loop G i now m c1 s2 = (res, c', s'))"
        if "r2 = Inr y' \<or> (\<exists>e. r2 = Inl e)" for y'
        using puts(3) that unfolding t by (auto split: nat.splits if_splits)
      then show ?thesis
        using moved less.IH [OF _ moves_live [OF moved(1)]] moves_trans [OF moved(1)] by (cases r2) blast+
    qed
  qed
qed

lemma usage_loop_moves:
  assumes "live c s" and path: "path_ok (ud_path delta)" "set (ud_path delta) \<subseteq> nm_scopes N"
    and kind: "\<not> is_concurrency (ud_resource delta)" and "usage_loop G delta now k c s = (res, c', s')"
  shows "moves s c' s'"
  using assms(1,5)
proof (induction k arbitrary: c s rule: less_induct)
  case (less k)
  obtain r c1 where c1: "refresh_durable_state G s c = (r, c1)" by (cases "refresh_durable_state G s c")
  note live1 = refresh_live [OF less.prems(1) c1]
  note stay = moves_refl [OF live1]
  note run = less.prems(2) [unfolded usage_loop.simps [of G delta now k c s] c1]
  have ok: "serde_ok (gv_serde G)" "naming_ok (gv_hash G) N" using faithful less.prems(1) by blast+
  have dist: "distinct (ud_path delta)" using path(1) by (simp add: path_ok_def)
  consider (stays) "(c', s') = (c1, s)"
    | (puts) ups ms where "exhausted G c1 (ud_path delta) (ud_resource delta) (ud_units delta) False = Inr None"
        "account_updates G c1 (ud_path delta) (ud_resource delta) (ud_units delta) False now = Inr (ups, ms)"
        "(case transact (gv_repository G) s ms of
                   (Inr _, s2) \<Rightarrow> (Inr UsageRecorded, apply_accounts c1 ups, s2)
                 | (Inl e, s2) \<Rightarrow>
                     (case k of
                        0 \<Rightarrow> (Inl (governor_repository_error G e), c1, s2)
                      | Suc m \<Rightarrow>
                          if gv_is_conflict G e then usage_loop G delta now m c1 s2
                          else (Inl (governor_repository_error G e), c1, s2))) = (res, c', s')"
    using run by (cases r) (auto split: sum.splits option.splits exhaustion_behavior.splits prod.splits)
  then show ?case
  proof cases
    case stays
    then show ?thesis using stay by simp
  next
    case (puts ups ms)
    note step = usage_step [OF ok dist path(2) kind puts(1,2)]
    obtain r2 s2 where t: "transact (gv_repository G) s ms = (r2, s2)" by fastforce
    note moved = transact_moves [OF live1 step t]
    have "r2 = Inr y' \<and> (c', s') = (apply_accounts c1 ups, s2)
        \<or> (c', s') = (c1, s2) \<or> (\<exists>m < k. usage_loop G delta now m c1 s2 = (res, c', s'))"
      if "r2 = Inr y' \<or> (\<exists>e. r2 = Inl e)" for y'
      using puts(3) that unfolding t by (auto split: nat.splits if_splits)
    then show ?thesis
      using moved less.IH [OF _ moves_live [OF moved(1)]] moves_trans [OF moved(1)] by (cases r2) blast+
  qed
qed

lemma reclaim_leases_moves:
  assumes "live c s" and "reclaim_leases G now c s xs = (res, c', s')"
    and "\<And>x. x \<in> set xs \<Longrightarrow> known_request N (ls_request x) \<and> nm_ticket N (ls_id x) = Some (ls_request x)"
  shows "moves s c' s'"
  using assms
proof (induction xs arbitrary: c s res c' s')
  case Nil
  then show ?case by (simp add: moves_refl)
next
  case (Cons x xs)
  obtain r c1 s1 where out: "release_locked G c s x now = (r, c1, s1)" by (cases "release_locked G c s x now")
  have first: "moves s c1 s1" using release_locked_moves [OF Cons.prems(1) _ _ out] Cons.prems(3) [of x] by simp
  obtain r2 c2 s2 where rest: "reclaim_leases G now c1 s1 xs = (r2, c2, s2)" by (cases "reclaim_leases G now c1 s1 xs")
  have second: "moves s1 c2 s2" using Cons.IH [OF moves_live [OF first] rest] Cons.prems(3) by simp
  have "(c', s') \<in> {(c, s), (c1, s1), (c2, s2)}"
    using Cons.prems(2) out rest by (auto split: option.splits sum.splits)
  then show ?case using moves_refl [OF Cons.prems(1)] first moves_trans [OF first second] by auto
qed

lemma reclaim_idle_moves:
  assumes "live c s" and "gov_reclaim_idle G c s now = (res, c', s')"
  shows "moves s c' s'"
proof -
  let ?xs = "filter (lease_idle now) (bt_values (gc_leases c))"
  obtain r c1 s1 where out: "reclaim_leases G now c s ?xs = (r, c1, s1)" by (cases "reclaim_leases G now c s ?xs")
  have "moves s c1 s1"
    using cache_ok_lease_mem [of "gv_hash G" N c] assms(1) by (intro reclaim_leases_moves [OF assms(1) out]) auto
  then show ?thesis
    using assms(2) out moves_refl [OF assms(1)] by (auto simp: gov_reclaim_idle_def split: if_splits sum.splits)
qed

end

section \<open>Processes\<close>

text \<open>The operations a process may call, and a process: it opens the store and calls operations.\<close>

datatype governor_op =
    SubmitOp acquire_request
  | ScheduleOp timestamp nat "nat \<Rightarrow> acquire_request \<Rightarrow> entity_id"
  | ScheduleRequestOp entity_id timestamp "nat \<Rightarrow> acquire_request \<Rightarrow> entity_id"
  | ReleaseOp entity_id timestamp
  | HeartbeatOp entity_id timestamp
  | ReclaimOp timestamp
  | UsageOp usage_delta timestamp

fun gov_exec :: "('s, 'j, 'e) governor \<Rightarrow> governor_op \<Rightarrow> governor_cache \<times> 's \<Rightarrow> governor_cache \<times> 's" where
  "gov_exec G (SubmitOp q) (c, s) = snd (gov_submit G c s q)"
| "gov_exec G (ScheduleOp now n ids) (c, s) = snd (gov_schedule G c s now n ids)"
| "gov_exec G (ScheduleRequestOp i now ids) (c, s) = snd (gov_schedule_request G c s i now ids)"
| "gov_exec G (ReleaseOp i now) (c, s) = snd (gov_release G c s i now)"
| "gov_exec G (HeartbeatOp i now) (c, s) = snd (gov_heartbeat G c s i now)"
| "gov_exec G (ReclaimOp now) (c, s) = snd (gov_reclaim_idle G c s now)"
| "gov_exec G (UsageOp delta now) (c, s) = snd (gov_record_usage G c s delta now)"

definition gov_process :: "('s, 'j, 'e) governor \<Rightarrow> governor_op list \<Rightarrow> 's \<Rightarrow> 's" where
  "gov_process G ops s =
     (case gov_open G s of Inl _ \<Rightarrow> s | Inr c \<Rightarrow> snd (fold (gov_exec G) ops (c, s)))"

fun governor_op_ok :: "naming \<Rightarrow> governor_op \<Rightarrow> bool" where
  "governor_op_ok N (SubmitOp q) \<longleftrightarrow> path_ok (rq_path q) \<and> q \<in> nm_requests N"
| "governor_op_ok N (ScheduleOp now n ids) \<longleftrightarrow> ids_ok N ids"
| "governor_op_ok N (ScheduleRequestOp i now ids) \<longleftrightarrow> ids_ok N ids"
| "governor_op_ok N (UsageOp delta now) \<longleftrightarrow> path_ok (ud_path delta) \<and> set (ud_path delta) \<subseteq> nm_scopes N"
| "governor_op_ok N _ \<longleftrightarrow> True"

context governor_store
begin

lemma exec_moves:
  assumes live: "live c s" and ok: "governor_op_ok N op" and run: "gov_exec G op (c, s) = (c', s')"
  shows "moves s c' s'"
proof (cases op)
  case (SubmitOp q)
  then show ?thesis using submit_moves [OF live] ok run by (cases "gov_submit G c s q") auto
next
  case (ScheduleOp now n ids)
  then show ?thesis using schedule_moves [OF live] ok run by (cases "gov_schedule G c s now n ids") auto
next
  case (ScheduleRequestOp i now ids)
  then show ?thesis
    using schedule_request_moves [OF live] moves_refl [OF live] ok run
    by (cases "gov_schedule_request G c s i now ids") (auto simp: gov_schedule_request_def split: if_splits)
next
  case (ReleaseOp i now)
  then show ?thesis
    using release_loop_moves [OF live] moves_refl [OF live] run
    by (cases "gov_release G c s i now") (auto simp: gov_release_def split: if_splits)
next
  case (HeartbeatOp i now)
  then show ?thesis
    using heartbeat_loop_moves [OF live] moves_refl [OF live] run
    by (cases "gov_heartbeat G c s i now") (auto simp: gov_heartbeat_def split: if_splits)
next
  case (ReclaimOp now)
  then show ?thesis using reclaim_idle_moves [OF live] run by (cases "gov_reclaim_idle G c s now") auto
next
  case (UsageOp delta now)
  then show ?thesis
    using usage_loop_moves [OF live] moves_refl [OF live] ok run
    by (cases "gov_record_usage G c s delta now") (auto simp: gov_record_usage_def split: if_splits)
qed

lemma execs_moves:
  assumes "live c s" and "\<And>op. op \<in> set ops \<Longrightarrow> governor_op_ok N op" and "fold (gov_exec G) ops (c, s) = (c', s')"
  shows "moves s c' s'"
  using assms
proof (induction ops arbitrary: c s)
  case Nil
  then show ?case by (simp add: moves_refl)
next
  case (Cons op ops)
  obtain c1 s1 where first: "gov_exec G op (c, s) = (c1, s1)" by fastforce
  have moved: "moves s c1 s1" using exec_moves [OF Cons.prems(1) _ first] Cons.prems(2) [of op] by simp
  have "moves s1 c' s'"
    using Cons.prems(2,3) first by (intro Cons.IH [OF moves_live [OF moved]]) auto
  then show ?case by (rule moves_trans [OF moved])
qed

lemma process_moves:
  assumes "wf s" and "governed G N (views s)" and "\<And>op. op \<in> set ops \<Longrightarrow> governor_op_ok N op"
  shows "wf (gov_process G ops s) \<and> governed G N (views (gov_process G ops s))
    \<and> governor_rely G N (views s) (views (gov_process G ops s))"
proof (cases "gov_open G s")
  case (Inl e)
  then show ?thesis using assms by (simp add: gov_process_def governor_rely_def)
next
  case (Inr c)
  obtain c' s' where run: "fold (gov_exec G) ops (c, s) = (c', s')" by fastforce
  have "moves s c' s'"
    using execs_moves [OF load_state_live [OF assms(1,2)] assms(3) run] Inr by (simp add: gov_open_def)
  then show ?thesis using Inr run by (simp add: gov_process_def moves_def)
qed

end

section \<open>Governors on the embedded store\<close>

text \<open>
  A governor on the embedded store whose transactions happen after whatever \<open>intf\<close> does to the store,
  and a stack of processes in which each process is preempted, before every one of its transactions,
  by a full run of the next one.
\<close>

definition shared_governor ::
  "('j, 'b) store_env \<Rightarrow> ('b embedded_store, 'j, store_error) governor \<Rightarrow> ('b embedded_store \<Rightarrow> 'b embedded_store) \<Rightarrow>
   ('b embedded_store, 'j, store_error) governor" where
  "shared_governor E G intf =
     G\<lparr>gv_repository := \<lparr>collection_repository = embedded_repository E, transact = \<lambda>s. transact_records E (intf s)\<rparr>\<rparr>"

fun preempting ::
  "('j, 'b) store_env \<Rightarrow> ('b embedded_store, 'j, store_error) governor \<Rightarrow> governor_op list list \<Rightarrow>
   'b embedded_store \<Rightarrow> 'b embedded_store" where
  "preempting E G [] s = s"
| "preempting E G (ops # rest) s = gov_process (shared_governor E G (preempting E G rest)) ops s"

abbreviation store_views :: "('j, 'b) store_env \<Rightarrow> 'b embedded_store \<Rightarrow> collection \<Rightarrow> 'j view" where
  "store_views E s \<equiv> \<lambda>c. embedded_view E c s"

definition interference_ok where
  "interference_ok E G N intf \<longleftrightarrow>
     (\<forall>s. embedded_wf E s \<longrightarrow> governed G N (store_views E s) \<longrightarrow>
        embedded_wf E (intf s) \<and> governed G N (store_views E (intf s))
        \<and> governor_rely G N (store_views E s) (store_views E (intf s)))"

definition governor_wf where
  "governor_wf E G N intf s \<longleftrightarrow>
     embedded_wf E s \<and> serde_ok (gv_serde G) \<and> naming_ok (gv_hash G) N \<and> interference_ok E G N intf"

lemma shared_governor_simps [simp]:
  "gv_serde (shared_governor E G intf) = gv_serde G" "gv_hash (shared_governor E G intf) = gv_hash G"
  "gv_policy (shared_governor E G intf) = gv_policy G"
  "gv_repository (shared_governor E G intf) =
     \<lparr>collection_repository = embedded_repository E, transact = \<lambda>s. transact_records E (intf s)\<rparr>"
  by (simp_all add: shared_governor_def)

lemma shared_governor_decode: "decode_resource (shared_governor E G intf) = decode_resource G"
  by (simp add: decode_resource_def fun_eq_iff)

lemma shared_governor_governed [simp]:
  "governor_table (shared_governor E G intf) = governor_table G"
  "governed (shared_governor E G intf) = governed G"
  "governor_rely (shared_governor E G intf) = governor_rely G"
  by (simp_all add: governor_table_def governed_def decodable_def governor_rely_def shared_governor_decode fun_eq_iff)

interpretation governors: governor_store "shared_governor E G intf" "store_views E" "governor_wf E G N intf" N
  for E G N intf
proof (intro governor_store.intro shared_repository_laws.intro governor_store_axioms.intro, goal_cases)
  case (1 c)
  show ?case
    using repository_laws_guarded [OF embedded.repository_laws_axioms,
      of E c "serde_ok (gv_serde G) \<and> naming_ok (gv_hash G) N \<and> interference_ok E G N intf"]
    unfolding governor_wf_def by simp
next
  case (2 s ms res s')
  have intf: "embedded_wf E (intf s)" "governed G N (store_views E (intf s))"
    "governor_rely G N (store_views E s) (store_views E (intf s))"
    using 2(1,2) by (auto simp: governor_wf_def interference_ok_def)
  have "embedded_wf E s' \<and> ((\<exists>e. res = Inl e) \<and> store_views E s' = store_views E (intf s)
      \<or> mutations_effect ms (store_views E (intf s)) (store_views E s'))"
    using embedded_all.transact_effect [OF intf(1), of ms res s'] 2(3) by (simp add: embedded_state_def)
  then show ?case using 2(1) intf(2,3) by (auto simp: governor_wf_def)
next
  case (3 s)
  then show ?case by (simp add: governor_wf_def)
qed

lemma process_interference_ok:
  assumes "serde_ok (gv_serde G)" and "naming_ok (gv_hash G) N" and "interference_ok E G N intf"
    and "\<And>op. op \<in> set ops \<Longrightarrow> governor_op_ok N op"
  shows "interference_ok E G N (gov_process (shared_governor E G intf) ops)"
  unfolding interference_ok_def
  using governors.process_moves [of E G N intf _ ops] assms by (simp add: governor_wf_def)

lemma preempting_ok:
  assumes "serde_ok (gv_serde G)" and "naming_ok (gv_hash G) N"
    and "\<forall>ops \<in> set programs. \<forall>op \<in> set ops. governor_op_ok N op"
  shows "interference_ok E G N (preempting E G programs)"
  using assms(3)
proof (induction programs)
  case Nil
  then show ?case by (simp add: interference_ok_def governor_rely_def)
next
  case (Cons ops programs)
  have "preempting E G (ops # programs) = gov_process (shared_governor E G (preempting E G programs)) ops" by auto
  then show ?case using process_interference_ok [OF assms(1,2) Cons.IH, of ops] Cons.prems by simp
qed

lemma preempting_effect:
  assumes "embedded_wf E s" and "serde_ok (gv_serde G)" and "naming_ok (gv_hash G) N" and "governed G N (store_views E s)"
    and "\<forall>ops \<in> set programs. \<forall>op \<in> set ops. governor_op_ok N op"
  shows "governed G N (store_views E (preempting E G programs s))"
    and "governor_rely G N (store_views E s) (store_views E (preempting E G programs s))"
  using preempting_ok [OF assms(2,3,5), of E] assms(1,4) unfolding interference_ok_def by blast+

end
