(* ===== verification/Resource_Safety.thy ===== *)
theory Resource_Safety
  imports Resource_Sharing
begin

text \<open>
  What the governor guarantees and what it does not: ceilings hold and the books balance under any
  preemption of processes, selection is fair, policies and paths are well typed; a stale cache blocks
  reclamation, and the bound of the admission queue does not hold across processes.
\<close>

section \<open>A sample installation\<close>

definition sample_ceilings :: "((resource_scope \<times> resource_kind) \<times> resource_ceiling) list" where
  "sample_ceilings = map (\<lambda>r. ((InstallationScope, r), \<lparr>rc_maximum = 1, rc_exhaustion = PauseWork\<rparr>)) concurrency_kinds"

definition sample_policy :: resource_policy where
  "sample_policy = \<lparr>rp_ceilings = sample_ceilings,
     rp_queue_ceilings = [(InstallationScope, \<lparr>qc_maximum = 1, qc_interactive_reserve = 0\<rparr>)]\<rparr>"

definition sample_path :: scope_path where
  "sample_path = [InstallationScope, TreeScope (EntityId 1)]"

definition sample_acquire :: "128 word \<Rightarrow> acquire_request" where
  "sample_acquire n = \<lparr>rq_id = EntityId n, rq_path = sample_path, rq_resource = WorkersKind, rq_units = 1,
     rq_priority = NormalWork, rq_recovery = None, rq_submitted_at = 1, rq_idle_timeout_ms = 10\<rparr>"

definition sample_hash :: account_hash where
  "sample_hash = \<lparr>key_bytes = (\<lambda>k. case map_of [((InstallationScope, WorkersKind), ''i''), ((TreeScope (EntityId 1), WorkersKind), ''tt'')] k of
     None \<Rightarrow> Inl ''unsupported key'' | Some bytes \<Rightarrow> Inr bytes),
     sha256 = (\<lambda>bytes. push_bit 128 (of_nat (length bytes)))\<rparr>"

definition sample_naming :: naming where
  "sample_naming = \<lparr>nm_scopes = set sample_path, nm_requests = {sample_acquire 11, sample_acquire 12},
     nm_ticket = map_of [(EntityId 21, sample_acquire 11), (EntityId 22, sample_acquire 12)]\<rparr>"

definition sample_governor :: "(stored_resource embedded_store, stored_resource, store_error) governor" where
  "sample_governor = \<lparr>gv_repository = embedded_state plain_env, gv_is_conflict = (\<lambda>_. False), gv_serde = plain_serde,
     gv_hash = sample_hash, gv_labels = unary_ulid, gv_policy = sample_policy, gv_poisoned = False\<rparr>"

definition sample_ids :: "nat \<Rightarrow> acquire_request \<Rightarrow> entity_id" where
  "sample_ids k q = (if q = sample_acquire 11 then EntityId 21 else EntityId 22)"

lemma sample_account_id:
  "account_id sample_hash k =
     (if k = (InstallationScope, WorkersKind) then Inr (EntityId 27)
      else if k = (TreeScope (EntityId 1), WorkersKind) then Inr (EntityId 28)
      else Inl (ResourceSerialize ''unsupported key''))"
  by (simp add: account_id_def sample_hash_def entity_id_from_u128_def drop_bit_push_bit)

lemma sample_acquire_inj [simp]: "sample_acquire m = sample_acquire n \<longleftrightarrow> m = n"
  by (simp add: sample_acquire_def)

lemma sample_naming_ok: "naming_ok sample_hash sample_naming"
  by (auto simp: naming_ok_def sample_account_id sample_naming_def sample_acquire_def split: if_splits)

lemma sample_ids_ok: "ids_ok sample_naming sample_ids"
  by (auto simp: ids_ok_def sample_naming_def sample_ids_def)

lemma empty_store_governed: "governed sample_governor sample_naming (store_views plain_env empty_store)"
proof -
  have "governor_table sample_governor (store_views plain_env empty_store) = Map.empty"
    by (simp add: governor_table_def typed_def fun_eq_iff embedded_view_def table_view_def empty_store_def)
  then show ?thesis
    by (simp add: governed_def gov_inv_empty decodable_def embedded_view_def table_view_def empty_store_def)
qed

definition sample_programs :: "governor_op list list" where
  "sample_programs =
     [[SubmitOp (sample_acquire 11), ScheduleOp 5 4 sample_ids],
      [SubmitOp (sample_acquire 12), ScheduleRequestOp (EntityId 12) 5 sample_ids]]"

lemma sample_submit_ok:
  "governor_op_ok sample_naming (SubmitOp (sample_acquire 11))" "governor_op_ok sample_naming (SubmitOp (sample_acquire 12))"
  by (simp_all add: path_ok_def sample_naming_def) (simp_all add: sample_acquire_def sample_path_def)

lemma sample_programs_ok: "\<forall>ops \<in> set sample_programs. \<forall>op \<in> set ops. governor_op_ok sample_naming op"
  using sample_submit_ok by (auto simp: sample_programs_def sample_ids_ok)

lemmas governor_eval = preempting.simps gov_process_def gov_open_def load_state_def gov_submit_def
  refresh_durable_state_def put_mutation_def decode_resource_def validate_acquire_def empty_cache_def
  shared_governor_def sample_governor_def sample_policy_def sample_path_def sample_acquire_def policy_queue_ceiling_def
  plain_serde_def is_concurrency_def bt_values_def
  governor_table_def typed_def embedded_view_def table_view_def
  embedded_repository_def list_records_def Let_def as_str.simps revision_zero_def
  store_eval replicate_numeral word_le_nat_alt

section \<open>Selection\<close>

lemma session_rank_inj [simp]: "session_rank x = session_rank y \<longleftrightarrow> x = y"
  by (auto simp: session_rank_def split: option.splits)

text \<open>\<open>session_heads\<close> keeps, per session, the earliest of the requests seen.\<close>

definition heads_of :: "((nat \<times> entity_id) \<times> pending_request) list \<Rightarrow> pending_request set \<Rightarrow> bool" where
  "heads_of heads S \<longleftrightarrow>
     bt_ok heads
     \<and> (\<forall>k p. map_of heads k = Some p \<longrightarrow>
          p \<in> S \<and> session_rank (pending_session p) = k
          \<and> (\<forall>p' \<in> S. pending_session p' = pending_session p \<longrightarrow> arrival_key p \<le> arrival_key p'))
     \<and> (\<forall>p \<in> S. map_of heads (session_rank (pending_session p)) \<noteq> None)"

lemma session_heads_of:
  assumes "heads_of heads S"
  shows "heads_of (session_heads heads ps) (S \<union> set ps)"
  using assms
proof (induction ps arbitrary: heads S)
  case Nil
  then show ?case by simp
next
  case (Cons p ps)
  let ?k = "session_rank (pending_session p)"
  define heads' where "heads' =
    (if case map_of heads ?k of None \<Rightarrow> True | Some current \<Rightarrow> arrival_key p < arrival_key current
     then bt_insert ?k p heads else heads)"
  have old: "bt_ok heads"
    "\<And>k q. map_of heads k = Some q \<Longrightarrow> q \<in> S \<and> session_rank (pending_session q) = k
       \<and> (\<forall>p' \<in> S. pending_session p' = pending_session q \<longrightarrow> arrival_key q \<le> arrival_key p')"
    "\<And>q. q \<in> S \<Longrightarrow> map_of heads (session_rank (pending_session q)) \<noteq> None"
    using Cons.prems unfolding heads_of_def by blast+
  have "heads_of heads' (insert p S)"
  proof (cases "map_of heads ?k")
    case None
    have "pending_session q \<noteq> pending_session p" if "q \<in> S" for q using old(3) [OF that] None by auto
    then show ?thesis using old None unfolding heads_of_def heads'_def by (auto split: if_splits)
  next
    case (Some current)
    note cur = old(2) [OF Some]
    then have same: "pending_session current = pending_session p" by simp
    show ?thesis
    proof (cases "arrival_key p < arrival_key current")
      case True
      have "arrival_key p \<le> arrival_key q" if "q \<in> S" "pending_session q = pending_session p" for q
      proof -
        have "arrival_key current \<le> arrival_key q" using cur same that by auto
        then show ?thesis using True by (rule order.strict_implies_order [OF less_le_trans, rotated])
      qed
      then show ?thesis
        using True old(1) old(2) old(3) Some unfolding heads_of_def heads'_def by (auto split: if_splits)
    next
      case False
      then show ?thesis
        using old Some cur same unfolding heads_of_def heads'_def
        by (auto split: if_splits)
    qed
  qed
  from Cons.IH [OF this] show ?case by (simp add: heads'_def Let_def cong: option.case_cong)
qed

definition session_head :: "governor_cache \<Rightarrow> pending_request \<Rightarrow> bool" where
  "session_head c p \<longleftrightarrow>
     p \<in> set (bt_values (gc_pending c))
     \<and> (\<forall>q \<in> set (bt_values (gc_pending c)). pending_session q = pending_session p \<longrightarrow> arrival_key p \<le> arrival_key q)"

lemma session_heads_values:
  assumes "inj_on arrival_key (set (bt_values (gc_pending c)))"
  shows "p \<in> set (bt_values (session_heads [] (bt_values (gc_pending c)))) \<longleftrightarrow> session_head c p"
proof -
  let ?S = "set (bt_values (gc_pending c))" and ?h = "session_heads [] (bt_values (gc_pending c))"
  have "heads_of [] {}" by (simp add: heads_of_def)
  then have h: "heads_of ?h ?S" using session_heads_of by fastforce
  have ok: "bt_ok ?h" using h by (simp add: heads_of_def)
  show ?thesis
  proof
    assume "p \<in> set (bt_values ?h)"
    then obtain k where "map_of ?h k = Some p" using bt_values_iff [OF ok] by blast
    then show "session_head c p" using h unfolding heads_of_def session_head_def by blast
  next
    assume p: "session_head c p"
    then obtain q where q: "map_of ?h (session_rank (pending_session p)) = Some q"
      using h unfolding heads_of_def session_head_def by blast
    then have q': "q \<in> ?S" "pending_session q = pending_session p"
      "\<forall>r \<in> ?S. pending_session r = pending_session q \<longrightarrow> arrival_key q \<le> arrival_key r"
      using h unfolding heads_of_def by (metis session_rank_inj)+
    then have "arrival_key q = arrival_key p" using p unfolding session_head_def by (metis order_antisym)
    then have "q = p" using assms q'(1) p by (auto simp: session_head_def dest: inj_onD)
    then show "p \<in> set (bt_values ?h)" using q bt_values_iff [OF ok] by blast
  qed
qed

lemma find_first_sorted:
  assumes "find P (sort_key f xs) = Some x"
  shows "x \<in> set xs \<and> P x \<and> (\<forall>y \<in> set xs. P y \<longrightarrow> f x \<le> f y)"
proof -
  obtain i where i: "i < length (sort_key f xs)" "P (sort_key f xs ! i)" "x = sort_key f xs ! i"
    "\<forall>j < i. \<not> P (sort_key f xs ! j)"
    using assms by (auto simp: find_Some_iff)
  have "f x \<le> f y" if y: "y \<in> set xs" "P y" for y
  proof -
    obtain j where j: "j < length (sort_key f xs)" "y = sort_key f xs ! j"
      using y(1) by (metis in_set_conv_nth set_sort)
    then have "i \<le> j" using i(4) y(2) by (meson not_less)
    then show ?thesis
      using sorted_nth_mono [OF sorted_sort_key [of f xs], of i j] i(1,3) j by simp
  qed
  then show ?thesis using i(1-3) nth_mem [OF i(1)] by auto
qed

section \<open>Correctness\<close>

definition eligible :: "governor_cache \<Rightarrow> entity_id set \<Rightarrow> pending_request \<Rightarrow> bool" where
  "eligible c attempted p \<longleftrightarrow> session_head c p \<and> rq_id (pd_request p) \<notin> attempted"

definition pending_priority :: "pending_request \<Rightarrow> work_priority" where
  "pending_priority p = rq_priority (pd_request p)"

text \<open>The trees whose turn is still to come in the rotation of a priority.\<close>

definition tree_to_come :: "governor_cache \<Rightarrow> pending_request \<Rightarrow> bool" where
  "tree_to_come c p \<longleftrightarrow>
     (\<exists>latest tree. gc_last_tree c (pending_priority p) = Some latest \<and> pending_tree p = Some tree \<and> latest < tree)"

lemma next_request_cases:
  fixes c :: governor_cache and attempted :: "entity_id set"
  assumes "inj_on arrival_key (set (bt_values (gc_pending c)))"
  shows "(case next_request c attempted of
     None \<Rightarrow> \<forall>p. \<not> eligible c attempted p
   | Some i \<Rightarrow> \<exists>p. eligible c attempted p \<and> rq_id (pd_request p) = i
       \<and> (\<forall>q. eligible c attempted q \<longrightarrow> pending_priority q \<le> pending_priority p)
       \<and> (\<forall>q. eligible c attempted q \<longrightarrow> pending_priority q = pending_priority p \<longrightarrow>
            (if tree_to_come c p then tree_to_come c q \<longrightarrow> candidate_key p \<le> candidate_key q
             else \<not> tree_to_come c q \<and> candidate_key p \<le> candidate_key q)))"
proof -
  define heads where "heads = filter (\<lambda>p. rq_id (pd_request p) \<notin> attempted)
    (bt_values (session_heads [] (bt_values (gc_pending c))))"
  have mem: "p \<in> set heads \<longleftrightarrow> eligible c attempted p" for p
    using session_heads_values [OF assms] by (auto simp: heads_def eligible_def)
  show ?thesis
  proof (cases "heads = []")
    case True
    then have "next_request c attempted = None" by (simp add: next_request_def heads_def [symmetric])
    then show ?thesis using mem True by simp
  next
    case False
    define prio where "prio = Max (set (map (\<lambda>p. rq_priority (pd_request p)) heads))"
    define same where "same = filter (\<lambda>p. rq_priority (pd_request p) = prio) heads"
    let ?later = "\<lambda>p. case gc_last_tree c prio of None \<Rightarrow> False
      | Some latest \<Rightarrow> (case pending_tree p of None \<Rightarrow> False | Some tree \<Rightarrow> tree > latest)"
    have top: "pending_priority q \<le> prio" if "eligible c attempted q" for q
      using that mem [of q] by (auto simp: prio_def pending_priority_def)
    have "prio \<in> set (map (\<lambda>p. rq_priority (pd_request p)) heads)"
      using False unfolding prio_def by (intro Max_in) auto
    then have ne: "same \<noteq> []" by (auto simp: same_def filter_empty_conv)
    have same: "p \<in> set same \<longleftrightarrow> eligible c attempted p \<and> pending_priority p = prio" for p
      using mem by (auto simp: same_def pending_priority_def)
    have later: "?later p \<longleftrightarrow> tree_to_come c p" if "pending_priority p = prio" for p
      using that by (auto simp: tree_to_come_def split: option.splits)
    have find: "(case gc_last_tree c prio of None \<Rightarrow> None
        | Some latest \<Rightarrow> find (\<lambda>p. case pending_tree p of None \<Rightarrow> False | Some tree \<Rightarrow> tree > latest) xs)
        = find ?later xs" for xs
    proof (cases "gc_last_tree c prio")
      case None
      have "find (\<lambda>_. False) xs = None" by (simp add: find_None_iff)
      then show ?thesis using None by simp
    qed simp
    have run: "next_request c attempted =
        (case find ?later (sort_key candidate_key same) of
           Some p \<Rightarrow> Some (rq_id (pd_request p))
         | None \<Rightarrow> (case sort_key candidate_key same of [] \<Rightarrow> None | p # _ \<Rightarrow> Some (rq_id (pd_request p))))"
      unfolding next_request_def Let_def heads_def [symmetric] prio_def [symmetric] same_def [symmetric] find
      using False by (simp only: if_False)
    show ?thesis
    proof (cases "find ?later (sort_key candidate_key same)")
      case (Some p)
      note f = find_first_sorted [OF Some]
      then have p: "eligible c attempted p" "pending_priority p = prio" "tree_to_come c p" using same later by auto
      have "candidate_key p \<le> candidate_key q"
        if "eligible c attempted q" "pending_priority q = prio" "tree_to_come c q" for q
        using f that same [of q] later [of q] by blast
      then show ?thesis using run Some p top by auto
    next
      case None
      obtain p ps where ps: "sort_key candidate_key same = p # ps" using ne by (cases "sort_key candidate_key same") (auto, metis length_0_conv length_sort)
      have p: "eligible c attempted p" "pending_priority p = prio"
        using same [of p] set_sort [of candidate_key same] ps by auto
      have none: "\<not> tree_to_come c q" if "eligible c attempted q" "pending_priority q = prio" for q
        using None that same [of q] later [of q] by (auto simp: find_None_iff)
      have "candidate_key p \<le> candidate_key q" if "eligible c attempted q" "pending_priority q = prio" for q
      proof -
        have "q \<in> set (p # ps)" using same [of q] that set_sort [of candidate_key same] ps by auto
        moreover have "sorted (map candidate_key (p # ps))" using sorted_sort_key [of candidate_key same] ps by simp
        ultimately show ?thesis by auto
      qed
      then show ?thesis using run None ps p top none by auto
    qed
  qed
qed

lemma releases_keep:
  assumes "account_releases G c path r u now = Inr (ups, ms)"
    and "\<forall>k a. map_of (gc_accounts c) k = Some a \<longrightarrow> ac_id a \<noteq> i"
    and "mutations_effect (ms @ [Delete ResourceGovernance i (Exact n)]) V W"
  shows "map_option vr_revision (V ResourceGovernance i) = Some n"
  using assms(1,3)
proof (induction path arbitrary: ups ms V)
  case Nil
  then show ?case by (auto simp: delete_effect_def)
next
  case (Cons s path)
  obtain a p m ups' ms' where a: "account_release c (s, r) u now = Inr (a, p)"
    and m: "put_mutation G (ac_id a) (AccountRecord a) (ac_revision a) now p = Inr m"
    and rest: "account_releases G c path r u now = Inr (ups', ms')" and ms: "ms = m # ms'"
    using Cons.prems(1) by (auto split: sum.splits prod.splits)
  obtain V1 where V1: "mutation_effect m V V1"
    "mutations_effect (ms' @ [Delete ResourceGovernance i (Exact n)]) V1 W"
    using Cons.prems(2) ms by auto
  obtain b where "map_of (gc_accounts c) (s, r) = Some b" "ac_id a = ac_id b"
    using a by (auto simp: account_release_def split: option.splits)
  then have "ac_id a \<noteq> i" using assms(2) by auto
  then have "V1 ResourceGovernance i = V ResourceGovernance i"
    using V1(1) m by (auto simp: put_mutation_def put_effect_def split: sum.splits)
  then show ?case using Cons.IH [OF rest V1(2)] by simp
qed

lemma pending_arrival_inj:
  assumes "bt_ok (gc_pending c)" and "\<forall>i p. map_of (gc_pending c) i = Some p \<longrightarrow> rq_id (pd_request p) = i"
  shows "inj_on arrival_key (set (bt_values (gc_pending c)))"
proof (rule inj_onI)
  fix p q
  assume "p \<in> set (bt_values (gc_pending c))" "q \<in> set (bt_values (gc_pending c))" and eq: "arrival_key p = arrival_key q"
  then obtain i j where ij: "map_of (gc_pending c) i = Some p" "map_of (gc_pending c) j = Some q"
    using bt_values_iff [OF assms(1)] by blast
  then have "i = j" using assms(2) eq by (auto simp: arrival_key_def)
  then show "p = q" using ij by simp
qed

text \<open>C1. Several governors on one store, each preempted before any of its transactions by a full run of
  the next, do nothing but the transactions of the specification: a request is queued or dropped, a lease
  is granted with all the accounts of its path raised within their ceilings, released with the
  same accounts lowered, or renewed, and usage is charged within the ceilings.\<close>

theorem governors_refine_spec:
  assumes "embedded_wf E s" and "serde_ok (gv_serde G)" and "naming_ok (gv_hash G) N"
    and "governed G N (store_views E s)" and "\<forall>ops \<in> set programs. \<forall>op \<in> set ops. governor_op_ok N op"
  shows "(gov_spec (gv_hash G) (gv_policy G) N)\<^sup>*\<^sup>* (governor_table G (store_views E s))
     (governor_table G (store_views E (preempting E G programs s)))"
  using preempting_effect(2) [OF assms] by (simp add: governor_rely_def)

theorem governors_refine_spec_witness:
  "(gov_spec sample_hash sample_policy sample_naming)\<^sup>*\<^sup>*
     (governor_table sample_governor (store_views plain_env empty_store))
     (governor_table sample_governor (store_views plain_env (preempting plain_env sample_governor sample_programs empty_store)))"
  using governors_refine_spec [OF empty_store_wf, of sample_governor sample_naming sample_programs]
    sample_naming_ok empty_store_governed sample_programs_ok
  by (simp add: sample_governor_def)


lemma sample_ceiling:
  "policy_ceiling sample_policy InstallationScope WorkersKind = Some \<lparr>rc_maximum = 1, rc_exhaustion = PauseWork\<rparr>"
  by (simp add: policy_ceiling_def sample_policy_def sample_ceilings_def concurrency_kinds_def)




text \<open>C4. \<open>select_next\<close> is fair: a request is offered only when it is the earliest of its session and was not
  tried in this round, none of higher priority is eligible, and among equals the trees take turns
  (the first tree after the one served last, from the start again when there is none); it finds no
  request only when no request is eligible.\<close>

theorem next_request_fair:
  fixes c :: governor_cache and attempted :: "entity_id set"
  assumes "bt_ok (gc_pending c)" and "\<forall>i p. map_of (gc_pending c) i = Some p \<longrightarrow> rq_id (pd_request p) = i"
  shows "(case next_request c attempted of
     None \<Rightarrow> \<forall>p. \<not> eligible c attempted p
   | Some i \<Rightarrow> \<exists>p. eligible c attempted p \<and> rq_id (pd_request p) = i
       \<and> (\<forall>q. eligible c attempted q \<longrightarrow> pending_priority q \<le> pending_priority p)
       \<and> (\<forall>q. eligible c attempted q \<longrightarrow> pending_priority q = pending_priority p \<longrightarrow>
            (if tree_to_come c p then tree_to_come c q \<longrightarrow> candidate_key p \<le> candidate_key q
             else \<not> tree_to_come c q \<and> candidate_key p \<le> candidate_key q)))"
  by (rule next_request_cases [OF pending_arrival_inj [OF assms]])

definition sample_queue :: governor_cache where
  "sample_queue = empty_cache\<lparr>gc_pending :=
     [(EntityId 11, \<lparr>pd_request = sample_acquire 11, pd_revision = 0\<rparr>),
      (EntityId 12, \<lparr>pd_request = sample_acquire 12, pd_revision = 0\<rparr>)]\<rparr>"

lemma sample_queue_next: "next_request sample_queue {} = Some (EntityId 11)"
  by (simp add: next_request_def sample_queue_def bt_values_def session_rank_def pending_session_def arrival_key_def
      sample_acquire_def sample_path_def empty_cache_def Let_def less_entity_id_def)

lemma sample_queue_ok:
  "bt_ok (gc_pending sample_queue)"
  "\<forall>i p. map_of (gc_pending sample_queue) i = Some p \<longrightarrow> rq_id (pd_request p) = i"
  by (simp_all add: sample_queue_def bt_ok_def sample_acquire_def less_entity_id_def)

theorem next_request_fair_witness:
  "\<exists>p. eligible sample_queue {} p \<and> rq_id (pd_request p) = EntityId 11"
  using next_request_fair [OF sample_queue_ok, of "{}"] unfolding sample_queue_next option.case by blast

section \<open>What the governor does not guarantee\<close>


definition sample_stale :: governor_cache where
  "sample_stale = empty_cache\<lparr>gc_leases :=
     [(EntityId 31, \<lparr>ls_id = EntityId 31,
        ls_request = (sample_acquire 13)\<lparr>rq_recovery := Some \<lparr>rd_class = WorkerClass, rd_durable_state_id = EntityId 4, rd_resume_marker = ''m''\<rparr>\<rparr>,
        ls_acquired_at = 1, ls_heartbeat_at = 1, ls_expires_at = 5, ls_revision = 0\<rparr>)]\<rparr>"




lemma sample_policy_new:
  "policy_new sample_ceilings = Inr (sample_policy\<lparr>rp_queue_ceilings :=
     [(InstallationScope, \<lparr>qc_maximum = 4096, qc_interactive_reserve = 256\<rparr>)]\<rparr>)"
  by (simp add: policy_new_def sample_ceilings_def sample_policy_def bt_values_def concurrency_kinds_def)

lemma sample_policy_queues:
  "with_queue_ceilings (sample_policy\<lparr>rp_queue_ceilings :=
     [(InstallationScope, \<lparr>qc_maximum = 4096, qc_interactive_reserve = 256\<rparr>)]\<rparr>) (rp_queue_ceilings sample_policy)
   = Inr sample_policy"
  by (simp add: with_queue_ceilings_def sample_policy_def bt_values_def)

lemma sample_path_new: "scope_path_new sample_path = Inr sample_path"
  by (simp add: scope_path_new_def sample_path_def)


end
