(* ===== verification/Goal_Service.thy ===== *)
theory Goal_Service
  imports Action_Store
begin

text \<open>
  \<open>crates/goals\<close>: durable goals of a session (\<open>model.rs\<close>) and the service that edits, moves, charges and
  archives them and keeps their continuations in the action inbox (\<open>service.rs\<close>). Each operation
  is a change of one goal, a function of its own, between loading and persisting; generated identifiers
  are arguments. The second half states which changes of goals and inbox are admissible and that a
  change keeps a goal well formed.
\<close>

section \<open>Goals\<close>

datatype goal_state =
    GoalDraft | GoalReady | GoalRunning | GoalWaiting | GoalReviewing | GoalPaused | GoalBlocked
  | GoalComplete | GoalFailed | GoalCancelled

definition goal_is_terminal :: "goal_state \<Rightarrow> bool" where
  "goal_is_terminal st \<longleftrightarrow> st \<in> {GoalComplete, GoalFailed, GoalCancelled}"

fun goal_allows :: "goal_state \<Rightarrow> goal_state \<Rightarrow> bool" where
  "goal_allows GoalDraft next \<longleftrightarrow> next \<in> {GoalReady, GoalCancelled}"
| "goal_allows GoalReady next \<longleftrightarrow> next \<in> {GoalRunning, GoalPaused, GoalCancelled}"
| "goal_allows GoalRunning next \<longleftrightarrow>
     next \<in> {GoalWaiting, GoalReviewing, GoalPaused, GoalBlocked, GoalComplete, GoalFailed, GoalCancelled}"
| "goal_allows GoalWaiting next \<longleftrightarrow> next \<in> {GoalRunning, GoalPaused, GoalBlocked, GoalFailed, GoalCancelled}"
| "goal_allows GoalReviewing next \<longleftrightarrow>
     next \<in> {GoalRunning, GoalPaused, GoalBlocked, GoalComplete, GoalFailed, GoalCancelled}"
| "goal_allows GoalPaused next \<longleftrightarrow> next \<in> {GoalReady, GoalRunning, GoalWaiting, GoalReviewing, GoalCancelled}"
| "goal_allows GoalBlocked next \<longleftrightarrow> next \<in> {GoalRunning, GoalPaused, GoalFailed, GoalCancelled}"
| "goal_allows GoalComplete next \<longleftrightarrow> False"
| "goal_allows GoalFailed next \<longleftrightarrow> False"
| "goal_allows GoalCancelled next \<longleftrightarrow> False"

record goal_limits =
  gl_turns :: u32
  gl_tokens :: u64
  gl_elapsed_ms :: u64
  gl_reviews :: u32
  gl_children :: u32
  gl_retries :: u32
  gl_processes :: u32
  gl_storage_bytes :: u64
  gl_cost_microunits :: u64

definition goal_limits_default :: goal_limits where
  "goal_limits_default =
     \<lparr>gl_turns = 100, gl_tokens = 1000000, gl_elapsed_ms = 24 * 60 * 60 * 1000, gl_reviews = 20, gl_children = 16,
      gl_retries = 20, gl_processes = 64, gl_storage_bytes = 1024 * 1024 * 1024, gl_cost_microunits = 100000000\<rparr>"

record goal_usage =
  gu_turns :: u32
  gu_tokens :: u64
  gu_elapsed_ms :: u64
  gu_reviews :: u32
  gu_children :: u32
  gu_retries :: u32
  gu_processes :: u32
  gu_storage_bytes :: u64
  gu_cost_microunits :: u64

definition goal_usage_default :: goal_usage where
  "goal_usage_default =
     \<lparr>gu_turns = 0, gu_tokens = 0, gu_elapsed_ms = 0, gu_reviews = 0, gu_children = 0, gu_retries = 0,
      gu_processes = 0, gu_storage_bytes = 0, gu_cost_microunits = 0\<rparr>"

record goal_usage_delta =
  gd_turns :: u32
  gd_tokens :: u64
  gd_reviews :: u32
  gd_children :: u32
  gd_retries :: u32
  gd_processes :: u32
  gd_storage_bytes :: u64
  gd_cost_microunits :: u64

datatype goal_limit_kind =
    TurnsLimit | TokensLimit | ElapsedTimeLimit | ReviewsLimit | ChildrenLimit | RetriesLimit | ProcessesLimit
  | StorageLimit | CostLimit

datatype goal_stop_reason = LimitReached goal_limit_kind | UserBlocked string

record goal_terminal_summary =
  ts_state :: goal_state
  ts_summary :: string
  ts_finished_at :: timestamp
  ts_final_usage :: goal_usage

record goal =
  gg_id :: goal_id
  gg_session_id :: session_id
  gg_objective :: string
  gg_state :: goal_state
  gg_limits :: goal_limits
  gg_usage :: goal_usage
  gg_plan_id :: "entity_id option"
  gg_waiting_condition_id :: "entity_id option"
  gg_created_at :: timestamp
  gg_updated_at :: timestamp
  gg_started_at :: "timestamp option"
  gg_terminal_summary :: "goal_terminal_summary option"
  gg_last_stop :: "goal_stop_reason option"
  gg_archived_at :: "timestamp option"
  gg_revision :: revision
  gg_resume_state :: "goal_state option"

datatype link_update = KeepLink | SetLink entity_id | ClearLink

record goal_edit =
  ge_objective :: "string option"
  ge_limits :: "goal_limits option"
  ge_plan :: link_update
  ge_waiting_condition :: link_update

definition goal_edit_default :: goal_edit where
  "goal_edit_default =
     \<lparr>ge_objective = None, ge_limits = None, ge_plan = KeepLink, ge_waiting_condition = KeepLink\<rparr>"

record goal_projection =
  gp_id :: goal_id
  gp_session_id :: session_id
  gp_objective :: string
  gp_state :: goal_state
  gp_limits :: goal_limits
  gp_usage :: goal_usage
  gp_plan_id :: "entity_id option"
  gp_waiting_condition_id :: "entity_id option"
  gp_terminal_summary :: "goal_terminal_summary option"
  gp_last_stop :: "goal_stop_reason option"
  gp_archived :: bool
  gp_updated_at :: timestamp

definition goal_projection_from :: "goal \<Rightarrow> goal_projection" where
  "goal_projection_from g =
     \<lparr>gp_id = gg_id g, gp_session_id = gg_session_id g, gp_objective = gg_objective g, gp_state = gg_state g,
      gp_limits = gg_limits g, gp_usage = gg_usage g, gp_plan_id = gg_plan_id g,
      gp_waiting_condition_id = gg_waiting_condition_id g, gp_terminal_summary = gg_terminal_summary g,
      gp_last_stop = gg_last_stop g, gp_archived = (gg_archived_at g \<noteq> None), gp_updated_at = gg_updated_at g\<rparr>"

datatype goal_error =
    GoalRepository string
  | GoalAction action_store_error
  | GoalNotFound goal_id
  | GoalCorrupt string
  | GoalInvalid string
  | GoalIllegalTransition goal_state goal_state
  | GoalArchived
  | GoalNotActive
  | GoalBudgetExceeded goal_limit_kind
  | GoalRevisionOverflow
  | GoalLockPoisoned

definition validate_goal_limits :: "goal_limits \<Rightarrow> goal_error + unit" where
  "validate_goal_limits l =
     (if gl_turns l = 0 \<or> gl_tokens l = 0 \<or> gl_elapsed_ms l = 0 \<or> gl_reviews l = 0 \<or> gl_children l = 0
        \<or> gl_retries l = 0 \<or> gl_processes l = 0 \<or> gl_storage_bytes l = 0 \<or> gl_cost_microunits l = 0
      then Inl (GoalInvalid ''every autonomous goal limit must be non-zero'') else Inr ())"

section \<open>Usage and limits\<close>

definition validate_objective :: "string \<Rightarrow> goal_error + unit" where
  "validate_objective objective =
     (if is_blank objective then Inl (GoalInvalid ''goal objective cannot be empty'') else Inr ())"

definition ensure_not_archived :: "goal \<Rightarrow> goal_error + unit" where
  "ensure_not_archived g = (if gg_archived_at g \<noteq> None then Inl GoalArchived else Inr ())"

fun apply_link :: "entity_id option \<Rightarrow> link_update \<Rightarrow> entity_id option" where
  "apply_link target KeepLink = target"
| "apply_link target (SetLink i) = Some i"
| "apply_link target ClearLink = None"

definition goal_elapsed_ms :: "timestamp option \<Rightarrow> timestamp \<Rightarrow> u64" where
  "goal_elapsed_ms started_at now =
     (case started_at of
        None \<Rightarrow> 0
      | Some started \<Rightarrow>
          (let d = i64_saturating_sub now started in if d < 0 then 0 else word_of_int d))"

definition goal_elapsed_deadline :: "timestamp option \<Rightarrow> u64 \<Rightarrow> timestamp option" where
  "goal_elapsed_deadline started_at max_elapsed =
     (case started_at of
        None \<Rightarrow> None
      | Some started \<Rightarrow> map_option (i64_saturating_add started) (i64_try_from max_elapsed))"

definition bounded_usage ::
  "goal_usage \<Rightarrow> goal_usage_delta \<Rightarrow> goal_limits \<Rightarrow> timestamp \<Rightarrow> timestamp option \<Rightarrow> goal_usage" where
  "bounded_usage u d l now started_at =
     \<lparr>gu_turns = min (saturating_add (gu_turns u) (gd_turns d)) (gl_turns l),
      gu_tokens = min (saturating_add (gu_tokens u) (gd_tokens d)) (gl_tokens l),
      gu_elapsed_ms = min (max (gu_elapsed_ms u) (goal_elapsed_ms started_at now)) (gl_elapsed_ms l),
      gu_reviews = min (saturating_add (gu_reviews u) (gd_reviews d)) (gl_reviews l),
      gu_children = min (saturating_add (gu_children u) (gd_children d)) (gl_children l),
      gu_retries = min (saturating_add (gu_retries u) (gd_retries d)) (gl_retries l),
      gu_processes = min (saturating_add (gu_processes u) (gd_processes d)) (gl_processes l),
      gu_storage_bytes = min (saturating_add (gu_storage_bytes u) (gd_storage_bytes d)) (gl_storage_bytes l),
      gu_cost_microunits = min (saturating_add (gu_cost_microunits u) (gd_cost_microunits d)) (gl_cost_microunits l)\<rparr>"

definition usage_limit_pairs :: "goal_usage \<Rightarrow> goal_limits \<Rightarrow> (goal_limit_kind \<times> u64 \<times> u64) list" where
  "usage_limit_pairs u l =
     [(TurnsLimit, ucast (gu_turns u), ucast (gl_turns l)),
      (TokensLimit, gu_tokens u, gl_tokens l),
      (ElapsedTimeLimit, gu_elapsed_ms u, gl_elapsed_ms l),
      (ReviewsLimit, ucast (gu_reviews u), ucast (gl_reviews l)),
      (ChildrenLimit, ucast (gu_children u), ucast (gl_children l)),
      (RetriesLimit, ucast (gu_retries u), ucast (gl_retries l)),
      (ProcessesLimit, ucast (gu_processes u), ucast (gl_processes l)),
      (StorageLimit, gu_storage_bytes u, gl_storage_bytes l),
      (CostLimit, gu_cost_microunits u, gl_cost_microunits l)]"

definition ensure_usage_within :: "goal_usage \<Rightarrow> goal_limits \<Rightarrow> goal_error + unit" where
  "ensure_usage_within u l =
     (case find (\<lambda>(kind, used, limit). used > limit) (usage_limit_pairs u l) of
        Some (kind, _) \<Rightarrow> Inl (GoalBudgetExceeded kind)
      | None \<Rightarrow> Inr ())"

definition reached_limit :: "goal_usage \<Rightarrow> goal_limits \<Rightarrow> goal_limit_kind option" where
  "reached_limit u l = map_option fst (find (\<lambda>(kind, used, limit). used \<ge> limit) (usage_limit_pairs u l))"

definition refresh_elapsed :: "goal \<Rightarrow> timestamp \<Rightarrow> goal" where
  "refresh_elapsed g now =
     g\<lparr>gg_usage := (gg_usage g)\<lparr>gu_elapsed_ms :=
       min (max (gu_elapsed_ms (gg_usage g)) (goal_elapsed_ms (gg_started_at g) now)) (gl_elapsed_ms (gg_limits g))\<rparr>\<rparr>"

definition goal_action_limits :: "goal_limits \<Rightarrow> goal_usage \<Rightarrow> action_limits" where
  "goal_action_limits l u =
     \<lparr>max_turns = Some (saturating_sub (gl_turns l) (gu_turns u)),
      max_tokens = Some (saturating_sub (gl_tokens l) (gu_tokens u)),
      max_elapsed_ms = Some (saturating_sub (gl_elapsed_ms l) (gu_elapsed_ms u)),
      max_tool_calls = Some (saturating_sub (gl_processes l) (gu_processes u)),
      max_children = Some (let n = saturating_sub (gl_children l) (gu_children u)
        in if unat n < 2 ^ 16 then ucast n else - 1)\<rparr>"

section \<open>Changes of one goal\<close>

definition new_goal :: "goal_id \<Rightarrow> session_id \<Rightarrow> string \<Rightarrow> goal_limits \<Rightarrow> timestamp \<Rightarrow> goal" where
  "new_goal i session objective limits now =
     \<lparr>gg_id = i, gg_session_id = session, gg_objective = objective, gg_state = GoalDraft, gg_limits = limits,
      gg_usage = goal_usage_default, gg_plan_id = None, gg_waiting_condition_id = None, gg_created_at = now,
      gg_updated_at = now, gg_started_at = None, gg_terminal_summary = None, gg_last_stop = None,
      gg_archived_at = None, gg_revision = revision_zero, gg_resume_state = None\<rparr>"

definition edit_limits :: "goal \<Rightarrow> goal_limits \<Rightarrow> goal_error + goal" where
  "edit_limits g limits =
     (case validate_goal_limits limits of Inl e \<Rightarrow> Inl e | Inr _ \<Rightarrow>
      (case ensure_usage_within (gg_usage g) limits of Inl e \<Rightarrow> Inl e | Inr _ \<Rightarrow>
       Inr (g\<lparr>gg_limits := limits,
              gg_last_stop :=
                (if gg_state g = GoalBlocked \<and> (case gg_last_stop g of Some (LimitReached _) \<Rightarrow> True | _ \<Rightarrow> False)
                    \<and> reached_limit (gg_usage g) limits = None
                 then None else gg_last_stop g)\<rparr>)))"

definition edit_goal :: "goal_edit \<Rightarrow> goal \<Rightarrow> goal_error + goal" where
  "edit_goal edit g =
     (if gg_state g \<notin> {GoalDraft, GoalReady, GoalPaused, GoalBlocked} then Inl GoalNotActive
      else (case (case ge_objective edit of
                    None \<Rightarrow> Inr g
                  | Some objective \<Rightarrow>
                      (case validate_objective objective of
                         Inl e \<Rightarrow> Inl e
                       | Inr _ \<Rightarrow> Inr (g\<lparr>gg_objective := objective\<rparr>))) of
          Inl e \<Rightarrow> Inl e
        | Inr g1 \<Rightarrow>
            (case (case ge_limits edit of None \<Rightarrow> Inr g1 | Some limits \<Rightarrow> edit_limits g1 limits) of
               Inl e \<Rightarrow> Inl e
             | Inr g2 \<Rightarrow>
                 Inr (g2\<lparr>gg_plan_id := apply_link (gg_plan_id g2) (ge_plan edit),
                        gg_waiting_condition_id :=
                          apply_link (gg_waiting_condition_id g2) (ge_waiting_condition edit)\<rparr>))))"

definition start_goal :: "goal_state \<Rightarrow> timestamp \<Rightarrow> goal \<Rightarrow> goal" where
  "start_goal next now g =
     (if next = GoalRunning \<and> gg_started_at g = None then g\<lparr>gg_started_at := Some now\<rparr> else g)"

definition move_goal :: "goal_state \<Rightarrow> string option \<Rightarrow> timestamp \<Rightarrow> goal \<Rightarrow> goal_error + goal" where
  "move_goal next summary now g =
     (if \<not> goal_allows (gg_state g) next then Inl (GoalIllegalTransition (gg_state g) next)
      else if next = GoalWaiting \<and> gg_waiting_condition_id g = None
      then Inl (GoalInvalid ''waiting goals require a waiting-condition link'')
      else (case (if goal_is_terminal next
                  then (case summary of
                      None \<Rightarrow> Inl (GoalInvalid ''terminal goals require a completion/failure summary'')
                    | Some text \<Rightarrow>
                        if is_blank text then Inl (GoalInvalid ''terminal goal summary cannot be empty'')
                        else Inr (g\<lparr>gg_terminal_summary := Some \<lparr>ts_state = next, ts_summary = text, ts_finished_at = now,
                                      ts_final_usage = gg_usage g\<rparr>\<rparr>))
                  else if summary \<noteq> None
                  then Inl (GoalInvalid ''summaries are reserved for terminal transitions'')
                  else Inr g) of
          Inl e \<Rightarrow> Inl e
        | Inr g1 \<Rightarrow>
            Inr (start_goal next now (g1\<lparr>gg_state := next, gg_last_stop := None, gg_resume_state := None\<rparr>))))"

fun pause_target :: "goal_state \<Rightarrow> goal_state option" where
  "pause_target GoalReady = Some GoalReady"
| "pause_target GoalWaiting = Some GoalWaiting"
| "pause_target GoalReviewing = Some GoalReviewing"
| "pause_target GoalRunning = Some GoalRunning"
| "pause_target GoalBlocked = Some GoalRunning"
| "pause_target _ = None"

definition pause_goal :: "goal \<Rightarrow> goal_error + goal" where
  "pause_goal g =
     (if \<not> goal_allows (gg_state g) GoalPaused then Inl (GoalIllegalTransition (gg_state g) GoalPaused)
      else (case pause_target (gg_state g) of
          None \<Rightarrow> Inl GoalNotActive
        | Some target \<Rightarrow> Inr (g\<lparr>gg_resume_state := Some target, gg_state := GoalPaused\<rparr>)))"

definition resume_goal :: "timestamp \<Rightarrow> goal \<Rightarrow> goal_error + goal" where
  "resume_goal now g =
     (case reached_limit (gg_usage g) (gg_limits g) of Some limit \<Rightarrow> Inl (GoalBudgetExceeded limit) | None \<Rightarrow>
      (case (if gg_state g = GoalPaused
             then Inr ((case gg_resume_state g of None \<Rightarrow> GoalReady | Some st \<Rightarrow> st), g\<lparr>gg_resume_state := None\<rparr>)
             else if gg_state g = GoalBlocked then Inr (GoalRunning, g)
             else Inl (GoalIllegalTransition (gg_state g) GoalRunning)) of
         Inl e \<Rightarrow> Inl e
       | Inr (next, g1) \<Rightarrow>
           if next = GoalWaiting \<and> gg_waiting_condition_id g1 = None
           then Inl (GoalInvalid ''waiting goals require a waiting-condition link'')
           else Inr (start_goal next now (g1\<lparr>gg_state := next, gg_last_stop := None\<rparr>))))"

definition limit_block :: "goal \<Rightarrow> goal_limit_kind \<Rightarrow> goal" where
  "limit_block g limit = g\<lparr>gg_state := GoalBlocked, gg_last_stop := Some (LimitReached limit)\<rparr>"

definition charge_goal :: "goal_usage_delta \<Rightarrow> timestamp \<Rightarrow> goal \<Rightarrow> goal_error + goal" where
  "charge_goal delta now g =
     (if gg_state g \<notin> {GoalRunning, GoalWaiting, GoalReviewing} then Inl GoalNotActive
      else let g1 = g\<lparr>gg_usage := bounded_usage (gg_usage g) delta (gg_limits g) now (gg_started_at g)\<rparr>
           in Inr (case reached_limit (gg_usage g1) (gg_limits g) of None \<Rightarrow> g1 | Some limit \<Rightarrow> limit_block g1 limit))"

definition block_goal :: "string \<Rightarrow> goal \<Rightarrow> goal_error + goal" where
  "block_goal summary g =
     (if \<not> goal_allows (gg_state g) GoalBlocked then Inl (GoalIllegalTransition (gg_state g) GoalBlocked)
      else Inr (g\<lparr>gg_state := GoalBlocked, gg_last_stop := Some (UserBlocked summary)\<rparr>))"

definition archive_goal :: "timestamp \<Rightarrow> goal \<Rightarrow> goal_error + goal" where
  "archive_goal now g =
     (if \<not> goal_is_terminal (gg_state g) then Inl GoalNotActive else Inr (g\<lparr>gg_archived_at := Some now\<rparr>))"

section \<open>The service\<close>

record stored_goal =
  sg_goal :: goal
  sg_storage_revision :: revision

text \<open>The repositories of goals and of actions are the two type parameters of the service; they read and write
  one state.\<close>

record ('s, 'j, 'e) goal_service =
  gs_goals :: "('s, 'j, 'e) repository"
  gs_goal_serde :: "(goal, 'j) serde"
  gs_actions :: "('s, 'j, 'e) repository"
  gs_action_serde :: "(action_record, 'j) serde"
  gs_inbox :: action_inbox
  gs_poisoned :: bool

definition goal_encode :: "(goal, 'j) serde \<Rightarrow> goal \<Rightarrow> goal_error + 'j versioned_record" where
  "goal_encode C g =
     (case to_value C g of
        Inl e \<Rightarrow> Inl (GoalCorrupt e)
      | Inr payload \<Rightarrow>
          Inr \<lparr>vr_version = CURRENT_SCHEMA_VERSION, vr_id = gg_id g, vr_revision = gg_revision g,
               vr_updated_at = gg_updated_at g, vr_payload = payload\<rparr>)"

definition goal_decode :: "(goal, 'j) serde \<Rightarrow> 'j versioned_record \<Rightarrow> goal_error + stored_goal" where
  "goal_decode C r =
     (case from_value C (vr_payload r) of
        Inl e \<Rightarrow> Inl (GoalCorrupt e)
      | Inr g \<Rightarrow>
          if major (vr_version r) \<noteq> major CURRENT_SCHEMA_VERSION
            \<or> minor (vr_version r) > minor CURRENT_SCHEMA_VERSION
            \<or> gg_id g \<noteq> vr_id r \<or> gg_revision g \<noteq> vr_revision r
          then Inl (GoalCorrupt ''record envelope does not match its goal payload'')
          else Inr \<lparr>sg_goal = g, sg_storage_revision = vr_revision r\<rparr>)"

definition goal_repository_error :: "('s, 'j, 'e) goal_service \<Rightarrow> 'e \<Rightarrow> goal_error" where
  "goal_repository_error G e = GoalRepository (repo_display (gs_goals G) e)"

definition goal_load :: "('s, 'j, 'e) goal_service \<Rightarrow> 's \<Rightarrow> goal_id \<Rightarrow> goal_error + stored_goal option" where
  "goal_load G s i =
     (case repo_get (gs_goals G) s i of
        Inl e \<Rightarrow> Inl (goal_repository_error G e)
      | Inr None \<Rightarrow> Inr None
      | Inr (Some r) \<Rightarrow> (case goal_decode (gs_goal_serde G) r of Inl e \<Rightarrow> Inl e | Inr x \<Rightarrow> Inr (Some x)))"

definition goal_load_all :: "('s, 'j, 'e) goal_service \<Rightarrow> 's \<Rightarrow> goal_error + stored_goal list" where
  "goal_load_all G s =
     (case repo_list (gs_goals G) s of
        Inl e \<Rightarrow> Inl (goal_repository_error G e)
      | Inr rs \<Rightarrow> collect_results (map (goal_decode (gs_goal_serde G)) rs))"

definition goal_required :: "('s, 'j, 'e) goal_service \<Rightarrow> 's \<Rightarrow> goal_id \<Rightarrow> goal_error + stored_goal" where
  "goal_required G s i =
     (case goal_load G s i of
        Inl e \<Rightarrow> Inl e
      | Inr None \<Rightarrow> Inl (GoalNotFound i)
      | Inr (Some x) \<Rightarrow> Inr x)"

definition stamp_goal :: "revision \<Rightarrow> timestamp \<Rightarrow> goal \<Rightarrow> goal" where
  "stamp_goal n now g = g\<lparr>gg_revision := n, gg_updated_at := now\<rparr>"

definition goal_persist ::
  "('s, 'j, 'e) goal_service \<Rightarrow> 's \<Rightarrow> stored_goal \<Rightarrow> timestamp \<Rightarrow> (goal_error + goal) \<times> 's" where
  "goal_persist G s stored now =
     (case checked_next (sg_storage_revision stored) of
        None \<Rightarrow> (Inl GoalRevisionOverflow, s)
      | Some n \<Rightarrow>
          let g = stamp_goal n now (sg_goal stored) in
          (case goal_encode (gs_goal_serde G) g of
             Inl e \<Rightarrow> (Inl e, s)
           | Inr r \<Rightarrow>
               (case repo_put (gs_goals G) s r (Exact (sg_storage_revision stored)) of
                  (Inl e, s') \<Rightarrow> (Inl (goal_repository_error G e), s')
                | (Inr _, s') \<Rightarrow> (Inr g, s'))))"

text \<open>The shape of most operations: load, refuse an archived goal, change, persist.\<close>

definition goal_update ::
  "('s, 'j, 'e) goal_service \<Rightarrow> 's \<Rightarrow> goal_id \<Rightarrow> (goal \<Rightarrow> goal_error + goal) \<Rightarrow> timestamp \<Rightarrow>
   (goal_error + goal) \<times> 's" where
  "goal_update G s i change now =
     (if gs_poisoned G then (Inl GoalLockPoisoned, s)
      else (case goal_required G s i of Inl e \<Rightarrow> (Inl e, s) | Inr stored \<Rightarrow>
       (case ensure_not_archived (sg_goal stored) of Inl e \<Rightarrow> (Inl e, s) | Inr _ \<Rightarrow>
        (case change (sg_goal stored) of Inl e \<Rightarrow> (Inl e, s) | Inr g \<Rightarrow>
         goal_persist G s (stored\<lparr>sg_goal := g\<rparr>) now))))"

definition goal_create ::
  "('s, 'j, 'e) goal_service \<Rightarrow> 's \<Rightarrow> goal_id \<Rightarrow> session_id \<Rightarrow> string \<Rightarrow> goal_limits \<Rightarrow> timestamp \<Rightarrow>
   (goal_error + goal) \<times> 's" where
  "goal_create G s new_id session objective limits now =
     (case validate_goal_limits limits of Inl e \<Rightarrow> (Inl e, s) | Inr _ \<Rightarrow>
      (case validate_objective objective of Inl e \<Rightarrow> (Inl e, s) | Inr _ \<Rightarrow>
       if gs_poisoned G then (Inl GoalLockPoisoned, s)
       else let g = new_goal new_id session objective limits now in
         (case goal_encode (gs_goal_serde G) g of
            Inl e \<Rightarrow> (Inl e, s)
          | Inr r \<Rightarrow>
              (case repo_put (gs_goals G) s r Missing of
                 (Inl e, s') \<Rightarrow> (Inl (goal_repository_error G e), s')
               | (Inr _, s') \<Rightarrow> (Inr g, s')))))"

definition goal_get :: "('s, 'j, 'e) goal_service \<Rightarrow> 's \<Rightarrow> goal_id \<Rightarrow> goal_error + goal option" where
  "goal_get G s i =
     (if gs_poisoned G then Inl GoalLockPoisoned
      else (case goal_load G s i of Inl e \<Rightarrow> Inl e | Inr x \<Rightarrow> Inr (map_option sg_goal x)))"

definition goal_list_session :: "('s, 'j, 'e) goal_service \<Rightarrow> 's \<Rightarrow> session_id \<Rightarrow> goal_error + goal list" where
  "goal_list_session G s session =
     (if gs_poisoned G then Inl GoalLockPoisoned
      else (case goal_load_all G s of
          Inl e \<Rightarrow> Inl e
        | Inr xs \<Rightarrow>
            Inr (sort_key (\<lambda>g. (gg_created_at g, gg_id g))
              (filter (\<lambda>g. gg_session_id g = session \<and> gg_archived_at g = None) (map sg_goal xs)))))"

definition goal_project :: "('s, 'j, 'e) goal_service \<Rightarrow> 's \<Rightarrow> goal_id \<Rightarrow> goal_error + goal_projection" where
  "goal_project G s i =
     (if gs_poisoned G then Inl GoalLockPoisoned
      else (case goal_required G s i of Inl e \<Rightarrow> Inl e | Inr x \<Rightarrow> Inr (goal_projection_from (sg_goal x))))"

definition goal_edit_op where
  "goal_edit_op G s i edit now = goal_update G s i (edit_goal edit) now"

definition continuation_of :: "goal \<Rightarrow> action_record \<Rightarrow> bool" where
  "continuation_of g r \<longleftrightarrow> \<not> action_is_terminal (ar_state r) \<and> sa_payload (ar_action r) = ContinueGoal (gg_id g)"

fun cancel_actions ::
  "('s, 'j, 'e) goal_service \<Rightarrow> 's \<Rightarrow> goal \<Rightarrow> timestamp \<Rightarrow> action_record list \<Rightarrow> (goal_error + unit) \<times> 's" where
  "cancel_actions G s g now [] = (Inr (), s)"
| "cancel_actions G s g now (r # rs) =
     (if continuation_of g r
      then (case action_cancel (gs_actions G) (gs_action_serde G) (gs_inbox G) s (sa_id (ar_action r)) now
                   ''owning goal became terminal'' of
          (Inl e, s') \<Rightarrow> (Inl (GoalAction e), s')
        | (Inr _, s') \<Rightarrow> cancel_actions G s' g now rs)
      else cancel_actions G s g now rs)"

definition cancel_continuations ::
  "('s, 'j, 'e) goal_service \<Rightarrow> 's \<Rightarrow> goal \<Rightarrow> timestamp \<Rightarrow> (goal_error + unit) \<times> 's" where
  "cancel_continuations G s g now =
     (case list_session (gs_actions G) (gs_action_serde G) (gs_inbox G) s (gg_session_id g) of
        Inl e \<Rightarrow> (Inl (GoalAction e), s)
      | Inr rs \<Rightarrow> cancel_actions G s g now rs)"

definition goal_transition ::
  "('s, 'j, 'e) goal_service \<Rightarrow> 's \<Rightarrow> goal_id \<Rightarrow> goal_state \<Rightarrow> string option \<Rightarrow> timestamp \<Rightarrow>
   (goal_error + goal) \<times> 's" where
  "goal_transition G s i next summary now =
     (if gs_poisoned G then (Inl GoalLockPoisoned, s)
      else (case goal_required G s i of Inl e \<Rightarrow> (Inl e, s) | Inr stored \<Rightarrow>
       (case ensure_not_archived (sg_goal stored) of Inl e \<Rightarrow> (Inl e, s) | Inr _ \<Rightarrow>
        (case (if goal_is_terminal next then cancel_continuations G s (sg_goal stored) now else (Inr (), s)) of
           (Inl e, s1) \<Rightarrow> (Inl e, s1)
         | (Inr _, s1) \<Rightarrow>
             (case move_goal next summary now (sg_goal stored) of
                Inl e \<Rightarrow> (Inl e, s1)
              | Inr g \<Rightarrow> goal_persist G s1 (stored\<lparr>sg_goal := g\<rparr>) now)))))"

definition goal_pause where
  "goal_pause G s i now = goal_update G s i pause_goal now"

definition goal_resume where
  "goal_resume G s i now = goal_update G s i (resume_goal now) now"

definition goal_record_usage where
  "goal_record_usage G s i delta now = goal_update G s i (charge_goal delta now) now"

definition goal_cancel where
  "goal_cancel G s i summary now = goal_transition G s i GoalCancelled (Some summary) now"

definition goal_block where
  "goal_block G s i summary now =
     (if is_blank summary then (Inl (GoalInvalid ''blocked summary cannot be empty''), s)
      else goal_update G s i (block_goal summary) now)"

definition goal_archive where
  "goal_archive G s i now = goal_update G s i (archive_goal now) now"

definition continuation_action :: "goal \<Rightarrow> action_id \<Rightarrow> timestamp \<Rightarrow> session_action" where
  "continuation_action g new_id now =
     \<lparr>sa_id = new_id, sa_session_id = gg_session_id g, sa_source = AutonomousContinuation (gg_id g),
      sa_delivery = WhenIdle, sa_priority = Background, sa_created_at = now, sa_not_before = None,
      sa_deadline = goal_elapsed_deadline (gg_started_at g) (gl_elapsed_ms (gg_limits g)),
      sa_limits = goal_action_limits (gg_limits g) (gg_usage g), sa_reply_route = None,
      sa_payload = ContinueGoal (gg_id g)\<rparr>"

definition goal_enqueue_continuation ::
  "('s, 'j, 'e) goal_service \<Rightarrow> 's \<Rightarrow> goal_id \<Rightarrow> timestamp \<Rightarrow> action_id \<Rightarrow> (goal_error + action_record) \<times> 's" where
  "goal_enqueue_continuation G s i now new_id =
     (if gs_poisoned G then (Inl GoalLockPoisoned, s)
      else (case goal_required G s i of Inl e \<Rightarrow> (Inl e, s) | Inr stored \<Rightarrow>
       (case ensure_not_archived (sg_goal stored) of Inl e \<Rightarrow> (Inl e, s) | Inr _ \<Rightarrow>
        if gg_state (sg_goal stored) \<noteq> GoalRunning then (Inl GoalNotActive, s)
        else let g = refresh_elapsed (sg_goal stored) now in
         (case reached_limit (gg_usage g) (gg_limits g) of
            Some limit \<Rightarrow>
              (case goal_persist G s (stored\<lparr>sg_goal := limit_block g limit\<rparr>) now of
                 (Inl e, s') \<Rightarrow> (Inl e, s')
               | (Inr _, s') \<Rightarrow> (Inl (GoalBudgetExceeded limit), s'))
          | None \<Rightarrow>
              (case list_session (gs_actions G) (gs_action_serde G) (gs_inbox G) s (gg_session_id g) of
                 Inl e \<Rightarrow> (Inl (GoalAction e), s)
               | Inr rs \<Rightarrow>
                   (case find (continuation_of g) rs of
                      Some existing \<Rightarrow> (Inr existing, s)
                    | None \<Rightarrow>
                        (case submit (gs_actions G) (gs_action_serde G) (gs_inbox G) s
                                (continuation_action g new_id now) now of
                           (Inl e, s') \<Rightarrow> (Inl (GoalAction e), s')
                         | (Inr r, s') \<Rightarrow> (Inr r, s'))))))))"

section \<open>Specification\<close>

type_synonym goal_table = "goal_id \<Rightarrow> goal option"

inductive goal_change :: "timestamp \<Rightarrow> goal \<Rightarrow> goal \<Rightarrow> bool" for now g g' where
  edited: "edit_goal edit g = Inr g' \<Longrightarrow> goal_change now g g'"
| moved_on: "move_goal next summary now g = Inr g' \<Longrightarrow> goal_change now g g'"
| paused: "pause_goal g = Inr g' \<Longrightarrow> goal_change now g g'"
| resumed: "resume_goal now g = Inr g' \<Longrightarrow> goal_change now g g'"
| charged: "charge_goal delta now g = Inr g' \<Longrightarrow> goal_change now g g'"
| blocked: "block_goal summary g = Inr g' \<Longrightarrow> \<not> is_blank summary \<Longrightarrow> goal_change now g g'"
| archived: "archive_goal now g = Inr g' \<Longrightarrow> goal_change now g g'"
| timed_out: "gg_state g = GoalRunning \<Longrightarrow> reached_limit (gg_usage (refresh_elapsed g now)) (gg_limits g) = Some limit \<Longrightarrow>
    g' = limit_block (refresh_elapsed g now) limit \<Longrightarrow> goal_change now g g'"

definition quiet :: "action_table \<Rightarrow> goal \<Rightarrow> bool" where
  "quiet A g \<longleftrightarrow> (\<forall>j r. A j = Some r \<longrightarrow> in_session (gg_session_id g) r \<longrightarrow> \<not> continuation_of g r)"

text \<open>
  The changes of goals and of the inbox together. A goal ends only when none of its continuations is
  live; a continuation is submitted only for a running goal that has none. What other users of the
  inbox do is a step of its own, in which they submit no continuation.
\<close>

inductive goal_spec ::
  "action_inbox_config \<Rightarrow> goal_table \<times> action_table \<Rightarrow> goal_table \<times> action_table \<Rightarrow> bool" for cfg where
  created: "T i = None \<Longrightarrow> validate_goal_limits limits = Inr () \<Longrightarrow> validate_objective objective = Inr () \<Longrightarrow>
     goal_spec cfg (T, A) (T(i \<mapsto> new_goal i session objective limits now), A)"
| changed: "T i = Some g \<Longrightarrow> gg_archived_at g = None \<Longrightarrow> goal_change now g g' \<Longrightarrow> gg_revision g < n \<Longrightarrow>
     (goal_is_terminal (gg_state g') \<Longrightarrow> \<not> goal_is_terminal (gg_state g) \<Longrightarrow> quiet A g) \<Longrightarrow>
     goal_spec cfg (T, A) (T(i \<mapsto> stamp_goal n now g'), A)"
| continued: "T i = Some g \<Longrightarrow> gg_archived_at g = None \<Longrightarrow> gg_state g = GoalRunning \<Longrightarrow>
     reached_limit (gg_usage (refresh_elapsed g now)) (gg_limits g) = None \<Longrightarrow> quiet A g \<Longrightarrow>
     A k = None \<Longrightarrow> ar_action r = continuation_action (refresh_elapsed g now) k now \<Longrightarrow>
     inbox_spec cfg A (A(k \<mapsto> r)) \<Longrightarrow> goal_spec cfg (T, A) (T, A(k \<mapsto> r))"
| withdrawn: "T i = Some g \<Longrightarrow> A k = Some r \<Longrightarrow> in_session (gg_session_id g) r \<Longrightarrow> continuation_of g r \<Longrightarrow>
     A' = A(k \<mapsto> moved_record r ActionCancelled now detail) \<Longrightarrow> inbox_spec cfg A A' \<Longrightarrow> goal_spec cfg (T, A) (T, A')"
| elsewhere: "inbox_spec cfg A A' \<Longrightarrow>
     (\<And>k r i. A k = None \<Longrightarrow> A' k = Some r \<Longrightarrow> sa_payload (ar_action r) \<noteq> ContinueGoal i) \<Longrightarrow>
     goal_spec cfg (T, A) (T, A')"

section \<open>Well-formed goals\<close>

definition usage_within :: "goal_usage \<Rightarrow> goal_limits \<Rightarrow> bool" where
  "usage_within u l \<longleftrightarrow> (\<forall>(kind, used, limit) \<in> set (usage_limit_pairs u l). used \<le> limit)"

definition goal_ok :: "goal \<Rightarrow> bool" where
  "goal_ok g \<longleftrightarrow>
     validate_goal_limits (gg_limits g) = Inr () \<and> \<not> is_blank (gg_objective g)
     \<and> usage_within (gg_usage g) (gg_limits g)
     \<and> (goal_is_terminal (gg_state g) \<longleftrightarrow> gg_terminal_summary g \<noteq> None)
     \<and> (\<forall>t. gg_terminal_summary g = Some t \<longrightarrow>
          ts_state t = gg_state g \<and> ts_final_usage t = gg_usage g \<and> \<not> is_blank (ts_summary t))
     \<and> (gg_archived_at g \<noteq> None \<longrightarrow> goal_is_terminal (gg_state g))
     \<and> (gg_state g = GoalWaiting \<longrightarrow> gg_waiting_condition_id g \<noteq> None)
     \<and> (gg_state g = GoalRunning \<longrightarrow> gg_started_at g \<noteq> None)
     \<and> (\<forall>st. gg_resume_state g = Some st \<longrightarrow>
          gg_state g = GoalPaused \<and> st \<in> {GoalReady, GoalWaiting, GoalReviewing, GoalRunning})"

text \<open>The invariant of an unfinished goal, in the parts that changes touch.\<close>

definition live_ok :: "goal \<Rightarrow> bool" where
  "live_ok g \<longleftrightarrow>
     validate_goal_limits (gg_limits g) = Inr () \<and> \<not> is_blank (gg_objective g)
     \<and> usage_within (gg_usage g) (gg_limits g)
     \<and> gg_terminal_summary g = None \<and> gg_archived_at g = None"

definition state_ok :: "goal \<Rightarrow> bool" where
  "state_ok g \<longleftrightarrow>
     \<not> goal_is_terminal (gg_state g)
     \<and> (gg_state g = GoalWaiting \<longrightarrow> gg_waiting_condition_id g \<noteq> None)
     \<and> (gg_state g = GoalRunning \<longrightarrow> gg_started_at g \<noteq> None)
     \<and> (\<forall>st. gg_resume_state g = Some st \<longrightarrow>
          gg_state g = GoalPaused \<and> st \<in> {GoalReady, GoalWaiting, GoalReviewing, GoalRunning})"

lemma goal_ok_live: "\<not> goal_is_terminal (gg_state g) \<Longrightarrow> goal_ok g \<longleftrightarrow> live_ok g \<and> state_ok g"
  unfolding goal_ok_def live_ok_def state_ok_def by auto

lemma live_ok_goal: "live_ok g \<Longrightarrow> state_ok g \<Longrightarrow> goal_ok g"
  using goal_ok_live [of g] by (simp add: state_ok_def)

lemma goal_allows_live: "goal_allows st next \<Longrightarrow> \<not> goal_is_terminal st"
  by (cases st) (simp_all add: goal_is_terminal_def)

lemma unat_ucast_u32: "unat (ucast (a :: u32) :: u64) = unat a"
proof -
  have "unat a < 2 ^ 64" using unsigned_less [of a, where ?'a = nat] by (simp add: less_trans)
  then show ?thesis by (simp add: unsigned_ucast_eq take_bit_nat_eq_self)
qed

lemma ucast_le_u32 [simp]: "(ucast (a :: u32) :: u64) \<le> ucast b \<longleftrightarrow> a \<le> b"
  by (simp add: word_le_nat_alt unat_ucast_u32)

lemma usage_within_simps:
  "usage_within u l \<longleftrightarrow>
     gu_turns u \<le> gl_turns l \<and> gu_tokens u \<le> gl_tokens l \<and> gu_elapsed_ms u \<le> gl_elapsed_ms l
     \<and> gu_reviews u \<le> gl_reviews l \<and> gu_children u \<le> gl_children l \<and> gu_retries u \<le> gl_retries l
     \<and> gu_processes u \<le> gl_processes l \<and> gu_storage_bytes u \<le> gl_storage_bytes l
     \<and> gu_cost_microunits u \<le> gl_cost_microunits l"
  by (auto simp: usage_within_def usage_limit_pairs_def)

lemma bounded_usage_within [simp]: "usage_within (bounded_usage u d l now started) l"
  by (simp add: usage_within_simps bounded_usage_def)

lemma refresh_elapsed_within: "usage_within (gg_usage g) (gg_limits g) \<Longrightarrow> usage_within (gg_usage (refresh_elapsed g now)) (gg_limits g)"
  by (simp add: usage_within_simps refresh_elapsed_def)

lemma ensure_usage_within_ok: "ensure_usage_within u l = Inr () \<Longrightarrow> usage_within u l"
  by (force simp: ensure_usage_within_def usage_within_def find_None_iff not_less split: option.splits)

lemma goal_ok_new:
  "validate_goal_limits limits = Inr () \<Longrightarrow> validate_objective objective = Inr () \<Longrightarrow>
   goal_ok (new_goal i session objective limits now)"
  by (rule live_ok_goal)
    (auto simp: live_ok_def state_ok_def new_goal_def goal_usage_default_def usage_within_simps goal_is_terminal_def
      validate_objective_def split: if_splits)

lemma goal_ok_stamp [simp]: "goal_ok (stamp_goal n now g) = goal_ok g"
  by (simp add: goal_ok_def stamp_goal_def)

lemma edit_limits_cases:
  assumes "edit_limits g l = Inr g'"
  shows "validate_goal_limits l = Inr ()" and "usage_within (gg_usage g) l" and "\<exists>stop. g' = g\<lparr>gg_limits := l, gg_last_stop := stop\<rparr>"
  using assms by (auto simp: edit_limits_def dest: ensure_usage_within_ok split: sum.splits)

lemma edit_limits_live: "edit_limits g l = Inr g' \<Longrightarrow> live_ok g \<Longrightarrow> state_ok g \<Longrightarrow> live_ok g' \<and> state_ok g' \<and> gg_state g' = gg_state g"
  using edit_limits_cases [of g l g'] by (auto simp: live_ok_def state_ok_def)

lemma edit_goal_cases:
  assumes "edit_goal edit g = Inr g'"
  obtains g1 g2 where "gg_state g \<in> {GoalDraft, GoalReady, GoalPaused, GoalBlocked}"
    and "g1 = g \<or> (\<exists>objective. \<not> is_blank objective \<and> g1 = g\<lparr>gg_objective := objective\<rparr>)"
    and "g2 = g1 \<or> (\<exists>limits. edit_limits g1 limits = Inr g2)"
    and "g' = g2\<lparr>gg_plan_id := apply_link (gg_plan_id g2) (ge_plan edit),
      gg_waiting_condition_id := apply_link (gg_waiting_condition_id g2) (ge_waiting_condition edit)\<rparr>"
proof -
  let ?first = "case ge_objective edit of None \<Rightarrow> Inr g
      | Some objective \<Rightarrow> (case validate_objective objective of Inl e \<Rightarrow> Inl e | Inr _ \<Rightarrow> Inr (g\<lparr>gg_objective := objective\<rparr>))"
  have st: "gg_state g \<in> {GoalDraft, GoalReady, GoalPaused, GoalBlocked}"
    using assms by (rule contrapos_pp) (simp add: edit_goal_def)
  show ?thesis
  proof (cases ?first)
    case (Inl e)
    then show ?thesis using assms st by (simp only: edit_goal_def Inl) simp
  next
    case g1: (Inr g1)
    have one: "g1 = g \<or> (\<exists>objective. \<not> is_blank objective \<and> g1 = g\<lparr>gg_objective := objective\<rparr>)"
      using g1 by (auto simp: validate_objective_def split: option.splits sum.splits if_splits)
    show ?thesis
    proof (cases "case ge_limits edit of None \<Rightarrow> Inr g1 | Some limits \<Rightarrow> edit_limits g1 limits")
      case (Inl e)
      then show ?thesis using assms st by (simp only: edit_goal_def g1 sum.case Inl) simp
    next
      case g2: (Inr g2)
      have two: "g2 = g1 \<or> (\<exists>limits. edit_limits g1 limits = Inr g2)" using g2 by (auto split: option.splits)
      have "g' = g2\<lparr>gg_plan_id := apply_link (gg_plan_id g2) (ge_plan edit),
          gg_waiting_condition_id := apply_link (gg_waiting_condition_id g2) (ge_waiting_condition edit)\<rparr>"
        using assms st by (simp only: edit_goal_def g1 g2 sum.case) simp
      then show ?thesis by (rule that [OF st one two])
    qed
  qed
qed

lemma edit_goal_ok:
  assumes "edit_goal edit g = Inr g'" and "goal_ok g"
  shows "goal_ok g'"
  using assms(1)
proof (cases rule: edit_goal_cases)
  case (1 g1 g2)
  then have "live_ok g" "state_ok g" using assms(2) goal_ok_live [of g] by (auto simp: goal_is_terminal_def)
  then have "live_ok g1" "state_ok g1" "gg_state g1 = gg_state g" using 1(2) by (auto simp: live_ok_def state_ok_def)
  then have g2: "live_ok g2" "state_ok g2" "gg_state g2 = gg_state g" using 1(3) edit_limits_live [of g1 _ g2] by auto
  have "live_ok g'" using g2(1) by (simp add: 1(4) live_ok_def)
  moreover have "state_ok g'" using g2(2,3) 1(1) by (auto simp: 1(4) state_ok_def)
  ultimately show ?thesis by (rule live_ok_goal)
qed

lemma move_goal_live:
  assumes "live_ok g" and "\<not> goal_is_terminal next" and "next = GoalWaiting \<Longrightarrow> gg_waiting_condition_id g \<noteq> None"
  shows "goal_ok (start_goal next now (g\<lparr>gg_state := next, gg_last_stop := None, gg_resume_state := None\<rparr>))"
  using assms by (intro live_ok_goal) (auto simp: live_ok_def state_ok_def start_goal_def)

lemma move_goal_final:
  assumes "live_ok g" and "goal_is_terminal next" and "\<not> is_blank text"
  shows "goal_ok (start_goal next now (g\<lparr>gg_terminal_summary := Some \<lparr>ts_state = next, ts_summary = text, ts_finished_at = now,
      ts_final_usage = gg_usage g\<rparr>, gg_state := next, gg_last_stop := None, gg_resume_state := None\<rparr>))"
proof -
  have "next \<noteq> GoalRunning" "next \<noteq> GoalWaiting" using assms(2) by (auto simp: goal_is_terminal_def)
  then show ?thesis using assms by (simp add: goal_ok_def live_ok_def start_goal_def)
qed

lemma move_goal_cases:
  assumes "move_goal next summary now g = Inr g'"
  shows "goal_allows (gg_state g) next" and "next = GoalWaiting \<Longrightarrow> gg_waiting_condition_id g \<noteq> None"
    and "goal_is_terminal next \<Longrightarrow> \<exists>text. \<not> is_blank text \<and> g' = start_goal next now (g\<lparr>gg_terminal_summary := Some
      \<lparr>ts_state = next, ts_summary = text, ts_finished_at = now, ts_final_usage = gg_usage g\<rparr>,
      gg_state := next, gg_last_stop := None, gg_resume_state := None\<rparr>)"
    and "\<not> goal_is_terminal next \<Longrightarrow> g' = start_goal next now (g\<lparr>gg_state := next, gg_last_stop := None, gg_resume_state := None\<rparr>)"
  using assms by (auto simp: move_goal_def split: if_splits option.splits)

lemma move_goal_ok:
  assumes "move_goal next summary now g = Inr g'" and "goal_ok g"
  shows "goal_ok g'"
proof -
  note m = move_goal_cases [OF assms(1)]
  have live: "live_ok g" using goal_ok_live [OF goal_allows_live [OF m(1)]] assms(2) by simp
  show ?thesis
  proof (cases "goal_is_terminal next")
    case True
    then show ?thesis using m(3) move_goal_final [OF live True] by auto
  next
    case False
    then show ?thesis using m(2,4) move_goal_live [OF live False] by auto
  qed
qed

lemma pause_goal_ok:
  assumes "pause_goal g = Inr g'" and "goal_ok g"
  shows "goal_ok g'"
proof -
  obtain target where t: "goal_allows (gg_state g) GoalPaused" "pause_target (gg_state g) = Some target"
    "g' = g\<lparr>gg_resume_state := Some target, gg_state := GoalPaused\<rparr>"
    using assms(1) by (auto simp: pause_goal_def split: if_splits option.splits)
  have "target \<in> {GoalReady, GoalWaiting, GoalReviewing, GoalRunning}" using t(2) by (cases "gg_state g") auto
  moreover have "live_ok g" using goal_ok_live [OF goal_allows_live [OF t(1)]] assms(2) by simp
  ultimately show ?thesis
    unfolding t(3) by (intro live_ok_goal) (auto simp: live_ok_def state_ok_def goal_is_terminal_def)
qed

lemma resume_goal_cases:
  assumes "resume_goal now g = Inr g'"
  obtains st where "gg_state g = GoalPaused \<and> (gg_resume_state g = Some st \<or> gg_resume_state g = None \<and> st = GoalReady)
      \<or> gg_state g = GoalBlocked \<and> st = GoalRunning"
    and "st = GoalWaiting \<Longrightarrow> gg_waiting_condition_id g \<noteq> None"
    and "g' = start_goal st now (g\<lparr>gg_resume_state := (if gg_state g = GoalPaused then None else gg_resume_state g),
        gg_state := st, gg_last_stop := None\<rparr>)"
    and "reached_limit (gg_usage g) (gg_limits g) = None"
  using assms by (auto simp: resume_goal_def split: if_splits option.splits)

lemma resume_goal_ok:
  assumes "resume_goal now g = Inr g'" and "goal_ok g"
  shows "goal_ok g'"
  using assms(1)
proof (cases rule: resume_goal_cases)
  case (1 st)
  then have ok: "live_ok g" "state_ok g" using assms(2) goal_ok_live [of g] by (auto simp: goal_is_terminal_def)
  then have "st \<in> {GoalReady, GoalWaiting, GoalReviewing, GoalRunning}" using 1(1) by (auto simp: state_ok_def)
  moreover have "gg_state g \<noteq> GoalPaused \<Longrightarrow> gg_resume_state g = None"
    using ok(2) by (cases "gg_resume_state g") (auto simp: state_ok_def)
  ultimately show ?thesis
    unfolding 1(3) using ok(1) 1(2)
    by (intro live_ok_goal) (auto simp: live_ok_def state_ok_def start_goal_def goal_is_terminal_def split: if_splits)
qed

lemma charge_goal_ok:
  assumes "charge_goal delta now g = Inr g'" and "goal_ok g"
  shows "goal_ok g'"
proof -
  define g1 where "g1 = g\<lparr>gg_usage := bounded_usage (gg_usage g) delta (gg_limits g) now (gg_started_at g)\<rparr>"
  have st: "gg_state g \<in> {GoalRunning, GoalWaiting, GoalReviewing}"
    and g': "g' = g1 \<or> (\<exists>limit. g' = limit_block g1 limit)"
    using assms(1) by (auto simp: charge_goal_def Let_def g1_def split: if_splits option.splits)
  have ok: "live_ok g" "state_ok g" using assms(2) goal_ok_live [of g] st by (auto simp: goal_is_terminal_def)
  have none: "gg_resume_state g = None" using ok(2) st by (cases "gg_resume_state g") (auto simp: state_ok_def)
  have "live_ok g1" "state_ok g1" using ok by (auto simp: g1_def live_ok_def state_ok_def)
  moreover have "live_ok (limit_block g1 limit)" "state_ok (limit_block g1 limit)" for limit
    using \<open>live_ok g1\<close> none by (auto simp: g1_def live_ok_def state_ok_def limit_block_def goal_is_terminal_def)
  ultimately show ?thesis using g' live_ok_goal by blast
qed

lemma block_goal_ok:
  assumes "block_goal summary g = Inr g'" and "goal_ok g"
  shows "goal_ok g'"
proof -
  have allow: "goal_allows (gg_state g) GoalBlocked"
    and g': "g' = g\<lparr>gg_state := GoalBlocked, gg_last_stop := Some (UserBlocked summary)\<rparr>"
    using assms(1) by (auto simp: block_goal_def split: if_splits)
  have ok: "live_ok g" "state_ok g" using goal_ok_live [OF goal_allows_live [OF allow]] assms(2) by auto
  have "gg_state g \<noteq> GoalPaused" using allow by auto
  then have "gg_resume_state g = None" using ok(2) by (cases "gg_resume_state g") (auto simp: state_ok_def)
  then show ?thesis
    using ok(1) by (intro live_ok_goal) (auto simp: g' live_ok_def state_ok_def goal_is_terminal_def)
qed

lemma archive_goal_ok: "archive_goal now g = Inr g' \<Longrightarrow> goal_ok g \<Longrightarrow> goal_ok g'"
  by (auto simp: archive_goal_def goal_ok_def split: if_splits)

lemma refresh_elapsed_simps [simp]:
  "gg_state (refresh_elapsed g now) = gg_state g" "gg_limits (refresh_elapsed g now) = gg_limits g"
  "gg_objective (refresh_elapsed g now) = gg_objective g" "gg_terminal_summary (refresh_elapsed g now) = gg_terminal_summary g"
  "gg_archived_at (refresh_elapsed g now) = gg_archived_at g" "gg_resume_state (refresh_elapsed g now) = gg_resume_state g"
  "gg_id (refresh_elapsed g now) = gg_id g" "gg_session_id (refresh_elapsed g now) = gg_session_id g"
  "gg_revision (refresh_elapsed g now) = gg_revision g"
  by (simp_all add: refresh_elapsed_def)

lemma timed_out_ok:
  assumes "gg_state g = GoalRunning" and "goal_ok g"
  shows "goal_ok (limit_block (refresh_elapsed g now) limit)"
proof -
  have ok: "live_ok g" "state_ok g" using assms goal_ok_live [of g] by (auto simp: goal_is_terminal_def)
  then have "gg_resume_state g = None" using assms(1) by (cases "gg_resume_state g") (auto simp: state_ok_def)
  then show ?thesis
    using ok(1) refresh_elapsed_within [of g now]
    by (intro live_ok_goal) (auto simp: live_ok_def state_ok_def limit_block_def goal_is_terminal_def)
qed

lemma goal_change_ok:
  assumes "goal_change now g g'" and "goal_ok g"
  shows "goal_ok g'"
  using assms(1)
proof cases
  case edited
  then show ?thesis using edit_goal_ok assms(2) by blast
next
  case moved_on
  then show ?thesis using move_goal_ok assms(2) by blast
next
  case paused
  then show ?thesis using pause_goal_ok assms(2) by blast
next
  case resumed
  then show ?thesis using resume_goal_ok assms(2) by blast
next
  case charged
  then show ?thesis using charge_goal_ok assms(2) by blast
next
  case blocked
  then show ?thesis using block_goal_ok assms(2) by blast
next
  case archived
  then show ?thesis using archive_goal_ok assms(2) by blast
next
  case timed_out
  then show ?thesis using timed_out_ok assms(2) by blast
qed

end
