(* ===== verification/Spec2Isabelle.thy ===== *)
theory Spec2Isabelle
  imports State_Store Framing Action_Store Waiting Delivery Scheduler Resource_Safety Goal_Service
begin

text \<open>
  A verification library for the durable core of the Keith agent harness: the shared types, the
  transactional state store, the wire framing and the session action inbox.
\<close>

end
